(* ===== verification/Prelude.thy ===== *)
theory Prelude
  imports Main "HOL-Library.Word" "HOL-Library.Monad_Syntax"
begin

text \<open>
  What the component theories share: the machine types of the i386 kernel, its byte-addressed
  memory with the little-endian accesses a C compiler emits for \<^verbatim>\<open>uint16_t\<close> and \<^verbatim>\<open>uint32_t\<close>
  fields, the frame lemmas for that memory, and generic facts on words, lists and slot tables.
  The collections \<open>frame_simps\<close> and \<open>slot_simps\<close> carry the component proofs.
\<close>

unbundle bit_operations_syntax

named_theorems frame_simps \<open>memory accesses across writes elsewhere\<close>
named_theorems slot_simps \<open>first-free-slot searches\<close>

section \<open>Machine types\<close>

type_synonym u8 = "8 word"
type_synonym u16 = "16 word"
type_synonym u32 = "32 word"
type_synonym u64 = "64 word"

text \<open>Physical memory: every 32-bit address holds a byte.\<close>

type_synonym memory = "u32 \<Rightarrow> u8"

section \<open>Words\<close>

lemma unat_add_small:
  fixes a b :: "'a::len word"
  assumes "unat a + unat b < 2 ^ LENGTH('a)"
  shows "unat (a + b) = unat a + unat b"
  using assms by (simp add: unat_word_ariths)

lemma unat_add_u32 [simp]:
  fixes a b :: u32
  assumes "unat a + unat b < 4294967296"
  shows "unat (a + b) = unat a + unat b"
  using assms by (simp add: unat_word_ariths)

lemma unat_sub_u32 [simp]:
  fixes a b :: u32
  assumes "unat b \<le> unat a"
  shows "unat (a - b) = unat a - unat b"
  using assms by (simp add: unat_sub word_le_nat_alt)

lemma unat_bound_u32 [simp]: "unat (a :: u32) < 4294967296"
  using unsigned_less [where 'a = nat and w = a] by simp

lemma unat_le_u32 [simp]: "unat (a :: u32) \<le> 4294967295"
  using unat_bound_u32 [of a] by linarith

lemma unat_bound_u16 [simp]: "unat (a :: u16) < 65536"
  using unsigned_less [where 'a = nat and w = a] by simp

lemma unat_bound_u8 [simp]: "unat (a :: u8) < 256"
  using unsigned_less [where 'a = nat and w = a] by simp

lemma u32_eqI: "unat a = unat b \<Longrightarrow> a = (b :: u32)"
  by (simp add: word_unat_eq_iff)

lemma u32_less: "a < b \<longleftrightarrow> unat a < unat (b :: u32)"
  by (simp add: word_less_nat_alt)

lemma u32_le: "a \<le> b \<longleftrightarrow> unat a \<le> unat (b :: u32)"
  by (simp add: word_le_nat_alt)

lemma u32_nonzero: "a \<noteq> 0 \<longleftrightarrow> 0 < unat (a :: u32)"
  by (simp only: unat_gt_0)

section \<open>Byte memory\<close>

definition load16 :: "memory \<Rightarrow> u32 \<Rightarrow> u16" where
  "load16 m a = ucast (m a) OR push_bit 8 (ucast (m (a + 1)))"

definition load32 :: "memory \<Rightarrow> u32 \<Rightarrow> u32" where
  "load32 m a = ucast (m a) OR push_bit 8 (ucast (m (a + 1))) OR
     push_bit 16 (ucast (m (a + 2))) OR push_bit 24 (ucast (m (a + 3)))"

definition store16 :: "memory \<Rightarrow> u32 \<Rightarrow> u16 \<Rightarrow> memory" where
  "store16 m a v = m(a := ucast v, a + 1 := ucast (drop_bit 8 v))"

definition store32 :: "memory \<Rightarrow> u32 \<Rightarrow> u32 \<Rightarrow> memory" where
  "store32 m a v = m(a := ucast v, a + 1 := ucast (drop_bit 8 v),
     a + 2 := ucast (drop_bit 16 v), a + 3 := ucast (drop_bit 24 v))"

lemma bytes_of_u32:
  fixes v :: u32
  shows "ucast (ucast v :: u8) OR push_bit 8 (ucast (ucast (drop_bit 8 v) :: u8)) OR
    push_bit 16 (ucast (ucast (drop_bit 16 v) :: u8)) OR
    push_bit 24 (ucast (ucast (drop_bit 24 v) :: u8)) = v"
proof (rule bit_word_eqI)
  fix n assume "n < LENGTH(32)"
  then consider "n < 8" | "8 \<le> n" "n < 16" | "16 \<le> n" "n < 24" | "24 \<le> n" "n < 32"
    by (cases "n < 8"; cases "n < 16"; cases "n < 24") auto
  then show "bit (ucast (ucast v :: u8) OR push_bit 8 (ucast (ucast (drop_bit 8 v) :: u8)) OR
      push_bit 16 (ucast (ucast (drop_bit 16 v) :: u8)) OR
      push_bit 24 (ucast (ucast (drop_bit 24 v) :: u8)) :: u32) n = bit v n"
    by cases (auto simp: bit_simps)
qed

lemma bytes_of_u16:
  fixes v :: u16
  shows "ucast (ucast v :: u8) OR push_bit 8 (ucast (ucast (drop_bit 8 v) :: u8)) = v"
  by (rule bit_word_eqI) (auto simp: bit_simps)

lemma load32_store32 [simp]: "load32 (store32 m a v) a = v"
  by (simp add: load32_def store32_def bytes_of_u32)

lemma load16_store16 [simp]: "load16 (store16 m a v) a = v"
  by (simp add: load16_def store16_def bytes_of_u16)

text \<open>Two memories agree on the addresses of the interval from \<open>lo\<close> up to \<open>hi\<close>.\<close>

definition mem_eq :: "memory \<Rightarrow> memory \<Rightarrow> nat \<Rightarrow> nat \<Rightarrow> bool" where
  "mem_eq m m' lo hi \<longleftrightarrow> (\<forall>x. lo \<le> unat x \<and> unat x < hi \<longrightarrow> m x = m' x)"

lemma mem_eq_refl [simp]: "mem_eq m m lo hi"
  by (simp add: mem_eq_def)

lemma mem_eq_sym: "mem_eq m m' lo hi \<Longrightarrow> mem_eq m' m lo hi"
  by (simp add: mem_eq_def)

lemma mem_eq_trans: "mem_eq m m' lo hi \<Longrightarrow> mem_eq m' m'' lo hi \<Longrightarrow> mem_eq m m'' lo hi"
  by (simp add: mem_eq_def)

lemma mem_eq_mono: "mem_eq m m' lo hi \<Longrightarrow> lo \<le> lo' \<Longrightarrow> hi' \<le> hi \<Longrightarrow> mem_eq m m' lo' hi'"
  by (simp add: mem_eq_def)

lemma mem_eq_byte: "mem_eq m m' lo hi \<Longrightarrow> lo \<le> unat a \<Longrightarrow> unat a < hi \<Longrightarrow> m a = m' a"
  by (simp add: mem_eq_def)

lemma load32_cong:
  assumes "mem_eq m m' lo hi" "lo \<le> unat a" "unat a + 4 \<le> hi" "hi \<le> 4294967296"
  shows "load32 m a = load32 m' a"
proof -
  have "unat (a + 1) = unat a + 1" "unat (a + 2) = unat a + 2" "unat (a + 3) = unat a + 3"
    using assms by simp_all
  then show ?thesis
    using assms by (simp add: load32_def mem_eq_def)
qed

lemma mem_eq_upd [frame_simps]:
  assumes "unat a < lo \<or> hi \<le> unat a"
  shows "mem_eq m (m'(a := v)) lo hi = mem_eq m m' lo hi"
proof -
  have "(m'(a := v)) x = m' x" if "lo \<le> unat x \<and> unat x < hi" for x
    using assms that by (cases "x = a") auto
  then show ?thesis
    unfolding mem_eq_def by metis
qed

lemma mem_eq_store32 [frame_simps]:
  assumes "unat a + 4 \<le> lo \<or> hi \<le> unat a" "unat a + 4 \<le> 4294967296"
  shows "mem_eq m (store32 m' a v) lo hi = mem_eq m m' lo hi"
proof -
  have "unat (a + 1) = unat a + 1" "unat (a + 2) = unat a + 2" "unat (a + 3) = unat a + 3"
    using assms by simp_all
  then show ?thesis
    using assms by (auto simp: store32_def mem_eq_upd)
qed

lemma load32_store32_other [frame_simps]:
  assumes "unat a + 4 \<le> unat b \<or> unat b + 4 \<le> unat a"
    and "unat a + 4 \<le> 4294967296" "unat b + 4 \<le> 4294967296"
  shows "load32 (store32 m a v) b = load32 m b"
proof -
  have "mem_eq m (store32 m a v) (unat b) (unat b + 4)"
    using assms by (simp add: mem_eq_store32)
  from load32_cong [OF this order_refl order_refl] show ?thesis
    using assms(3) by simp
qed

lemma load32_upd_other [frame_simps]:
  assumes "unat a < unat b \<or> unat b + 4 \<le> unat a" and "unat b + 4 \<le> 4294967296"
  shows "load32 (m(a := v)) b = load32 m b"
proof -
  have "mem_eq m (m(a := v)) (unat b) (unat b + 4)"
    using assms by (simp add: mem_eq_upd)
  from load32_cong [OF this order_refl order_refl] show ?thesis
    using assms(2) by simp
qed

lemma store32_other [frame_simps]:
  assumes "unat b < unat a \<or> unat a + 4 \<le> unat b" and "unat a + 4 \<le> 4294967296"
  shows "store32 m a v b = m b"
proof -
  have "mem_eq m (store32 m a v) (unat b) (unat b + 1)"
    using assms by (auto simp: mem_eq_store32)
  then show ?thesis
    by (simp add: mem_eq_def)
qed

section \<open>Slot tables\<close>

text \<open>
  The loop \<^verbatim>\<open>for (i = 0; i < N; i++) if (P(tab[i])) return i;\<close> over a fixed table: the first
  index whose entry satisfies the test.
\<close>

fun first_idx :: "('a \<Rightarrow> bool) \<Rightarrow> 'a list \<Rightarrow> nat option" where
  "first_idx P [] = None"
| "first_idx P (x # xs) = (if P x then Some 0 else map_option Suc (first_idx P xs))"

lemma first_idx_None [slot_simps]: "first_idx P xs = None \<longleftrightarrow> (\<forall>x \<in> set xs. \<not> P x)"
  by (induction xs) auto

lemma first_idx_SomeD:
  "first_idx P xs = Some i \<Longrightarrow> i < length xs \<and> P (xs ! i) \<and> (\<forall>j < i. \<not> P (xs ! j))"
proof (induction xs arbitrary: i)
  case Nil
  then show ?case by simp
next
  case (Cons x xs)
  show ?case
  proof (cases "P x")
    case True
    with Cons.prems show ?thesis by simp
  next
    case False
    with Cons.prems obtain k where k: "first_idx P xs = Some k" and i: "i = Suc k"
      by auto
    have "\<not> P ((x # xs) ! j)" if "j < i" for j
      using Cons.IH [OF k] False that i by (cases j) auto
    then show ?thesis
      using Cons.IH [OF k] i by simp
  qed
qed

lemma first_idx_less: "first_idx P xs = Some i \<Longrightarrow> i < length xs"
  by (blast dest: first_idx_SomeD)

lemma first_idx_holds: "first_idx P xs = Some i \<Longrightarrow> P (xs ! i)"
  by (blast dest: first_idx_SomeD)

lemma first_idx_ex: "i < length xs \<Longrightarrow> P (xs ! i) \<Longrightarrow> \<exists>j \<le> i. first_idx P xs = Some j"
proof (induction xs arbitrary: i)
  case Nil
  then show ?case by simp
next
  case (Cons x xs)
  then show ?case by (cases i) fastforce+
qed

section \<open>Loops\<close>

text \<open>
  A counted C loop whose body may stop the machine: \<open>foldM f [a..<b] s\<close> runs the body for each
  index in turn. A body that always returns is an ordinary \<open>fold\<close>.
\<close>

fun foldM :: "('a \<Rightarrow> 's \<Rightarrow> 's option) \<Rightarrow> 'a list \<Rightarrow> 's \<Rightarrow> 's option" where
  "foldM f [] s = Some s"
| "foldM f (x # xs) s = do { s' \<leftarrow> f x s; foldM f xs s' }"

lemma foldM_append: "foldM f (xs @ ys) s = do { s' \<leftarrow> foldM f xs s; foldM f ys s' }"
proof (induction xs arbitrary: s)
  case (Cons x xs)
  then show ?case by (cases "f x s") simp_all
qed simp

lemma foldM_inv:
  assumes "foldM f xs s = Some s'" "P s"
    and "\<And>x s s'. x \<in> set xs \<Longrightarrow> P s \<Longrightarrow> f x s = Some s' \<Longrightarrow> P s'"
  shows "P s'"
  using assms
proof (induction xs arbitrary: s)
  case (Cons x xs)
  then obtain s1 where "f x s = Some s1" "foldM f xs s1 = Some s'"
    by (cases "f x s") auto
  moreover have "P s1"
    using Cons.prems(3) [OF _ Cons.prems(2) calculation(1)] by simp
  ultimately show ?case
    using Cons.IH [of s1] Cons.prems(3) by (meson list.set_intros(2))
qed simp

end
