(* ===== verification/Mem.thy ===== *)
theory Mem
  imports Prelude
begin

text \<open>
  The kernel heap, \<^verbatim>\<open>stage2/mem.c\<close> and \<^verbatim>\<open>inc/mem.h\<close>: the E820 map, the bump pointer and the
  address-ordered free list threaded through the block headers in memory. Headers and payloads
  live in one byte memory, so a stray write would be seen by the model. A function result
  \<open>None\<close> means that control does not come back to the caller: the CPU was stopped by
  \<^verbatim>\<open>HALT()\<close>, or a list walk does not end. Log output is left out.
\<close>

section \<open>E820 memory map\<close>

record e820_entry =
  e_base :: u64
  e_length :: u64
  e_type :: u32
  acpi_extended_attributes :: u32

definition align_up_uintptr :: "u32 \<Rightarrow> u32 \<Rightarrow> u32" where
  "align_up_uintptr x align = (x + (align - 1)) AND NOT (align - 1)"

definition overlaps :: "e820_entry \<Rightarrow> e820_entry \<Rightarrow> bool" where
  "overlaps a b \<longleftrightarrow> e_base a < e_base b + e_length b \<and> e_base b < e_base a + e_length a"

text \<open>The number of overlapping pairs the two nested loops report.\<close>

fun check_overlaps :: "e820_entry list \<Rightarrow> nat" where
  "check_overlaps [] = 0"
| "check_overlaps (a # es) = length (filter (overlaps a) es) + check_overlaps es"

fun calculate_total_size :: "e820_entry list \<Rightarrow> u64" where
  "calculate_total_size [] = 0"
| "calculate_total_size (e # es) =
     (if e_type e = 1 then e_length e else 0) + calculate_total_size es"

text \<open>The selection loop of \<^verbatim>\<open>init_alloc\<close> from index \<open>i\<close>, with \<open>k\<close> entries left.\<close>

fun biggest_index :: "(nat \<Rightarrow> e820_entry) \<Rightarrow> nat \<Rightarrow> nat \<Rightarrow> nat \<Rightarrow> nat" where
  "biggest_index es i 0 best = best"
| "biggest_index es i (Suc k) best =
     biggest_index es (Suc i) k
       (if e_type (es i) = 1 \<and> e_length (es best) < e_length (es i) then i else best)"

section \<open>Heap state\<close>

record heap_st =
  ram :: memory
  free_ram :: u32
  free_ram_end :: u32
  bump_next :: u32
  free_list_head :: u32

definition init_alloc :: "nat \<Rightarrow> (nat \<Rightarrow> e820_entry) \<Rightarrow> 'a heap_st_scheme \<Rightarrow> 'a heap_st_scheme" where
  "init_alloc count es s =
     (let e = es (biggest_index es 0 count 0);
          lo = ucast (e_base e); hi = ucast (e_base e + e_length e)
      in s\<lparr>free_ram := lo, free_ram_end := hi, bump_next := lo\<rparr>)"

section \<open>Byte loops\<close>

fun memset_loop :: "memory \<Rightarrow> u32 \<Rightarrow> u8 \<Rightarrow> nat \<Rightarrow> memory" where
  "memset_loop m p c 0 = m"
| "memset_loop m p c (Suc n) = memset_loop (m(p := c)) (p + 1) c n"

definition memset :: "memory \<Rightarrow> u32 \<Rightarrow> u8 \<Rightarrow> u32 \<Rightarrow> memory" where
  "memset m buf c n = memset_loop m buf c (unat n)"

fun memcpy_loop :: "memory \<Rightarrow> u32 \<Rightarrow> u32 \<Rightarrow> nat \<Rightarrow> memory" where
  "memcpy_loop m d s 0 = m"
| "memcpy_loop m d s (Suc n) = memcpy_loop (m(d := m s)) (d + 1) (s + 1) n"

definition memcpy :: "memory \<Rightarrow> u32 \<Rightarrow> u32 \<Rightarrow> u32 \<Rightarrow> memory" where
  "memcpy m dst src n = memcpy_loop m dst src (unat n)"

section \<open>Block headers\<close>

text \<open>
  \<^verbatim>\<open>block_header_t\<close> on i386: \<^verbatim>\<open>size\<close> at offset 0, \<^verbatim>\<open>free\<close> (one byte) at 4, \<^verbatim>\<open>next\<close> at 8;
  \<^verbatim>\<open>sizeof\<close> is 12.
\<close>

abbreviation (input) hdr_size :: u32 where
  "hdr_size \<equiv> 12"

definition hsize :: "memory \<Rightarrow> u32 \<Rightarrow> u32" where
  "hsize m a = load32 m a"

definition hfree :: "memory \<Rightarrow> u32 \<Rightarrow> bool" where
  "hfree m a \<longleftrightarrow> m (a + 4) \<noteq> 0"

definition hnext :: "memory \<Rightarrow> u32 \<Rightarrow> u32" where
  "hnext m a = load32 m (a + 8)"

definition set_size :: "memory \<Rightarrow> u32 \<Rightarrow> u32 \<Rightarrow> memory" where
  "set_size m a v = store32 m a v"

definition set_free :: "memory \<Rightarrow> u32 \<Rightarrow> bool \<Rightarrow> memory" where
  "set_free m a b = m(a + 4 := (if b then 1 else 0))"

definition set_next :: "memory \<Rightarrow> u32 \<Rightarrow> u32 \<Rightarrow> memory" where
  "set_next m a v = store32 m (a + 8) v"

section \<open>Allocation and release\<close>

text \<open>The first-fit walk: the predecessor and the block found (0 when the list is exhausted).\<close>

partial_function (option) find_free_loop ::
    "memory \<Rightarrow> u32 \<Rightarrow> u32 \<Rightarrow> u32 \<Rightarrow> (u32 \<times> u32) option" where
  "find_free_loop m want prev cur =
     (if cur = 0 then Some (prev, 0)
      else if hfree m cur \<and> want \<le> hsize m cur then Some (prev, cur)
      else find_free_loop m want cur (hnext m cur))"

definition find_free_block_and_remove ::
    "u32 \<Rightarrow> 'a heap_st_scheme \<Rightarrow> (u32 \<times> 'a heap_st_scheme) option" where
  "find_free_block_and_remove want s =
     do { (prev, cur) \<leftarrow> find_free_loop (ram s) want 0 (free_list_head s);
          if cur = 0 then Some (0, s)
          else let nxt = hnext (ram s) cur;
                   s1 = (if prev \<noteq> 0 then s\<lparr>ram := set_next (ram s) prev nxt\<rparr>
                         else s\<lparr>free_list_head := nxt\<rparr>)
               in Some (cur, s1\<lparr>ram := set_free (set_next (ram s1) cur 0) cur False\<rparr>) }"

text \<open>The walk \<^verbatim>\<open>while (cur && cur < block)\<close> of \<^verbatim>\<open>try_split_block\<close> and \<^verbatim>\<open>kfree\<close>.\<close>

partial_function (option) list_scan ::
    "memory \<Rightarrow> u32 \<Rightarrow> u32 \<Rightarrow> u32 \<Rightarrow> (u32 \<times> u32) option" where
  "list_scan m block prev cur =
     (if cur \<noteq> 0 \<and> cur < block then list_scan m block cur (hnext m cur) else Some (prev, cur))"

definition try_split_block ::
    "u32 \<Rightarrow> u32 \<Rightarrow> 'a heap_st_scheme \<Rightarrow> 'a heap_st_scheme option" where
  "try_split_block block want_size s =
     (let m = ram s in
      if hsize m block \<le> want_size + hdr_size + 16 then Some s
      else let new_hdr = block + hdr_size + want_size;
               m1 = set_next (set_free (set_size m new_hdr
                      (hsize m block - want_size - hdr_size)) new_hdr True) new_hdr 0;
               m2 = set_size m1 block want_size
           in do { (prev, cur) \<leftarrow> list_scan m2 new_hdr 0 (free_list_head s);
                   let m3 = set_next m2 new_hdr cur;
                   Some (if prev \<noteq> 0 then s\<lparr>ram := set_next m3 prev new_hdr\<rparr>
                         else s\<lparr>ram := m3, free_list_head := new_hdr\<rparr>) })"

text \<open>The part of \<^verbatim>\<open>kmalloc\<close> that extends the heap; running out of it stops the CPU.\<close>

definition bump_alloc :: "u32 \<Rightarrow> 'a heap_st_scheme \<Rightarrow> (u32 \<times> 'a heap_st_scheme) option" where
  "bump_alloc want_size s =
     (let hdr_addr = align_up_uintptr (bump_next s) 8;
          payload_addr = hdr_addr + hdr_size;
          new_bump = payload_addr + want_size
      in if free_ram_end s < new_bump then None
         else let m = set_next (set_free (set_size (ram s) hdr_addr want_size) hdr_addr False) hdr_addr 0
              in Some (payload_addr,
                       s\<lparr>bump_next := new_bump, ram := memset m payload_addr 0 want_size\<rparr>))"

definition kmalloc :: "u32 \<Rightarrow> 'a heap_st_scheme \<Rightarrow> (u32 \<times> 'a heap_st_scheme) option" where
  "kmalloc bytes s =
     (if bytes = 0 then Some (0, s)
      else let want_size = align_up_uintptr bytes 8;
               s0 = (if bump_next s = 0 then s\<lparr>bump_next := free_ram s\<rparr> else s)
           in do { (found, s1) \<leftarrow> find_free_block_and_remove want_size s0;
                   if found \<noteq> 0
                   then do { s2 \<leftarrow> try_split_block found want_size s1;
                             let payload = found + hdr_size;
                             Some (payload, s2\<lparr>ram := memset (ram s2) payload 0 want_size\<rparr>) }
                   else bump_alloc want_size s1 })"

definition try_coalesce_adjacent :: "memory \<Rightarrow> u32 \<Rightarrow> u32 \<Rightarrow> bool \<times> memory" where
  "try_coalesce_adjacent m a b =
     (if a + hdr_size + hsize m a = b
      then (True, set_next (set_size m a (hsize m a + hdr_size + hsize m b)) a (hnext m b))
      else (False, m))"

text \<open>
  The end of \<^verbatim>\<open>kfree\<close>: a second walk finds the predecessor (the insertion walk has found it
  already when there is one) and merges with it, then the result is merged with its successor.
\<close>

definition kfree_merge_prev :: "u32 \<Rightarrow> u32 \<Rightarrow> 'a heap_st_scheme \<Rightarrow> (u32 \<times> memory) option" where
  "kfree_merge_prev prev block s =
     (if prev \<noteq> 0
      then do { (scan_prev, _) \<leftarrow> list_scan (ram s) block 0 (free_list_head s);
                if scan_prev \<noteq> 0
                then (case try_coalesce_adjacent (ram s) scan_prev block of
                        (True, m) \<Rightarrow> Some (scan_prev, m)
                      | (False, m) \<Rightarrow> Some (block, m))
                else Some (block, ram s) }
      else Some (block, ram s))"

definition kfree_coalesce :: "u32 \<Rightarrow> u32 \<Rightarrow> 'a heap_st_scheme \<Rightarrow> 'a heap_st_scheme option" where
  "kfree_coalesce prev block s =
     do { (block', m1) \<leftarrow> kfree_merge_prev prev block s;
          Some (s\<lparr>ram := (if hnext m1 block' \<noteq> 0
                           then snd (try_coalesce_adjacent m1 block' (hnext m1 block'))
                           else m1)\<rparr>) }"

definition kfree :: "u32 \<Rightarrow> 'a heap_st_scheme \<Rightarrow> 'a heap_st_scheme option" where
  "kfree loc s =
     (if loc = 0 then Some s
      else let block = loc - hdr_size in
        if block < free_ram s \<or> free_ram_end s \<le> block then Some s
        else let m1 = set_next (set_free (ram s) block True) block 0
             in do { (prev, cur) \<leftarrow> list_scan m1 block 0 (free_list_head s);
                     let m2 = set_next m1 block cur;
                     kfree_coalesce prev block
                       (if prev \<noteq> 0 then s\<lparr>ram := set_next m2 prev block\<rparr>
                        else s\<lparr>ram := m2, free_list_head := block\<rparr>) })"

text \<open>The allocator touches only its own fields: what a record adds to the heap state stays.\<close>

lemma kmalloc_more: "kmalloc bytes s = Some (p, s') \<Longrightarrow> heap_st.more s' = heap_st.more s"
  by (auto simp: kmalloc_def find_free_block_and_remove_def try_split_block_def bump_alloc_def Let_def
      bind_eq_Some_conv split: if_splits)

lemma kfree_more: "kfree p s = Some s' \<Longrightarrow> heap_st.more s' = heap_st.more s"
  by (auto simp: kfree_def kfree_coalesce_def Let_def bind_eq_Some_conv split: if_splits)

end
