(* ===== verification/Heap.thy ===== *)
theory Heap
  imports Mem
begin

text \<open>
  Correctness of the kernel heap of \<open>Mem\<close>. The invariant keeps, beside the state, the list of
  all block headers in address order: the blocks tile the heap without overlap and the free
  list visits exactly the free ones, in address order.
\<close>

section \<open>Byte loops\<close>

lemma memset_loop_eq:
  "n \<le> 4294967296 \<Longrightarrow> memset_loop m p c n = (\<lambda>x. if unat (x - p) < n then c else m x)"
proof (induction n arbitrary: m p)
  case 0
  then show ?case by simp
next
  case (Suc n)
  have "unat (x - (p + 1)) < n \<or> x = p \<longleftrightarrow> unat (x - p) < Suc n" for x
  proof (cases "x = p")
    case False
    then have "0 < unat (x - p)"
      by (simp only: unat_gt_0) simp
    then have "unat ((x - p) - 1) = unat (x - p) - 1"
      by (subst unat_sub_u32) auto
    moreover have "x - (p + 1) = (x - p) - 1"
      by simp
    ultimately show ?thesis
      using False \<open>0 < unat (x - p)\<close> by (simp only:) auto
  qed simp
  with Suc show ?case
    by (auto simp: fun_eq_iff)
qed

lemma memset_eq: "memset m p c n = (\<lambda>x. if unat (x - p) < unat n then c else m x)"
  by (simp add: memset_def memset_loop_eq less_imp_le)

lemma mem_eq_memset [frame_simps]:
  assumes "unat p + unat n \<le> 4294967296" "unat p + unat n \<le> lo \<or> hi \<le> unat p"
  shows "mem_eq m (memset m' p c n) lo hi = mem_eq m m' lo hi"
proof -
  have "memset m' p c n x = m' x" if x: "lo \<le> unat x \<and> unat x < hi" for x
  proof -
    have "\<not> unat (x - p) < unat n"
    proof (cases "unat p \<le> unat x")
      case True
      then show ?thesis using assms x by auto
    next
      case False
      then have "unat (x - p) = 4294967296 - (unat p - unat x)"
        by (simp add: unat_sub_if' unat_word_ariths)
      then show ?thesis using False assms x by simp
    qed
    then show ?thesis by (simp add: memset_eq)
  qed
  then show ?thesis
    unfolding mem_eq_def by metis
qed

section \<open>Header fields\<close>

abbreviation sep :: "u32 \<Rightarrow> u32 \<Rightarrow> bool" where
  "sep a b \<equiv> unat a + 12 \<le> unat b \<or> unat b + 12 \<le> unat a"

abbreviation fits :: "u32 \<Rightarrow> bool" where
  "fits a \<equiv> unat a + 12 \<le> 4294967296"

lemma header_offsets:
  assumes "fits a"
  shows "unat (a + 4) = unat a + 4" "unat (a + 8) = unat a + 8"
  using assms by simp_all

lemma header_same [simp]:
  assumes "fits a"
  shows "hsize (set_size m a v) a = v" "hfree (set_size m a v) a = hfree m a"
    "hnext (set_size m a v) a = hnext m a" "hsize (set_free m a b) a = hsize m a"
    "hfree (set_free m a b) a = b" "hnext (set_free m a b) a = hnext m a"
    "hsize (set_next m a v) a = hsize m a" "hfree (set_next m a v) a = hfree m a"
    "hnext (set_next m a v) a = v"
  using assms
  by (simp_all add: hsize_def hfree_def hnext_def set_size_def set_free_def set_next_def
      frame_simps)

lemma header_other:
  assumes "fits a" "fits b" "sep a b"
  shows "hsize (set_size m a v) b = hsize m b" "hfree (set_size m a v) b = hfree m b"
    "hnext (set_size m a v) b = hnext m b" "hsize (set_free m a c) b = hsize m b"
    "hfree (set_free m a c) b = hfree m b" "hnext (set_free m a c) b = hnext m b"
    "hsize (set_next m a v) b = hsize m b" "hfree (set_next m a v) b = hfree m b"
    "hnext (set_next m a v) b = hnext m b"
proof -
  have "b + 4 \<noteq> a + 4"
    using assms by auto
  then show "hfree (set_free m a c) b = hfree m b"
    by (simp add: hfree_def set_free_def)
qed (use assms in \<open>auto simp: hsize_def hfree_def hnext_def set_size_def set_free_def set_next_def
      frame_simps\<close>)

lemma mem_eq_header [frame_simps]:
  assumes "fits a" "unat a + 12 \<le> lo \<or> hi \<le> unat a"
  shows "mem_eq m (set_size m' a v) lo hi = mem_eq m m' lo hi"
    "mem_eq m (set_free m' a b) lo hi = mem_eq m m' lo hi"
    "mem_eq m (set_next m' a v) lo hi = mem_eq m m' lo hi"
  using assms by (auto simp: set_size_def set_free_def set_next_def frame_simps)

lemma header_cong:
  assumes "mem_eq m m' (unat a) (unat a + 12)" "fits a"
  shows "hsize m' a = hsize m a" "hfree m' a = hfree m a" "hnext m' a = hnext m a"
proof -
  show "hsize m' a = hsize m a"
    using load32_cong [OF assms(1), of a] assms(2) by (simp add: hsize_def)
  show "hnext m' a = hnext m a"
    using load32_cong [OF assms(1), of "a + 8"] assms(2) by (simp add: hnext_def)
  show "hfree m' a = hfree m a"
    using mem_eq_byte [OF assms(1), of "a + 4"] assms(2) by (simp add: hfree_def)
qed

section \<open>Block tiling\<close>

fun blocks :: "memory \<Rightarrow> nat \<Rightarrow> u32 list \<Rightarrow> nat \<Rightarrow> bool" where
  "blocks m lo [] hi \<longleftrightarrow> lo \<le> hi"
| "blocks m lo (a # as) hi \<longleftrightarrow>
     lo \<le> unat a \<and> blocks m (unat a + 12 + unat (hsize m a)) as hi"

abbreviation bend :: "memory \<Rightarrow> u32 \<Rightarrow> nat" where
  "bend m a \<equiv> unat a + 12 + unat (hsize m a)"

lemma blocks_le: "blocks m lo as hi \<Longrightarrow> lo \<le> hi"
  by (induction as arbitrary: lo) force+

lemma blocks_mono: "blocks m lo as hi \<Longrightarrow> lo' \<le> lo \<Longrightarrow> hi \<le> hi' \<Longrightarrow> blocks m lo' as hi'"
  by (induction as arbitrary: lo lo') force+

lemma blocks_append:
  "blocks m lo (xs @ ys) hi \<longleftrightarrow> (\<exists>mid. blocks m lo xs mid \<and> blocks m mid ys hi)"
proof (induction xs arbitrary: lo)
  case Nil
  show ?case using blocks_mono [of m _ ys hi lo hi] by auto
next
  case (Cons a xs)
  then show ?case by auto
qed

lemma blocks_split:
  "blocks m lo (xs @ a # ys) hi \<longleftrightarrow> blocks m lo xs (unat a) \<and> blocks m (bend m a) ys hi"
proof -
  have "\<exists>mid. blocks m lo xs mid \<and> mid \<le> unat a" if "blocks m lo xs (unat a)"
    using that by blast
  then show ?thesis
    using blocks_mono [of m lo xs _ lo "unat a"] by (auto simp: blocks_append)
qed

lemma blocks_cong:
  "(\<And>a. a \<in> set as \<Longrightarrow> hsize m' a = hsize m a) \<Longrightarrow> blocks m' lo as hi = blocks m lo as hi"
  by (induction as arbitrary: lo) auto

lemma blocks_bounds: "blocks m lo as hi \<Longrightarrow> a \<in> set as \<Longrightarrow> lo \<le> unat a \<and> bend m a \<le> hi"
proof (induction as arbitrary: lo)
  case (Cons b as)
  then show ?case using blocks_le by fastforce
qed simp

lemma blocks_sorted: "blocks m lo as hi \<Longrightarrow> sorted_wrt (\<lambda>a b. bend m a \<le> unat b) as"
proof (induction as arbitrary: lo)
  case (Cons b as)
  then show ?case using blocks_bounds by fastforce
qed simp

lemma blocks_distinct: "blocks m lo as hi \<Longrightarrow> distinct as"
proof (induction as arbitrary: lo)
  case (Cons b as)
  then show ?case using blocks_bounds by fastforce
qed simp

lemma blocks_sep:
  assumes "blocks m lo as hi" "a \<in> set as" "b \<in> set as" "a \<noteq> b"
  shows "bend m a \<le> unat b \<or> bend m b \<le> unat a"
  using assms
proof (induction as arbitrary: lo)
  case (Cons c as)
  then show ?case using blocks_bounds by fastforce
qed simp

section \<open>List segments\<close>

fun flseg :: "memory \<Rightarrow> u32 \<Rightarrow> u32 list \<Rightarrow> u32 \<Rightarrow> bool" where
  "flseg m p [] q \<longleftrightarrow> p = q"
| "flseg m p (a # as) q \<longleftrightarrow> p = a \<and> a \<noteq> 0 \<and> flseg m (hnext m a) as q"

lemma flseg_append:
  "flseg m p (as @ bs) q \<longleftrightarrow> (\<exists>r. flseg m p as r \<and> flseg m r bs q)"
  by (induction as arbitrary: p) auto

lemma flseg_snoc:
  "flseg m p (as @ [a]) q \<longleftrightarrow> flseg m p as a \<and> a \<noteq> 0 \<and> hnext m a = q"
  by (auto simp: flseg_append)

lemma flseg_cong:
  "(\<And>a. a \<in> set as \<Longrightarrow> hnext m' a = hnext m a) \<Longrightarrow> flseg m' p as q = flseg m p as q"
  by (induction as arbitrary: p) auto

definition head_or :: "u32 list \<Rightarrow> u32 \<Rightarrow> u32" where
  "head_or as q = (case as of [] \<Rightarrow> q | a # _ \<Rightarrow> a)"

lemma head_or_simps [simp]: "head_or [] q = q" "head_or (a # as) q = a"
  by (simp_all add: head_or_def)

lemma flseg_head: "flseg m p as q \<Longrightarrow> p = head_or as q"
  by (cases as) auto

lemma find_free_loop_eq:
  "flseg m cur as 0 \<Longrightarrow> find_free_loop m w prev cur =
     Some (last (prev # takeWhile (\<lambda>a. \<not> (hfree m a \<and> w \<le> hsize m a)) as),
           head_or (dropWhile (\<lambda>a. \<not> (hfree m a \<and> w \<le> hsize m a)) as) 0)"
  by (induction as arbitrary: prev cur) (auto simp: find_free_loop.simps)

lemma list_scan_eq:
  "flseg m cur as 0 \<Longrightarrow> list_scan m b prev cur =
     Some (last (prev # takeWhile (\<lambda>a. a < b) as), head_or (dropWhile (\<lambda>a. a < b) as) 0)"
  by (induction as arbitrary: prev cur) (auto simp: list_scan.simps)

section \<open>Invariant\<close>

text \<open>
  \<open>B\<close> lists every header in address order. The lower bound on the heap start holds because the
  kernel's low memory is never part of it; it keeps \<^verbatim>\<open>want_size + hdr_size + 16\<close> from wrapping.
\<close>

definition hinv :: "memory \<Rightarrow> u32 \<Rightarrow> nat \<Rightarrow> u32 list \<Rightarrow> nat \<Rightarrow> bool" where
  "hinv m h lo B hi \<longleftrightarrow> 4096 \<le> lo \<and> hi \<le> 4294967295 \<and> blocks m lo B hi \<and>
     flseg m h (filter (hfree m) B) 0"

definition heap_inv :: "'a heap_st_scheme \<Rightarrow> u32 list \<Rightarrow> bool" where
  "heap_inv s B \<longleftrightarrow> bump_next s \<le> free_ram_end s \<and>
     hinv (ram s) (free_list_head s) (unat (free_ram s)) B (unat (bump_next s))"

text \<open>The blocks in use, and that their headers and payloads are left alone.\<close>

definition live :: "memory \<Rightarrow> u32 list \<Rightarrow> u32 set" where
  "live m B = {b \<in> set B. \<not> hfree m b}"

definition keeps :: "memory \<Rightarrow> memory \<Rightarrow> u32 set \<Rightarrow> bool" where
  "keeps m m' A \<longleftrightarrow> (\<forall>b \<in> A. mem_eq m m' (unat b) (bend m b))"

text \<open>The bytes of the free blocks, headers included, and the pairs of free blocks that touch.\<close>

definition free_bytes :: "memory \<Rightarrow> u32 list \<Rightarrow> nat set" where
  "free_bytes m B = {x. \<exists>c \<in> set B. hfree m c \<and> unat c \<le> x \<and> x < bend m c}"

lemma free_bytes_simps:
  "free_bytes m [] = {}"
  "free_bytes m (c # B) = (if hfree m c then {unat c..<bend m c} else {}) \<union> free_bytes m B"
  "free_bytes m (A @ B) = free_bytes m A \<union> free_bytes m B"
  by (auto simp: free_bytes_def)

lemma free_bytes_cong:
  "(\<And>c. c \<in> set B \<Longrightarrow> hfree m' c = hfree m c \<and> hsize m' c = hsize m c) \<Longrightarrow> free_bytes m' B = free_bytes m B"
  by (simp add: free_bytes_def cong: bex_cong)

definition touching :: "memory \<Rightarrow> u32 list \<Rightarrow> (u32 \<times> u32) set" where
  "touching m B = {(c, d). c \<in> set B \<and> d \<in> set B \<and> hfree m c \<and> hfree m d \<and> unat d = bend m c}"

definition good :: "u32 set \<Rightarrow> bool" where
  "good S \<longleftrightarrow> (\<forall>a \<in> S. fits a) \<and> (\<forall>a \<in> S. \<forall>b \<in> S. a \<noteq> b \<longrightarrow> sep a b)"

lemma header_upd:
  assumes "good S" "a \<in> S" "b \<in> S"
  shows "hsize (set_size m a v) b = (if b = a then v else hsize m b)"
    "hfree (set_size m a v) b = hfree m b" "hnext (set_size m a v) b = hnext m b"
    "hsize (set_free m a c) b = hsize m b"
    "hfree (set_free m a c) b = (if b = a then c else hfree m b)"
    "hnext (set_free m a c) b = hnext m b" "hsize (set_next m a v) b = hsize m b"
    "hfree (set_next m a v) b = hfree m b"
    "hnext (set_next m a v) b = (if b = a then v else hnext m b)"
proof -
  have fits: "fits a" "fits b" and sep: "b \<noteq> a \<Longrightarrow> sep a b"
    using assms unfolding good_def by blast+
  note other = header_other [OF fits sep]
  show "hsize (set_size m a v) b = (if b = a then v else hsize m b)"
    "hfree (set_size m a v) b = hfree m b" "hnext (set_size m a v) b = hnext m b"
    "hsize (set_free m a c) b = hsize m b"
    "hfree (set_free m a c) b = (if b = a then c else hfree m b)"
    "hnext (set_free m a c) b = hnext m b" "hsize (set_next m a v) b = hsize m b"
    "hfree (set_next m a v) b = hfree m b"
    "hnext (set_next m a v) b = (if b = a then v else hnext m b)"
    using fits other by (cases "b = a"; simp)+
qed

lemma blocks_good:
  assumes "blocks m lo B hi" "hi \<le> 4294967295"
  shows "good (set B)"
proof -
  have "fits a" if "a \<in> set B" for a
    using blocks_bounds [OF assms(1) that] assms(2) by linarith
  moreover have "sep a b" if "a \<in> set B" "b \<in> set B" "a \<noteq> b" for a b
    using blocks_sep [OF assms(1) that] by linarith
  ultimately show ?thesis
    unfolding good_def by blast
qed

lemma hinv_good: "hinv m h lo B hi \<Longrightarrow> good (set B)"
  unfolding hinv_def by (blast intro: blocks_good)

lemma hinv_blocks: "hinv m h lo B hi \<Longrightarrow> blocks m lo B hi"
  by (simp add: hinv_def)

lemma hinv_hi: "hinv m h lo B hi \<Longrightarrow> hi \<le> 4294967295"
  by (simp add: hinv_def)

lemma hinv_bounds:
  "hinv m h lo B hi \<Longrightarrow> a \<in> set B \<Longrightarrow> 4096 \<le> unat a \<and> bend m a \<le> 4294967295 \<and> a \<noteq> 0"
  unfolding hinv_def using blocks_bounds [of m lo B hi a] by auto

text \<open>Writes inside a block do not reach the blocks of a set it does not belong to.\<close>

lemma keeps_write:
  assumes "blocks m lo B hi" "hi \<le> 4294967295" "a \<in> set B" "A \<subseteq> set B" "a \<notin> A"
    and "unat a \<le> unat n" "unat n + 12 \<le> bend m a"
  shows "keeps m (set_size m' n v) A = keeps m m' A" "keeps m (set_free m' n c) A = keeps m m' A"
    "keeps m (set_next m' n v) A = keeps m m' A"
proof -
  have "fits n \<and> (unat n + 12 \<le> unat b \<or> bend m b \<le> unat n)" if "b \<in> A" for b
  proof -
    have "b \<in> set B" "a \<noteq> b"
      using assms that by auto
    from blocks_sep [OF assms(1,3) this] show ?thesis
      using assms(2,6,7) blocks_bounds [OF assms(1,3)] by linarith
  qed
  then show "keeps m (set_size m' n v) A = keeps m m' A" "keeps m (set_free m' n c) A = keeps m m' A"
    "keeps m (set_next m' n v) A = keeps m m' A"
    by (simp_all add: keeps_def mem_eq_header)
qed

lemma keeps_memset:
  assumes "blocks m lo B hi" "hi \<le> 4294967295" "a \<in> set B" "A \<subseteq> set B" "a \<notin> A"
    and "unat a \<le> unat p" "unat p + unat n \<le> bend m a"
  shows "keeps m (memset m' p c n) A = keeps m m' A"
proof -
  have "unat p + unat n \<le> 4294967296 \<and> (unat p + unat n \<le> unat b \<or> bend m b \<le> unat p)"
    if "b \<in> A" for b
  proof -
    have "b \<in> set B" "a \<noteq> b"
      using assms that by auto
    from blocks_sep [OF assms(1,3) this] show ?thesis
      using assms(2,6,7) blocks_bounds [OF assms(1,3)] by linarith
  qed
  then show ?thesis
    by (simp add: keeps_def mem_eq_memset)
qed

lemma keeps_refl [simp]: "keeps m m A"
  by (simp add: keeps_def)

lemma keeps_trans:
  assumes "keeps m m1 A" "keeps m1 m2 A" "\<And>b. b \<in> A \<Longrightarrow> hsize m1 b = hsize m b"
  shows "keeps m m2 A"
  unfolding keeps_def
proof
  fix b assume "b \<in> A"
  then have "mem_eq m m1 (unat b) (bend m b)" "mem_eq m1 m2 (unat b) (bend m b)"
    using assms(1,2) assms(3) [of b] unfolding keeps_def by fastforce+
  then show "mem_eq m m2 (unat b) (bend m b)"
    by (rule mem_eq_trans)
qed

section \<open>Changing the free list\<close>

lemma flseg_relink:
  assumes "flseg m h (gs @ [p]) r" "\<And>b. b \<in> set gs \<Longrightarrow> hnext m' b = hnext m b" "hnext m' p = q"
  shows "flseg m' h (gs @ [p]) q"
  using assms flseg_cong [of gs m' m h p] by (simp add: flseg_snoc)

text \<open>
  The C idiom \<^verbatim>\<open>if (prev) prev->next = q; else free_list_head = q;\<close> with \<open>prev\<close> the last
  element of the walked part \<open>fs\<close>.
\<close>

lemma flseg_redirect:
  assumes good: "good S" and S: "set fs \<subseteq> S" "distinct fs"
    and seg: "flseg m h fs r"
    and same: "\<And>b. b \<in> set fs \<Longrightarrow> hnext m' b = hnext m b"
  shows "flseg (if last (0 # fs) \<noteq> 0 then set_next m' (last (0 # fs)) q else m')
    (if last (0 # fs) \<noteq> 0 then h else q) fs q"
proof (cases fs rule: rev_cases)
  case Nil
  then show ?thesis by simp
next
  case (snoc gs p)
  then have p: "p \<noteq> 0" "last (0 # fs) = p"
    using seg by (simp_all add: flseg_snoc)
  have "flseg (set_next m' p q) h (gs @ [p]) q"
  proof (rule flseg_relink)
    show "flseg m h (gs @ [p]) r"
      using seg snoc by simp
    show "hnext (set_next m' p q) p = q"
      using header_upd [OF good, of p p] S snoc by simp
    show "hnext (set_next m' p q) b = hnext m b" if "b \<in> set gs" for b
      using header_upd [OF good, of p b] S snoc that same [of b] by auto
  qed
  then show ?thesis
    using p snoc by simp
qed

lemma takeWhile_split:
  "(\<And>x. x \<in> set xs \<Longrightarrow> P x) \<Longrightarrow> (ys = [] \<or> \<not> P (hd ys)) \<Longrightarrow>
     takeWhile P (xs @ ys) = xs \<and> dropWhile P (xs @ ys) = ys"
  by (cases ys) (auto simp: takeWhile_append2 dropWhile_append2)

lemma last_free_in: "last (0 # filter P xs) \<noteq> 0 \<Longrightarrow> last (0 # filter P xs) \<in> set xs"
  using last_in_set [of "filter P xs"] by (auto split: if_splits)

lemma filter_minus:
  assumes "distinct (xs @ a # ys)" "\<And>b. b \<in> set (xs @ a # ys) \<Longrightarrow> Q b = (b \<noteq> a \<and> P b)"
  shows "filter Q (xs @ a # ys) = filter P xs @ filter P ys"
proof -
  have "filter Q xs = filter P xs" "filter Q ys = filter P ys" "\<not> Q a"
    using assms by (auto intro!: filter_cong)
  then show ?thesis by simp
qed

lemma filter_plus:
  assumes "distinct (xs @ a # ys)" "\<And>b. b \<in> set (xs @ a # ys) \<Longrightarrow> Q b = (b = a \<or> P b)"
  shows "filter Q (xs @ a # ys) = filter P xs @ a # filter P ys"
proof -
  have "filter Q xs = filter P xs" "filter Q ys = filter P ys" "Q a"
    using assms by (auto intro!: filter_cong)
  then show ?thesis by simp
qed

lemma flseg_transfer:
  "flseg m p as q \<Longrightarrow> (\<And>a. a \<in> set as \<Longrightarrow> hnext m' a = hnext m a) \<Longrightarrow> flseg m' p as q"
  by (induction as arbitrary: p) auto

lemma blocks_transfer:
  "blocks m lo as hi \<Longrightarrow> (\<And>a. a \<in> set as \<Longrightarrow> hsize m' a = hsize m a) \<Longrightarrow> blocks m' lo as hi"
  by (induction as arbitrary: lo) auto

lemma keeps_header:
  assumes "blocks m lo B hi" "hi \<le> 4294967295" "a \<in> set B" "A \<subseteq> set B" "a \<notin> A"
  shows "keeps m (set_size m' a v) A = keeps m m' A" "keeps m (set_free m' a c) A = keeps m m' A"
    "keeps m (set_next m' a v) A = keeps m m' A"
  using keeps_write [OF assms] by simp_all

lemma hinv_split:
  assumes "hinv m h lo (xs @ a # ys) hi" "hfree m a"
  shows "flseg m h (filter (hfree m) xs) a" "flseg m (hnext m a) (filter (hfree m) ys) 0"
  using assms by (auto simp: hinv_def flseg_append)

lemma hinv_distinct: "hinv m h lo B hi \<Longrightarrow> distinct B"
  unfolding hinv_def using blocks_distinct by blast

text \<open>Taking the free block \<open>a\<close> off the list, as \<^verbatim>\<open>find_free_block_and_remove\<close> does.\<close>

lemma unlink_inv:
  fixes m h xs a
  defines "p \<equiv> last (0 # filter (hfree m) xs)"
  defines "m1 \<equiv> (if p \<noteq> 0 then set_next m p (hnext m a) else m)"
    and "h1 \<equiv> (if p \<noteq> 0 then h else hnext m a)"
  defines "m2 \<equiv> set_free (set_next m1 a 0) a False"
  assumes inv: "hinv m h lo (xs @ a # ys) hi" and fr: "hfree m a"
  shows "hinv m2 h1 lo (xs @ a # ys) hi"
    and "\<And>b. b \<in> set (xs @ a # ys) \<Longrightarrow> hsize m2 b = hsize m b \<and> hfree m2 b = (b \<noteq> a \<and> hfree m b)"
    and "keeps m m2 (live m (xs @ a # ys))"
proof -
  let ?B = "xs @ a # ys" and ?fx = "filter (hfree m) xs" and ?fy = "filter (hfree m) ys"
  note g = hinv_good [OF inv] and d = hinv_distinct [OF inv]
  have p: "p \<in> set xs \<and> hfree m p" if "p \<noteq> 0"
    using that last_in_set [of ?fx] unfolding p_def by (auto split: if_splits)
  have pB: "p \<in> set ?B" if "p \<noteq> 0"
    using p that by simp
  have aB: "a \<in> set ?B"
    by simp
  note upd = header_upd [OF g]
  have m2: "hsize m2 b = hsize m b \<and> hfree m2 b = (b \<noteq> a \<and> hfree m b) \<and>
      hnext m2 b = (if b = a then 0 else hnext m1 b)" if "b \<in> set ?B" for b
    using that pB aB by (auto simp: m2_def m1_def upd simp del: set_append)
  have m2n: "hnext m2 b = hnext m1 b" if "b \<in> set xs \<or> b \<in> set ys" for b
    using m2 [of b] that d by auto
  from m2 show "\<And>b. b \<in> set ?B \<Longrightarrow> hsize m2 b = hsize m b \<and> hfree m2 b = (b \<noteq> a \<and> hfree m b)"
    by blast
  have m1y: "hnext m1 b = hnext m b" if "b \<in> set ys" for b
    using that p d pB upd [of p b] by (auto simp: m1_def)
  have fil: "filter (hfree m2) ?B = ?fx @ ?fy"
    using m2 by (intro filter_minus [OF d]) blast
  have "flseg m1 h1 ?fx (hnext m a)"
    unfolding m1_def h1_def p_def
    by (rule flseg_redirect [OF g _ _ hinv_split(1) [OF inv fr]]) (use d in auto)
  then have "flseg m2 h1 ?fx (hnext m a)"
    by (rule flseg_transfer) (use m2n d in simp)
  moreover have "flseg m2 (hnext m a) ?fy 0"
    by (rule flseg_transfer [OF hinv_split(2) [OF inv fr]]) (use m2n m1y d in simp)
  ultimately have "flseg m2 h1 (filter (hfree m2) ?B) 0"
    unfolding fil by (auto simp: flseg_append)
  moreover have "blocks m2 lo ?B hi"
    using inv m2 unfolding hinv_def by (blast intro: blocks_transfer)
  ultimately show "hinv m2 h1 lo ?B hi"
    using inv by (simp add: hinv_def)
  have "live m ?B \<subseteq> set ?B" "a \<notin> live m ?B" "p \<noteq> 0 \<Longrightarrow> p \<notin> live m ?B"
    using fr p by (auto simp: live_def)
  then show "keeps m m2 (live m ?B)"
    using pB aB by (cases "p = 0") (simp_all add: m2_def m1_def keeps_header [OF hinv_blocks [OF inv] hinv_hi [OF inv]] del: set_append)
qed

lemma list_scan_at:
  assumes bl: "blocks m lo (xs @ a # ys) hi"
  shows "takeWhile (\<lambda>b. b < a) (filter P xs @ filter P ys) = filter P xs"
    and "dropWhile (\<lambda>b. b < a) (filter P xs @ filter P ys) = filter P ys"
proof -
  have xa: "b < a" if "b \<in> set xs" for b
    using bl that blocks_bounds [of m lo xs "unat a" b] by (auto simp: blocks_split u32_less)
  have ya: "a < b" if "b \<in> set ys" for b
    using bl that blocks_bounds [of m "bend m a" ys hi b] by (auto simp: blocks_split u32_less)
  have "takeWhile (\<lambda>b. b < a) (filter P xs @ filter P ys) = filter P xs \<and>
      dropWhile (\<lambda>b. b < a) (filter P xs @ filter P ys) = filter P ys"
    by (rule takeWhile_split) (use xa ya hd_in_set [of "filter P ys"] in \<open>auto dest: order_less_asym\<close>)
  then show "takeWhile (\<lambda>b. b < a) (filter P xs @ filter P ys) = filter P xs"
    "dropWhile (\<lambda>b. b < a) (filter P xs @ filter P ys) = filter P ys"
    by auto
qed

text \<open>Linking the free block \<open>a\<close> that is not on the list yet at its address.\<close>

lemma link_inv:
  fixes m h xs a ys
  defines "p \<equiv> last (0 # filter (hfree m) xs)" and "c \<equiv> head_or (filter (hfree m) ys) 0"
  defines "m2 \<equiv> set_next m a c"
  defines "m3 \<equiv> (if p \<noteq> 0 then set_next m2 p a else m2)" and "h3 \<equiv> (if p \<noteq> 0 then h else a)"
  assumes bl: "blocks m lo (xs @ a # ys) hi" and lo: "4096 \<le> lo" and hi: "hi \<le> 4294967295"
    and seg: "flseg m h (filter (hfree m) xs @ filter (hfree m) ys) 0" and fr: "hfree m a"
  shows "list_scan m a 0 h = Some (p, c)"
    and "hinv m3 h3 lo (xs @ a # ys) hi"
    and "\<And>b. b \<in> set (xs @ a # ys) \<Longrightarrow> hsize m3 b = hsize m b \<and> hfree m3 b = hfree m b"
    and "keeps m m3 (live m (xs @ a # ys))"
proof -
  let ?B = "xs @ a # ys" and ?fx = "filter (hfree m) xs" and ?fy = "filter (hfree m) ys"
  note g = blocks_good [OF bl hi] and d = blocks_distinct [OF bl]
  have p: "p \<in> set xs \<and> hfree m p" if "p \<noteq> 0"
    using that last_in_set [of ?fx] unfolding p_def by (auto split: if_splits)
  then have pB: "p \<in> set ?B" if "p \<noteq> 0"
    using that by simp
  have aB: "a \<in> set ?B" by simp
  note upd = header_upd [OF g]
  show "list_scan m a 0 h = Some (p, c)"
    using list_scan_at [OF bl, of "hfree m"] list_scan_eq [OF seg, of a 0]
    by (simp add: p_def c_def)
  show same: "\<And>b. b \<in> set ?B \<Longrightarrow> hsize m3 b = hsize m b \<and> hfree m3 b = hfree m b"
    using pB aB by (cases "p = 0") (simp_all add: m3_def m2_def upd del: set_append)
  obtain r where r: "flseg m h ?fx r" "flseg m r ?fy 0"
    using seg by (auto simp: flseg_append)
  have "flseg m3 h3 ?fx a"
    unfolding m3_def h3_def p_def
  proof (rule flseg_redirect [OF g _ _ r(1)])
    show "hnext m2 b = hnext m b" if "b \<in> set ?fx" for b
      using that upd [OF aB, of b] d by (auto simp: m2_def)
  qed (use d in auto)
  moreover have "hnext m3 a = r"
    using pB aB p d flseg_head [OF r(2)] upd [of a a] upd [of p a]
    by (cases "p = 0") (auto simp: m3_def m2_def c_def)
  moreover have "flseg m3 r ?fy 0"
  proof (rule flseg_transfer [OF r(2)])
    show "hnext m3 b = hnext m b" if "b \<in> set ?fy" for b
      using that pB aB p d upd [of a b] upd [of p b]
      by (cases "p = 0") (auto simp: m3_def m2_def)
  qed
  moreover have "a \<noteq> 0"
    using blocks_bounds [OF bl aB] lo by auto
  moreover have "filter (hfree m3) ?B = ?fx @ a # ?fy"
    using same fr by (intro filter_plus [OF d]) blast
  ultimately have "flseg m3 h3 (filter (hfree m3) ?B) 0"
    by (auto simp: flseg_append)
  moreover have "blocks m3 lo ?B hi"
    using same by (blast intro: blocks_transfer [OF bl])
  ultimately show "hinv m3 h3 lo ?B hi"
    using lo hi by (simp add: hinv_def)
  have "live m ?B \<subseteq> set ?B" "a \<notin> live m ?B" "p \<noteq> 0 \<Longrightarrow> p \<notin> live m ?B"
    using fr p by (auto simp: live_def)
  then show "keeps m m3 (live m ?B)"
    using pB aB by (cases "p = 0")
      (simp_all add: m3_def m2_def keeps_header [OF bl hi] del: set_append)
qed

lemma blocks_good_insert:
  assumes bl: "blocks m lo B hi" "hi \<le> 4294967295" and a: "a \<in> set B"
    and n: "unat a + 12 \<le> unat n" "unat n + 12 \<le> bend m a"
  shows "good (insert n (set B))"
proof -
  have "sep n b \<and> sep b n" if "b \<in> set B" for b
    using blocks_sep [OF bl(1) a that] n by (cases "b = a") auto
  moreover have "fits n"
    using blocks_bounds [OF bl(1) a] n bl(2) by linarith
  ultimately show ?thesis
    using blocks_good [OF bl] unfolding good_def by blast
qed

lemma live_minus: "live m B - {a} \<subseteq> set B" "a \<notin> live m B - {a}"
  by (auto simp: live_def)

lemma keeps_mono: "A \<subseteq> A' \<Longrightarrow> keeps m m' A' \<Longrightarrow> keeps m m' A"
  by (auto simp: keeps_def)

text \<open>Carving the header \<open>n\<close> out of the tail of the block \<open>a\<close>, as \<^verbatim>\<open>try_split_block\<close> does.\<close>

lemma carve_inv:
  fixes m a want
  defines "n \<equiv> a + 12 + want"
  defines "m1 \<equiv> set_next (set_free (set_size m n (hsize m a - want - 12)) n True) n 0"
  defines "m2 \<equiv> set_size m1 a want"
  assumes inv: "hinv m h lo (xs @ a # ys) hi" and fr: "\<not> hfree m a"
    and big: "unat want + 28 < unat (hsize m a)"
  shows "blocks m2 lo ((xs @ [a]) @ n # ys) hi"
    and "flseg m2 h (filter (hfree m2) (xs @ [a]) @ filter (hfree m2) ys) 0"
    and "\<And>b. b \<in> set (xs @ a # ys) \<Longrightarrow>
      hsize m2 b = (if b = a then want else hsize m b) \<and> hfree m2 b = hfree m b"
    and "hfree m2 n" and "keeps m m2 (live m (xs @ a # ys) - {a})"
proof -
  let ?B = "xs @ a # ys"
  note bl = hinv_blocks [OF inv] hinv_hi [OF inv] and d = hinv_distinct [OF inv]
  have aB: "a \<in> set ?B" by simp
  have n: "unat n = unat a + 12 + unat want"
    using hinv_bounds [OF inv aB] big unfolding n_def by (subst unat_add_u32) auto
  have sz: "unat (hsize m a - want - 12) = unat (hsize m a) - unat want - 12"
    using big by simp
  have "a \<noteq> n"
    using n by auto
  note g = blocks_good_insert [OF bl aB, of n]
  have g: "good (insert n (set ?B))" and nB: "n \<notin> set ?B"
    using g n big \<open>a \<noteq> n\<close> blocks_sep [OF bl(1) aB, of n] by (auto simp del: set_append)
  note upd = header_upd [OF g]
  have m2: "hsize m2 b = (if b = a then want else if b = n then hsize m a - want - 12 else hsize m b) \<and>
      hfree m2 b = (b = n \<or> hfree m b) \<and> (b \<noteq> n \<longrightarrow> hnext m2 b = hnext m b)"
    if "b \<in> insert n (set ?B)" for b
    using that aB nB by (auto simp: m2_def m1_def upd simp del: set_append)
  then show same: "\<And>b. b \<in> set ?B \<Longrightarrow>
      hsize m2 b = (if b = a then want else hsize m b) \<and> hfree m2 b = hfree m b"
    using nB by (metis insertCI)
  from m2 [of n] show "hfree m2 n" by simp
  have "blocks m2 lo xs (unat a)" "blocks m2 (bend m a) ys hi"
    using bl(1) same d by (auto simp: blocks_split intro: blocks_transfer)
  moreover have e: "bend m2 n = bend m a" "bend m2 a = unat n"
    using m2 [of n] same [OF aB] n sz big \<open>a \<noteq> n\<close> by auto
  ultimately show "blocks m2 lo ((xs @ [a]) @ n # ys) hi"
    unfolding blocks_split [of m2 lo "xs @ [a]" n] e(1) by (simp add: blocks_split e(2))
  have "filter (hfree m2) (xs @ [a]) = filter (hfree m) xs" "filter (hfree m2) ys = filter (hfree m) ys"
    using same fr by (auto intro!: filter_cong)
  moreover have "flseg m2 h (filter (hfree m) ?B) 0"
  proof (rule flseg_transfer)
    show "flseg m h (filter (hfree m) ?B) 0"
      using inv by (simp only: hinv_def)
    show "hnext m2 b = hnext m b" if "b \<in> set (filter (hfree m) ?B)" for b
      using m2 [of b] nB that by (cases "b = n") (simp_all del: set_append filter_append)
  qed
  ultimately show "flseg m2 h (filter (hfree m2) (xs @ [a]) @ filter (hfree m2) ys) 0"
    using fr by simp
  show "keeps m m2 (live m ?B - {a})"
    unfolding m2_def m1_def using n big
    by (simp add: keeps_write [OF bl aB live_minus])
qed


lemma try_split_block_inv:
  assumes inv: "hinv (ram s) (free_list_head s) lo (xs @ a # ys) hi" and fr: "\<not> hfree (ram s) a"
    and big: "want \<le> hsize (ram s) a"
  shows "\<exists>s' B'. try_split_block a want s = Some s' \<and>
    s' = s\<lparr>ram := ram s', free_list_head := free_list_head s'\<rparr> \<and>
    hinv (ram s') (free_list_head s') lo B' hi \<and> a \<in> set B' \<and>
    live (ram s') B' = live (ram s) (xs @ a # ys) \<and> want \<le> hsize (ram s') a \<and>
    keeps (ram s) (ram s') (live (ram s) (xs @ a # ys) - {a})"
proof (cases "hsize (ram s) a \<le> want + 12 + 16")
  case True
  with inv big show ?thesis
    by (intro exI [of _ s] exI [of _ "xs @ a # ys"]) (simp add: try_split_block_def)
next
  case False
  let ?m = "ram s" and ?B = "xs @ a # ys" and ?n = "a + 12 + want"
  have "unat want + 28 < 4294967296"
    using hinv_bounds [OF inv, of a] big by (auto simp: u32_le)
  then have b28: "unat want + 28 < unat (hsize ?m a)"
    using False by (simp add: u32_le)
  define m2 where "m2 = set_size (set_next (set_free (set_size ?m ?n
    (hsize ?m a - want - 12)) ?n True) ?n 0) a want"
  note c = carve_inv [OF inv fr b28, folded m2_def]
  have lo: "4096 \<le> lo" using inv by (simp add: hinv_def)
  define p where "p = last (0 # filter (hfree m2) (xs @ [a]))"
  define m3 where "m3 = set_next m2 ?n (head_or (filter (hfree m2) ys) 0)"
  define m4 where "m4 = (if p \<noteq> 0 then set_next m3 p ?n else m3)"
  note l = link_inv [OF c(1) lo hinv_hi [OF inv] c(2) c(4), folded p_def m3_def, folded m4_def]
  let ?s' = "s\<lparr>ram := m4, free_list_head := (if p \<noteq> 0 then free_list_head s else ?n)\<rparr>"
  have "try_split_block a want s = Some ?s'"
    using False l(1) by (simp add: try_split_block_def Let_def m2_def [symmetric] m3_def m4_def)
  moreover have f: "hsize m4 b = (if b = a then want else hsize ?m b) \<and> hfree m4 b = hfree ?m b \<and>
      hsize m4 b = hsize m2 b \<and> hfree m2 b = hfree ?m b"
    if "b \<in> set ?B" for b
    using c(3) [OF that] l(3) [of b] that by auto
  moreover have "live m4 ((xs @ [a]) @ ?n # ys) = live ?m ?B"
    using f l(3) [of ?n] c(4) fr by (auto simp: live_def)
  moreover have "keeps ?m m4 (live ?m ?B - {a})"
  proof (rule keeps_trans [OF c(5)])
    have "live ?m ?B - {a} \<subseteq> live m2 ((xs @ [a]) @ ?n # ys)"
      using f by (auto simp: live_def)
    then show "keeps m2 m4 (live ?m ?B - {a})"
      using l(4) by (rule keeps_mono)
    show "hsize m2 b = hsize ?m b" if "b \<in> live ?m ?B - {a}" for b
      using f [of b] that by (auto simp: live_def)
  qed
  ultimately show ?thesis
    using l(2) f [of a] by (intro exI [of _ ?s'] exI [of _ "(xs @ [a]) @ ?n # ys"]) simp
qed

section \<open>Alignment\<close>

lemma and_not_7: "x AND NOT 7 = push_bit 3 (drop_bit 3 (x :: u32))"
proof -
  have "(7 :: u32) = mask 3"
    by (simp add: mask_eq_exp_minus_1)
  then have "x AND NOT 7 = x AND NOT (mask 3)"
    by simp
  also have "\<dots> = push_bit 3 (drop_bit 3 x)"
    by (rule bit_word_eqI) (auto simp: bit_simps)
  finally show ?thesis .
qed

lemma unat_and_not_7: "unat (x AND NOT 7 :: u32) = unat x div 8 * 8"
proof -
  have "unat (drop_bit 3 x) = unat x div 8"
    by (simp add: drop_bit_eq_div unat_div)
  then have "unat (push_bit 3 (drop_bit 3 x)) = (unat x div 8 * 8) mod 4294967296"
    by (simp add: push_bit_eq_mult unat_word_ariths)
  moreover have "unat x div 8 * 8 < 4294967296"
    using unat_bound_u32 [of x] by linarith
  ultimately show ?thesis
    unfolding and_not_7 by (simp only: mod_less)
qed

lemma unat_align_up:
  assumes "unat x + 7 < 4294967296"
  shows "unat (align_up_uintptr x 8) = (unat x + 7) div 8 * 8"
proof -
  have "unat (x + 7) = unat x + 7"
    using assms by simp
  then show ?thesis
    using unat_and_not_7 [of "x + 7"] by (simp add: align_up_uintptr_def)
qed

lemma align_up_bounds:
  assumes "unat x + 7 < 4294967296"
  shows "unat x \<le> unat (align_up_uintptr x 8)" "unat (align_up_uintptr x 8) < unat x + 8"
  unfolding unat_align_up [OF assms] by linarith+

section \<open>Allocation\<close>

lemma find_free_none:
  assumes inv: "hinv (ram s) (free_list_head s) lo B hi"
    and no: "\<And>b. b \<in> set B \<Longrightarrow> hfree (ram s) b \<Longrightarrow> \<not> want \<le> hsize (ram s) b"
  shows "find_free_block_and_remove want s = Some (0, s)"
proof -
  let ?P = "\<lambda>a. \<not> (hfree (ram s) a \<and> want \<le> hsize (ram s) a)"
  have seg: "flseg (ram s) (free_list_head s) (filter (hfree (ram s)) B) 0"
    using inv by (simp only: hinv_def)
  have "dropWhile ?P (filter (hfree (ram s)) B) = []"
    using no by auto
  with find_free_loop_eq [OF seg, of want 0]
  obtain q where "find_free_loop (ram s) want 0 (free_list_head s) = Some (q, 0)"
    by (simp only: head_or_simps)
  then show ?thesis
    by (simp add: find_free_block_and_remove_def)
qed

lemma find_free_some:
  assumes inv: "hinv (ram s) (free_list_head s) lo (xs @ a # ys) hi"
    and a: "hfree (ram s) a" "want \<le> hsize (ram s) a"
    and no: "\<And>b. b \<in> set xs \<Longrightarrow> \<not> (hfree (ram s) b \<and> want \<le> hsize (ram s) b)"
  shows "\<exists>s'. find_free_block_and_remove want s = Some (a, s') \<and>
    s' = s\<lparr>ram := ram s', free_list_head := free_list_head s'\<rparr> \<and>
    hinv (ram s') (free_list_head s') lo (xs @ a # ys) hi \<and>
    (\<forall>b \<in> set (xs @ a # ys). hsize (ram s') b = hsize (ram s) b \<and>
       hfree (ram s') b = (b \<noteq> a \<and> hfree (ram s) b)) \<and>
    keeps (ram s) (ram s') (live (ram s) (xs @ a # ys))"
proof -
  let ?m = "ram s" and ?h = "free_list_head s"
  let ?P = "\<lambda>a. \<not> (hfree ?m a \<and> want \<le> hsize ?m a)" and ?fx = "filter (hfree ?m) xs"
  define p where "p = last (0 # ?fx)"
  define m1 where "m1 = (if p \<noteq> 0 then set_next ?m p (hnext ?m a) else ?m)"
  define h1 where "h1 = (if p \<noteq> 0 then ?h else hnext ?m a)"
  define m2 where "m2 = set_free (set_next m1 a 0) a False"
  note u = unlink_inv [OF inv a(1), folded p_def, folded m1_def h1_def, folded m2_def]
  have seg: "flseg ?m ?h (?fx @ a # filter (hfree ?m) ys) 0"
    using inv a by (simp add: hinv_def)
  have "takeWhile ?P (?fx @ a # filter (hfree ?m) ys) = ?fx \<and>
      dropWhile ?P (?fx @ a # filter (hfree ?m) ys) = a # filter (hfree ?m) ys"
    by (rule takeWhile_split) (use a no in auto)
  then have loop: "find_free_loop ?m want 0 ?h = Some (p, a)"
    using find_free_loop_eq [OF seg, of want 0] by (simp add: p_def)
  have "a \<noteq> 0"
    using hinv_bounds [OF inv, of a] by simp
  with loop have "find_free_block_and_remove want s = Some (a, s\<lparr>ram := m2, free_list_head := h1\<rparr>)"
    by (simp add: find_free_block_and_remove_def Let_def m1_def h1_def m2_def)
  then show ?thesis
    using u by (intro exI [of _ "s\<lparr>ram := m2, free_list_head := h1\<rparr>"]) simp
qed

text \<open>Only the headers matter to the invariant: clients write payloads freely.\<close>

lemma hinv_headers:
  assumes inv: "hinv m h lo B hi" and eq: "\<And>b. b \<in> set B \<Longrightarrow> mem_eq m m' (unat b) (unat b + 12)"
  shows "hinv m' h lo B hi" "live m' B = live m B"
    and "\<And>b. b \<in> set B \<Longrightarrow> hsize m' b = hsize m b \<and> hfree m' b = hfree m b"
proof -
  have f: "hsize m' b = hsize m b \<and> hfree m' b = hfree m b \<and> hnext m' b = hnext m b"
    if "b \<in> set B" for b
    using header_cong [OF eq [OF that]] hinv_bounds [OF inv that] by simp
  then have "filter (hfree m') B = filter (hfree m) B"
    by (auto intro: filter_cong)
  moreover have "flseg m' h (filter (hfree m) B) 0"
    by (rule flseg_transfer [of m]) (use inv f in \<open>auto simp: hinv_def\<close>)
  moreover have "blocks m' lo B hi"
    by (rule blocks_transfer [of m]) (use inv f in \<open>auto simp: hinv_def\<close>)
  ultimately show "hinv m' h lo B hi"
    using inv by (simp add: hinv_def)
  show "live m' B = live m B"
    using f by (auto simp: live_def)
  show "\<And>b. b \<in> set B \<Longrightarrow> hsize m' b = hsize m b \<and> hfree m' b = hfree m b"
    using f by blast
qed

lemma memset_headers:
  assumes inv: "hinv m h lo B hi" and a: "a \<in> set B"
    and p: "unat a + 12 \<le> unat p" "unat p + unat n \<le> bend m a" and b: "b \<in> set B"
  shows "mem_eq m (memset m p c n) (unat b) (unat b + 12)"
proof -
  have "unat p + unat n \<le> unat b \<or> unat b + 12 \<le> unat p"
    using blocks_sep [OF hinv_blocks [OF inv] a b] p by (cases "a = b") auto
  then show ?thesis
    using hinv_bounds [OF inv a] p by (subst mem_eq_memset) auto
qed

text \<open>What an allocation of \<open>bytes\<close> at payload address \<open>p\<close> does to the heap.\<close>

definition alloc_ok ::
    "'a heap_st_scheme \<Rightarrow> u32 list \<Rightarrow> u32 \<Rightarrow> u32 \<Rightarrow> 'a heap_st_scheme \<Rightarrow> u32 list \<Rightarrow> bool" where
  "alloc_ok s B bytes p s' B' \<longleftrightarrow>
     heap_inv s' B' \<and> free_ram s' = free_ram s \<and> free_ram_end s' = free_ram_end s \<and>
     p - 12 \<notin> live (ram s) B \<and> live (ram s') B' = insert (p - 12) (live (ram s) B) \<and>
     bytes \<le> hsize (ram s') (p - 12) \<and>
     (\<forall>x. unat p \<le> unat x \<and> unat x < unat p + unat bytes \<longrightarrow> ram s' x = 0) \<and>
     keeps (ram s) (ram s') (live (ram s) B)"

lemma memset_zero:
  assumes "unat p + unat n \<le> 4294967296" "unat p \<le> unat x" "unat x < unat p + unat n"
  shows "memset m p c n x = c"
proof -
  have "unat (x - p) < unat n"
    using assms by simp
  then show ?thesis by (simp add: memset_eq)
qed

lemma keeps_hsize: "keeps m m' A \<Longrightarrow> b \<in> A \<Longrightarrow> fits b \<Longrightarrow> hsize m' b = hsize m b"
  by (rule header_cong(1) [OF mem_eq_mono [of m m' "unat b" "bend m b"]]) (auto simp: keeps_def)

text \<open>Clearing the payload of the block \<open>a\<close> completes an allocation.\<close>

lemma clear_payload:
  fixes m2 a w
  defines "m3 \<equiv> memset m2 (a + 12) 0 w"
  assumes h: "hinv m2 h lo B' hi" and a: "a \<in> set B'" and w: "w \<le> hsize m2 a"
    and L: "live m2 B' = insert a L" "a \<notin> L" and k: "keeps m m2 L"
  shows "hinv m3 h lo B' hi" "live m3 B' = insert a L" "w \<le> hsize m3 a"
    "unat (a + 12) \<le> unat x \<Longrightarrow> unat x < unat (a + 12) + unat w \<Longrightarrow> m3 x = 0" "keeps m m3 L"
proof -
  have pa: "unat (a + 12) = unat a + 12" "unat (a + 12) + unat w \<le> bend m2 a"
      "bend m2 a \<le> 4294967295"
    using hinv_bounds [OF h a] w by (auto simp: u32_le)
  have m: "mem_eq m2 m3 (unat b) (unat b + 12)" if "b \<in> set B'" for b
    unfolding m3_def by (rule memset_headers [OF h a]) (use pa that in auto)
  have "hinv m3 h lo B' hi" "live m3 B' = live m2 B'" "hsize m3 a = hsize m2 a"
    using hinv_headers [OF h, of m3] m a by blast+
  then show "hinv m3 h lo B' hi" "live m3 B' = insert a L" "w \<le> hsize m3 a"
    using L w by simp_all
  show "unat (a + 12) \<le> unat x \<Longrightarrow> unat x < unat (a + 12) + unat w \<Longrightarrow> m3 x = 0"
    unfolding m3_def using pa by (intro memset_zero) linarith+
  have sub: "L \<subseteq> set B'"
    using L by (auto simp: live_def)
  have "keeps m2 m3 L"
    using keeps_memset [OF hinv_blocks [OF h] hinv_hi [OF h] a sub L(2), of "a + 12" w m2 0] pa
    by (simp add: m3_def)
  moreover have "hsize m2 b = hsize m b" if "b \<in> L" for b
    using keeps_hsize [OF k that] hinv_bounds [OF h, of b] sub that by auto
  ultimately show "keeps m m3 L"
    using keeps_trans [OF k] by blast
qed

lemma want_size_bounds:
  assumes "unat bytes + 7 < 4294967296"
  shows "bytes \<le> align_up_uintptr bytes 8" "unat (align_up_uintptr bytes 8) < unat bytes + 8"
  using align_up_bounds [OF assms] by (simp_all add: u32_le)

lemma kmalloc_reuse:
  fixes s :: "'a heap_st_scheme"
  assumes inv: "heap_inv s (xs @ a # ys)" and bytes: "bytes \<noteq> 0" "unat bytes + 7 < 4294967296"
    and a: "hfree (ram s) a" "align_up_uintptr bytes 8 \<le> hsize (ram s) a"
    and no: "\<And>b. b \<in> set xs \<Longrightarrow> \<not> (hfree (ram s) b \<and> align_up_uintptr bytes 8 \<le> hsize (ram s) b)"
  shows "\<exists>s' B'. kmalloc bytes s = Some (a + 12, s') \<and> alloc_ok s (xs @ a # ys) bytes (a + 12) s' B'"
proof -
  let ?w = "align_up_uintptr bytes 8" and ?B = "xs @ a # ys" and ?lo = "unat (free_ram s)"
    and ?hi = "unat (bump_next s)"
  have h: "hinv (ram s) (free_list_head s) ?lo ?B ?hi"
    using inv by (simp only: heap_inv_def)
  obtain s1 where f: "find_free_block_and_remove ?w s = Some (a, s1)"
      and s1: "s1 = s\<lparr>ram := ram s1, free_list_head := free_list_head s1\<rparr>"
      and h1: "hinv (ram s1) (free_list_head s1) ?lo ?B ?hi"
      and e1: "\<forall>b \<in> set ?B. hsize (ram s1) b = hsize (ram s) b \<and>
        hfree (ram s1) b = (b \<noteq> a \<and> hfree (ram s) b)"
      and k1: "keeps (ram s) (ram s1) (live (ram s) ?B)"
    using find_free_some [OF h a no] by blast
  have e1a: "hsize (ram s1) a = hsize (ram s) a" "\<not> hfree (ram s1) a"
    using e1 by auto
  obtain s2 B' where t: "try_split_block a ?w s1 = Some s2"
      and s2: "s2 = s1\<lparr>ram := ram s2, free_list_head := free_list_head s2\<rparr>"
      and h2: "hinv (ram s2) (free_list_head s2) ?lo B' ?hi" and aB: "a \<in> set B'"
      and l2: "live (ram s2) B' = live (ram s1) ?B" and w2: "?w \<le> hsize (ram s2) a"
      and k2: "keeps (ram s1) (ram s2) (live (ram s1) ?B - {a})"
    using try_split_block_inv [OF h1, of ?w] e1a a(2) by (simp only:) blast
  let ?s' = "s2\<lparr>ram := memset (ram s2) (a + 12) 0 ?w\<rparr>"
  have la: "live (ram s1) ?B = insert a (live (ram s) ?B)" "a \<notin> live (ram s) ?B"
    using e1 a(1) by (auto simp: live_def)
  have "keeps (ram s) (ram s2) (live (ram s) ?B)"
    by (rule keeps_trans [OF k1]) (use k2 la e1 in \<open>auto simp: live_def\<close>)
  note c = clear_payload [OF h2 aB w2 l2 [unfolded la] la(2) this]
  have "bump_next s \<noteq> 0" "a \<noteq> 0"
    using hinv_bounds [OF h, of a] blocks_bounds [OF hinv_blocks [OF h], of a] by auto
  then have "kmalloc bytes s = Some (a + 12, ?s')"
    using bytes f t by (simp add: kmalloc_def Let_def)
  moreover have "free_ram ?s' = free_ram s" "free_ram_end ?s' = free_ram_end s" "bump_next ?s' = bump_next s"
    by (subst s2, subst s1, simp)+
  moreover have "bytes \<le> ?w"
    using want_size_bounds(1) [OF bytes(2)] .
  ultimately have "alloc_ok s ?B bytes (a + 12) ?s' B'"
    using c inv la unfolding alloc_ok_def heap_inv_def by (auto simp: u32_le)
  with \<open>kmalloc bytes s = _\<close> show ?thesis by blast
qed

lemma bump_header:
  fixes m a w
  defines "m1 \<equiv> set_next (set_free (set_size m a w) a False) a 0"
  assumes inv: "hinv m h lo B hi" and a: "hi \<le> unat a" "unat a + 12 + unat w \<le> 4294967295"
  shows "hinv m1 h lo (B @ [a]) (unat a + 12 + unat w)"
    and "live m1 (B @ [a]) = insert a (live m B)" "a \<notin> live m B" "hsize m1 a = w"
    and "keeps m m1 (live m B)"
proof -
  have fit: "fits a" using a by simp
  have eq: "mem_eq m m1 (unat b) (bend m b)" if "b \<in> set B" for b
    using blocks_bounds [OF hinv_blocks [OF inv] that] a fit by (simp add: m1_def mem_eq_header)
  then have "mem_eq m m1 (unat b) (unat b + 12)" if "b \<in> set B" for b
    using that mem_eq_mono [of m m1 "unat b" "bend m b"] by simp
  note h = hinv_headers [OF inv this]
  have m1a: "hsize m1 a = w" "\<not> hfree m1 a"
    using fit by (simp_all add: m1_def)
  then show "hsize m1 a = w" by simp
  have "blocks m1 lo B (unat a)"
    using blocks_mono [OF hinv_blocks [OF h(1)]] a by simp
  with h(1) m1a a show "hinv m1 h lo (B @ [a]) (unat a + 12 + unat w)"
    by (simp add: hinv_def blocks_split)
  show "live m1 (B @ [a]) = insert a (live m B)"
    using h(2) m1a by (auto simp: live_def)
  show "a \<notin> live m B"
    using blocks_bounds [OF hinv_blocks [OF inv], of a] a by (auto simp: live_def)
  show "keeps m m1 (live m B)"
    using eq by (simp add: keeps_def live_def)
qed

lemma kmalloc_bump:
  fixes s :: "'a heap_st_scheme" and bytes :: u32
  defines "w \<equiv> align_up_uintptr bytes 8" and "a \<equiv> align_up_uintptr (bump_next s) 8"
  assumes inv: "heap_inv s B" and bytes: "bytes \<noteq> 0" "unat (bump_next s) + unat bytes + 28 \<le> 4294967296"
    and no: "\<And>b. b \<in> set B \<Longrightarrow> hfree (ram s) b \<Longrightarrow> \<not> w \<le> hsize (ram s) b"
  shows "if unat (free_ram_end s) < unat a + 12 + unat w then kmalloc bytes s = None
    else \<exists>s' B'. kmalloc bytes s = Some (a + 12, s') \<and> alloc_ok s B bytes (a + 12) s' B'"
proof -
  let ?m = "ram s"
  have h: "hinv ?m (free_list_head s) (unat (free_ram s)) B (unat (bump_next s))"
    using inv by (simp only: heap_inv_def)
  have aw: "unat (bump_next s) \<le> unat a" "unat a < unat (bump_next s) + 8" "bytes \<le> w"
      "unat w < unat bytes + 8"
    using bytes align_up_bounds [of "bump_next s"] want_size_bounds [of bytes]
    unfolding w_def a_def by simp_all
  then have aw': "unat a + 12 + unat w < 4294967295"
    using bytes by linarith
  note aw = aw aw'
  have nb: "unat (a + 12 + w) = unat a + 12 + unat w"
    using aw by simp
  have "bump_next s \<noteq> 0"
    using h blocks_le [OF hinv_blocks [OF h]] by (auto simp: hinv_def)
  with bytes no have k: "kmalloc bytes s = bump_alloc w s"
    using find_free_none [OF h no] by (simp add: kmalloc_def w_def Let_def)
  show ?thesis
  proof (cases "unat (free_ram_end s) < unat a + 12 + unat w")
    case True
    then show ?thesis
      using nb by (simp add: k bump_alloc_def a_def [symmetric] Let_def u32_less)
  next
    case False
    define m1 where "m1 = set_next (set_free (set_size ?m a w) a False) a 0"
    let ?s' = "s\<lparr>bump_next := a + 12 + w, ram := memset m1 (a + 12) 0 w\<rparr>"
    note b = bump_header [OF h aw(1), of w, folded m1_def]
    have b1: "hinv m1 (free_list_head s) (unat (free_ram s)) (B @ [a]) (unat (a + 12 + w))"
      using b(1) aw nb by simp
    note c = clear_payload [OF b1, of a w "live ?m B" ?m]
    have "kmalloc bytes s = Some (a + 12, ?s')"
      using nb False by (simp add: k bump_alloc_def a_def [symmetric] Let_def u32_less m1_def)
    moreover have "alloc_ok s B bytes (a + 12) ?s' (B @ [a])"
      using c b aw nb False by (simp add: alloc_ok_def heap_inv_def u32_le)
    ultimately show ?thesis
      using False by auto
  qed
qed

lemma kmalloc_spec:
  assumes inv: "heap_inv s B" and bytes: "bytes \<noteq> 0"
    and room: "unat (bump_next s) + unat bytes + 28 \<le> 4294967296"
  shows "case kmalloc bytes s of
      None \<Rightarrow> (\<forall>b \<in> set B. hfree (ram s) b \<longrightarrow> hsize (ram s) b < align_up_uintptr bytes 8) \<and>
        unat (free_ram_end s) < unat (align_up_uintptr (bump_next s) 8) + 12 +
          unat (align_up_uintptr bytes 8)
    | Some (p, s') \<Rightarrow> \<exists>B'. alloc_ok s B bytes p s' B'"
proof (cases "\<exists>a \<in> set B. hfree (ram s) a \<and> align_up_uintptr bytes 8 \<le> hsize (ram s) a")
  case True
  then obtain xs a ys where B: "B = xs @ a # ys"
      and a: "hfree (ram s) a" "align_up_uintptr bytes 8 \<le> hsize (ram s) a"
      and no: "\<And>b. b \<in> set xs \<Longrightarrow> \<not> (hfree (ram s) b \<and> align_up_uintptr bytes 8 \<le> hsize (ram s) b)"
    using split_list_first_prop [OF True] by blast
  have "unat bytes + 7 < 4294967296"
    using room by linarith
  from kmalloc_reuse [OF inv [unfolded B] bytes this a no] show ?thesis
    unfolding B by auto
next
  case False
  then have "\<not> align_up_uintptr bytes 8 \<le> hsize (ram s) b" if "b \<in> set B" "hfree (ram s) b" for b
    using that by blast
  from kmalloc_bump [OF inv bytes room this] False show ?thesis
    by (auto split: if_splits option.splits simp: not_le)
qed

section \<open>Release\<close>

lemma blocks_next:
  assumes "blocks m lo (p # ys) hi" "b \<in> set ys" "unat b = bend m p"
  shows "\<exists>zs. ys = b # zs"
proof (cases ys)
  case (Cons y zs)
  have "b \<notin> set zs"
    using assms Cons blocks_bounds [of m "bend m y" zs hi b] by auto
  with assms Cons show ?thesis by auto
qed (use assms in simp)

text \<open>Merging a free block with its list successor, when the two are adjacent.\<close>

lemma merge_inv:
  fixes m p b
  defines "m' \<equiv> set_next (set_size m p (hsize m p + 12 + hsize m b)) p (hnext m b)"
  assumes inv: "hinv m h lo (xs @ p # b # zs) hi" and fr: "hfree m p" "hfree m b"
    and adj: "unat b = bend m p"
  shows "hinv m' h lo (xs @ p # zs) hi" "live m' (xs @ p # zs) = live m (xs @ p # b # zs)"
    "keeps m m' (live m (xs @ p # b # zs))" "hfree m' p"
    "free_bytes m' (xs @ p # zs) = free_bytes m (xs @ p # b # zs)"
    "(c, d) \<in> touching m' (xs @ p # zs) \<Longrightarrow> (if c = p then b else c, d) \<in> touching m (xs @ p # b # zs)"
proof -
  let ?B = "xs @ p # b # zs"
  note bl = hinv_blocks [OF inv] hinv_hi [OF inv] and d = hinv_distinct [OF inv]
  have pB: "p \<in> set ?B" and bB: "b \<in> set ?B" by simp_all
  note upd = header_upd [OF hinv_good [OF inv] pB]
  have f: "hsize m' c = (if c = p then hsize m p + 12 + hsize m b else hsize m c) \<and>
      hfree m' c = hfree m c \<and> hnext m' c = (if c = p then hnext m b else hnext m c)"
    if "c \<in> set ?B" for c
    using that by (simp add: m'_def upd del: set_append)
  have end_p: "bend m' p = bend m b"
    using f [OF pB] adj hinv_bounds [OF inv bB] by simp
  have "blocks m' lo xs (unat p)" "blocks m' (bend m b) zs hi"
    using bl(1) f d by (auto simp: blocks_split intro!: blocks_transfer [of m])
  then have bl': "blocks m' lo (xs @ p # zs) hi"
    by (simp only: blocks_split end_p)
  have "filter (hfree m') xs = filter (hfree m) xs" "filter (hfree m') zs = filter (hfree m) zs"
    using f by (auto intro!: filter_cong)
  then have fil: "filter (hfree m') (xs @ p # zs) = filter (hfree m) xs @ p # filter (hfree m) zs"
    using f fr by simp
  have seg: "flseg m h (filter (hfree m) xs) p" "p \<noteq> 0" "flseg m (hnext m b) (filter (hfree m) zs) 0"
    using inv fr by (auto simp: hinv_def flseg_append)
  have "flseg m' h (filter (hfree m) xs) p" "flseg m' (hnext m b) (filter (hfree m) zs) 0"
    by (rule flseg_transfer [OF seg(1)], use f d in force,
        rule flseg_transfer [OF seg(3)], use f d in force)
  with seg(2) f [OF pB] bl' inv show "hinv m' h lo (xs @ p # zs) hi"
    unfolding hinv_def fil by (auto simp: flseg_append)
  show "live m' (xs @ p # zs) = live m ?B" "hfree m' p"
    using f fr by (auto simp: live_def)
  have "live m ?B \<subseteq> set ?B" "p \<notin> live m ?B"
    using fr by (auto simp: live_def)
  then show "keeps m m' (live m ?B)"
    by (simp add: m'_def keeps_header [OF bl pB] del: set_append)
  have g: "hfree m' c = hfree m c" "bend m' c = (if c = p then bend m b else bend m c)" if "c \<in> set ?B" for c
    using f [OF that] end_p by auto
  have "free_bytes m' xs = free_bytes m xs" "free_bytes m' zs = free_bytes m zs"
    using f d by (auto intro!: free_bytes_cong)
  moreover have "{unat p..<bend m' p} = {unat p..<bend m p} \<union> {unat b..<bend m b}"
    using adj end_p by auto
  ultimately show "free_bytes m' (xs @ p # zs) = free_bytes m ?B"
    using g(1) [OF pB] fr by (simp add: free_bytes_simps Un_assoc)
  show "(if c = p then b else c, d) \<in> touching m ?B" if "(c, d) \<in> touching m' (xs @ p # zs)"
    using that g [of c] g [of d] fr by (auto simp: touching_def)
qed

lemma touching_next:
  assumes inv: "hinv m h lo B hi" and t: "(c, d) \<in> touching m B"
  shows "hnext m c = d" "d = c + 12 + hsize m c" "\<exists>xs zs. B = xs @ c # d # zs"
proof -
  have cd: "c \<in> set B" "d \<in> set B" "hfree m c" "hfree m d" "unat d = bend m c"
    using t by (auto simp: touching_def)
  obtain xs ys where B: "B = xs @ c # ys"
    using cd(1) by (meson split_list)
  have bl: "blocks m lo xs (unat c)" "blocks m (unat c) (c # ys) hi"
    using hinv_blocks [OF inv] unfolding B by (simp_all add: blocks_split)
  have "d \<notin> set xs" "d \<noteq> c"
    using blocks_bounds [OF bl(1), of d] cd(5) by auto
  then obtain zs where ys: "ys = d # zs"
    using blocks_next [OF bl(2) _ cd(5)] cd(2) B by auto
  then show "\<exists>xs zs. B = xs @ c # d # zs"
    using B by blast
  show "hnext m c = d"
    using hinv_split(2) [OF inv [unfolded B] cd(3)] cd(4) by (simp add: ys)
  show "d = c + 12 + hsize m c"
    using cd(5) hinv_bounds [OF inv cd(1)] by (intro word_unat_eq_iff [THEN iffD2]) simp
qed

lemma touching_neq: "(c, c) \<notin> touching m B"
  by (simp add: touching_def)

lemma touching_last:
  assumes inv: "hinv m h lo (xs @ a # ys) hi" and t: "(c, a) \<in> touching m (xs @ a # ys)"
  shows "c = last (0 # filter (hfree m) xs)"
proof -
  obtain us zs where "xs @ a # ys = (us @ [c]) @ a # zs"
    using touching_next(3) [OF inv t] by auto
  moreover have "a \<notin> set xs" "a \<notin> set ys"
    using hinv_distinct [OF inv] by auto
  ultimately have "xs = us @ [c]"
    using append_Cons_eq_iff [of a xs ys "us @ [c]" zs] by auto
  then show ?thesis
    using t by (simp add: touching_def)
qed

lemma coalesce_inv:
  assumes inv: "hinv m h lo B hi" and p: "p \<in> set B" "hfree m p" and n: "hnext m p \<noteq> 0"
    and c: "try_coalesce_adjacent m p (hnext m p) = (ok, m')"
  shows "\<exists>B'. hinv m' h lo B' hi \<and> live m' B' = live m B \<and> keeps m m' (live m B) \<and>
    p \<in> set B' \<and> hfree m' p \<and> (\<not> ok \<longrightarrow> m' = m \<and> B' = B) \<and> (ok \<longrightarrow> hnext m p \<notin> set B') \<and> free_bytes m' B' = free_bytes m B \<and>
    (\<forall>c d. (c, d) \<in> touching m' B' \<longrightarrow> (if c = p then hnext m p else c, d) \<in> touching m B)"
proof (cases "p + 12 + hsize m p = hnext m p")
  case False
  then have "(p, d) \<notin> touching m B" for d
    using touching_next [OF inv, of p d] by auto
  with False show ?thesis
    using assms by (auto simp: try_coalesce_adjacent_def)
next
  case True
  let ?b = "hnext m p"
  obtain xs ys where B: "B = xs @ p # ys"
    using p(1) by (meson split_list)
  have "flseg m ?b (filter (hfree m) ys) 0"
    using hinv_split(2) [OF inv [unfolded B] p(2)] .
  then have b: "?b \<in> set ys" "hfree m ?b"
    using n by (cases "filter (hfree m) ys"; fastforce dest: filter_eq_ConsD)+
  have adj: "unat ?b = bend m p"
    using hinv_bounds [OF inv p(1)] by (subst True [symmetric]) simp
  moreover have "blocks m (unat p) (p # ys) hi"
    using hinv_blocks [OF inv] unfolding B by (simp add: blocks_split)
  ultimately obtain zs where ys: "ys = ?b # zs"
    using blocks_next b(1) by blast
  have "m' = set_next (set_size m p (hsize m p + 12 + hsize m ?b)) p (hnext m ?b)" ok
    using c True by (auto simp: try_coalesce_adjacent_def)
  moreover have "?b \<notin> set (xs @ p # zs)"
    using hinv_distinct [OF inv] unfolding B ys by auto
  ultimately show ?thesis
    using merge_inv [OF inv [unfolded B ys] p(2) b(2) adj] unfolding B ys
    by (intro exI [of _ "xs @ p # zs"]) (simp only: simp_thms list.set_intros Un_iff set_append, simp)
qed


lemma list_scan_pred:
  assumes inv: "hinv m h lo (xs @ a # ys) hi" and fr: "hfree m a"
  shows "\<exists>c. list_scan m a 0 h = Some (last (0 # filter (hfree m) xs), c)"
proof -
  have seg: "flseg m h (filter (hfree m) (xs @ a # ys)) 0"
    using inv by (simp only: hinv_def)
  have "takeWhile (\<lambda>b. b < a) (filter (hfree m) (xs @ a # ys)) = filter (hfree m) xs"
  proof -
    have "b < a" if "b \<in> set xs" for b
      using hinv_blocks [OF inv] that blocks_bounds [of m lo xs "unat a" b]
      by (auto simp: blocks_split u32_less)
    then show ?thesis
      using fr takeWhile_split [of "filter (hfree m) xs" "\<lambda>b. b < a" "a # filter (hfree m) ys"]
      by simp
  qed
  with list_scan_eq [OF seg, of a 0] show ?thesis
    by (simp only:) blast
qed

lemma kfree_merge_prev_inv:
  fixes s xs
  defines "p \<equiv> last (0 # filter (hfree (ram s)) xs)"
  assumes inv: "hinv (ram s) h lo (xs @ a # ys) hi" and h: "h = free_list_head s"
    and fr: "hfree (ram s) a"
  shows "\<exists>blk m1 B1. kfree_merge_prev p a s = Some (blk, m1) \<and> hinv m1 h lo B1 hi \<and>
    live m1 B1 = live (ram s) (xs @ a # ys) \<and> keeps (ram s) m1 (live (ram s) (xs @ a # ys)) \<and>
    blk \<in> set B1 \<and> hfree m1 blk \<and> free_bytes m1 B1 = free_bytes (ram s) (xs @ a # ys) \<and>
    (touching (ram s) (xs @ a # ys) \<subseteq> {(c, d). c = a \<or> d = a} \<longrightarrow> touching m1 B1 \<subseteq> {(c, d). c = blk})"
proof (cases "p = 0")
  case True
  have "touching (ram s) (xs @ a # ys) \<subseteq> {(c, d). d \<noteq> a}"
    using True touching_last [OF inv] hinv_bounds [OF inv, of 0] unfolding p_def by (auto simp: touching_def)
  then have "touching (ram s) (xs @ a # ys) \<subseteq> {(c, d). c = a \<or> d = a} \<longrightarrow> touching (ram s) (xs @ a # ys) \<subseteq> {(c, d). c = a}"
    by blast
  with True show ?thesis
    using inv fr by (intro exI [of _ a] exI [of _ "ram s"] exI [of _ "xs @ a # ys"])
      (simp add: kfree_merge_prev_def)
next
  case False
  let ?m = "ram s" and ?B = "xs @ a # ys"
  obtain c where sc: "list_scan ?m a 0 h = Some (p, c)"
    using list_scan_pred [OF inv fr] unfolding p_def by blast
  have p: "p \<in> set ?B" "hfree ?m p"
    using False last_in_set [of "filter (hfree ?m) xs"] unfolding p_def by (auto split: if_splits)
  have nx: "hnext ?m p = a"
    using hinv_split(1) [OF inv fr] False unfolding p_def
    by (cases "filter (hfree ?m) xs" rule: rev_cases) (auto simp: flseg_snoc)
  have a0: "hnext ?m p \<noteq> 0"
    using nx hinv_bounds [OF inv, of a] by simp
  obtain ok m1 where t: "try_coalesce_adjacent ?m p a = (ok, m1)"
    by fastforce
  from coalesce_inv [OF inv p a0, unfolded nx, OF t]
  obtain B1 where B1: "hinv m1 h lo B1 hi" "live m1 B1 = live ?m ?B" "keeps ?m m1 (live ?m ?B)"
      "p \<in> set B1" "hfree m1 p" "\<not> ok \<longrightarrow> m1 = ?m \<and> B1 = ?B" "ok \<longrightarrow> a \<notin> set B1"
      "free_bytes m1 B1 = free_bytes ?m ?B"
      and T: "\<And>c d. (c, d) \<in> touching m1 B1 \<Longrightarrow> (if c = p then a else c, d) \<in> touching ?m ?B"
    by blast
  define blk where "blk = (if ok then p else a)"
  have "c = blk"
    if S: "touching ?m ?B \<subseteq> {(c, d). c = a \<or> d = a}" and cd: "(c, d) \<in> touching m1 B1" for c d
  proof (cases "c = p")
    case True
    then have "(a, d) \<in> touching ?m ?B" using T [OF cd] by simp
    moreover from this have "d \<noteq> a" using touching_neq by blast
    ultimately show ?thesis using True cd S B1(6) by (auto simp: blk_def)
  next
    case False
    then have t: "(c, d) \<in> touching ?m ?B" using T [OF cd] by simp
    have "d \<noteq> a"
    proof
      assume "d = a"
      with t have "(c, a) \<in> touching ?m ?B" by (simp only:)
      from touching_last [OF inv this] show False using False by (simp only: p_def)
    qed
    then have "c = a" using t S by blast
    moreover have "c \<in> set B1" using cd by (simp add: touching_def)
    ultimately show ?thesis using B1(7) by (auto simp: blk_def)
  qed
  then have "touching ?m ?B \<subseteq> {(c, d). c = a \<or> d = a} \<longrightarrow> touching m1 B1 \<subseteq> {(c, d). c = blk}"
    by blast
  moreover have "blk \<in> set B1" "hfree m1 blk"
    using B1(4-6) fr by (auto simp: blk_def)
  moreover have "kfree_merge_prev p a s = Some (blk, m1)" unfolding blk_def
    using False sc t h by (simp add: kfree_merge_prev_def split: bool.split)
  ultimately show ?thesis
    using B1(1-3,8) by blast
qed

lemma kfree_coalesce_inv:
  fixes s xs
  defines "p \<equiv> last (0 # filter (hfree (ram s)) xs)"
  assumes inv: "hinv (ram s) h lo (xs @ a # ys) hi" and h: "h = free_list_head s"
    and fr: "hfree (ram s) a"
  shows "\<exists>m' B'. kfree_coalesce p a s = Some (s\<lparr>ram := m'\<rparr>) \<and> hinv m' h lo B' hi \<and>
    live m' B' = live (ram s) (xs @ a # ys) \<and> keeps (ram s) m' (live (ram s) (xs @ a # ys)) \<and>
    free_bytes m' B' = free_bytes (ram s) (xs @ a # ys) \<and>
    (touching (ram s) (xs @ a # ys) \<subseteq> {(c, d). c = a \<or> d = a} \<longrightarrow> touching m' B' = {})"
proof -
  let ?m = "ram s" and ?B = "xs @ a # ys"
  obtain blk m1 B1 where E: "kfree_merge_prev p a s = Some (blk, m1)" and i1: "hinv m1 h lo B1 hi"
      and l1: "live m1 B1 = live ?m ?B" and k1: "keeps ?m m1 (live ?m ?B)"
      and b1: "blk \<in> set B1" "hfree m1 blk" and f1: "free_bytes m1 B1 = free_bytes ?m ?B"
      and t1: "touching ?m ?B \<subseteq> {(c, d). c = a \<or> d = a} \<longrightarrow> touching m1 B1 \<subseteq> {(c, d). c = blk}"
    using kfree_merge_prev_inv [OF inv h fr] unfolding p_def by blast
  let ?m2 = "if hnext m1 blk \<noteq> 0 then snd (try_coalesce_adjacent m1 blk (hnext m1 blk)) else m1"
  have n: "(blk, d) \<in> touching m1 B1 \<Longrightarrow> hnext m1 blk = d \<and> d \<noteq> 0 \<and> d \<noteq> blk" for d
    using touching_next(1) [OF i1] hinv_bounds [OF i1, of d] touching_neq by (auto simp: touching_def)
  have "\<exists>B2. hinv ?m2 h lo B2 hi \<and> live ?m2 B2 = live m1 B1 \<and> keeps m1 ?m2 (live m1 B1) \<and> free_bytes ?m2 B2 = free_bytes m1 B1 \<and>
      (touching m1 B1 \<subseteq> {(c, d). c = blk} \<longrightarrow> touching ?m2 B2 = {})"
  proof (cases "hnext m1 blk = 0")
    case True
    then show ?thesis using i1 n by (intro exI [of _ B1]) auto
  next
    case False
    then obtain B2 where "hinv ?m2 h lo B2 hi" "live ?m2 B2 = live m1 B1" "keeps m1 ?m2 (live m1 B1)" "free_bytes ?m2 B2 = free_bytes m1 B1"
        and t: "\<And>c d. (c, d) \<in> touching ?m2 B2 \<Longrightarrow> (if c = blk then hnext m1 blk else c, d) \<in> touching m1 B1"
      using coalesce_inv [OF i1 b1 False, of "fst (try_coalesce_adjacent m1 blk (hnext m1 blk))" ?m2] by auto
    moreover have "touching ?m2 B2 = {}" if "touching m1 B1 \<subseteq> {(c, d). c = blk}"
      using t n that by (fastforce split: if_splits)
    ultimately show ?thesis by blast
  qed
  then obtain B2 where B2: "hinv ?m2 h lo B2 hi" "live ?m2 B2 = live ?m ?B" "keeps m1 ?m2 (live ?m ?B)"
      "free_bytes ?m2 B2 = free_bytes ?m ?B" "touching m1 B1 \<subseteq> {(c, d). c = blk} \<longrightarrow> touching ?m2 B2 = {}"
    using l1 f1 by metis
  have "hsize m1 b = hsize ?m b" if "b \<in> live ?m ?B" for b
    using keeps_hsize [OF k1 that] hinv_bounds [OF inv, of b] that by (simp add: live_def)
  then have "keeps ?m ?m2 (live ?m ?B)"
    by (rule keeps_trans [OF k1 B2(3)])
  moreover have "kfree_coalesce p a s = Some (s\<lparr>ram := ?m2\<rparr>)"
    unfolding kfree_coalesce_def E by simp
  ultimately show ?thesis
    using B2 t1 by blast
qed

lemma free_more:
  assumes "a \<in> set B" and f: "\<And>b. b \<in> set B \<Longrightarrow> hsize m' b = hsize m b \<and> hfree m' b = (b = a \<or> hfree m b)"
  shows "free_bytes m' B = free_bytes m B \<union> {unat a..<bend m a}" "touching m' B \<subseteq> touching m B \<union> {(c, d). c = a \<or> d = a}"
  using assms(1) by (auto simp: free_bytes_def touching_def f)

text \<open>Marking the block \<open>a\<close> free before it is linked.\<close>

lemma mark_free_inv:
  fixes m a
  defines "m1 \<equiv> set_next (set_free m a True) a 0"
  assumes inv: "hinv m h lo (xs @ a # ys) hi" and fr: "\<not> hfree m a"
  shows "blocks m1 lo (xs @ a # ys) hi"
    and "flseg m1 h (filter (hfree m1) xs @ filter (hfree m1) ys) 0" and "hfree m1 a"
    and "live m1 (xs @ a # ys) = live m (xs @ a # ys) - {a}"
    and "keeps m m1 (live m (xs @ a # ys) - {a})"
    and "\<And>b. b \<in> set (xs @ a # ys) \<Longrightarrow> hsize m1 b = hsize m b \<and> hfree m1 b = (b = a \<or> hfree m b)"
proof -
  let ?B = "xs @ a # ys"
  note bl = hinv_blocks [OF inv] hinv_hi [OF inv] and d = hinv_distinct [OF inv]
  have aB: "a \<in> set ?B" by simp
  note upd = header_upd [OF hinv_good [OF inv] aB]
  have f: "hsize m1 b = hsize m b \<and> hfree m1 b = (b = a \<or> hfree m b) \<and> (b \<noteq> a \<longrightarrow> hnext m1 b = hnext m b)"
    if "b \<in> set ?B" for b
    using that by (simp add: m1_def upd del: set_append)
  then show "blocks m1 lo ?B hi"
    by (blast intro: blocks_transfer [OF bl(1)])
  show "hsize m1 b = hsize m b \<and> hfree m1 b = (b = a \<or> hfree m b)" if "b \<in> set ?B" for b
    using f [OF that] by blast
  from f [OF aB] show "hfree m1 a" by simp
  have "filter (hfree m1) xs = filter (hfree m) xs" "filter (hfree m1) ys = filter (hfree m) ys"
    using f d by (auto intro!: filter_cong)
  moreover have "flseg m1 h (filter (hfree m) xs @ filter (hfree m) ys) 0"
  proof (rule flseg_transfer)
    show "flseg m h (filter (hfree m) xs @ filter (hfree m) ys) 0"
      using inv fr by (simp add: hinv_def)
    show "hnext m1 b = hnext m b" if "b \<in> set (filter (hfree m) xs @ filter (hfree m) ys)" for b
      using f [of b] that d by auto
  qed
  ultimately show "flseg m1 h (filter (hfree m1) xs @ filter (hfree m1) ys) 0"
    by simp
  show "live m1 ?B = live m ?B - {a}"
    using f by (auto simp: live_def)
  show "keeps m m1 (live m ?B - {a})"
    unfolding m1_def by (simp add: keeps_header [OF bl aB live_minus])
qed

text \<open>What releasing the block \<open>a\<close> does to the heap.\<close>

definition free_ok :: "'a heap_st_scheme \<Rightarrow> u32 list \<Rightarrow> u32 \<Rightarrow> 'a heap_st_scheme \<Rightarrow> u32 list \<Rightarrow> bool" where
  "free_ok s B a s' B' \<longleftrightarrow>
     heap_inv s' B' \<and> s' = s\<lparr>ram := ram s', free_list_head := free_list_head s'\<rparr> \<and>
     live (ram s') B' = live (ram s) B - {a} \<and> keeps (ram s) (ram s') (live (ram s) B - {a}) \<and>
     free_bytes (ram s') B' = free_bytes (ram s) B \<union> {unat a..<bend (ram s) a} \<and>
     (touching (ram s) B = {} \<longrightarrow> touching (ram s') B' = {})"

lemma kfree_link:
  assumes inv: "heap_inv s (xs @ a # ys)" and fr: "\<not> hfree (ram s) a"
  shows "\<exists>s3. kfree (a + 12) s = kfree_coalesce (last (0 # filter (hfree (ram s3)) xs)) a s3 \<and>
    s3 = s\<lparr>ram := ram s3, free_list_head := free_list_head s3\<rparr> \<and>
    hinv (ram s3) (free_list_head s3) (unat (free_ram s)) (xs @ a # ys) (unat (bump_next s)) \<and>
    hfree (ram s3) a \<and> live (ram s3) (xs @ a # ys) = live (ram s) (xs @ a # ys) - {a} \<and>
    keeps (ram s) (ram s3) (live (ram s) (xs @ a # ys) - {a}) \<and>
    free_bytes (ram s3) (xs @ a # ys) = free_bytes (ram s) (xs @ a # ys) \<union> {unat a..<bend (ram s) a} \<and>
    touching (ram s3) (xs @ a # ys) \<subseteq> touching (ram s) (xs @ a # ys) \<union> {(c, d). c = a \<or> d = a}"
proof -
  let ?m = "ram s" and ?h = "free_list_head s" and ?lo = "unat (free_ram s)" and ?B = "xs @ a # ys"
  have h: "hinv ?m ?h ?lo ?B (unat (bump_next s))"
    using inv by (simp only: heap_inv_def)
  have bnd: "\<not> a < free_ram s" "\<not> free_ram_end s \<le> a" "a + 12 \<noteq> 0"
    using blocks_bounds [OF hinv_blocks [OF h], of a] hinv_bounds [OF h, of a] inv
    by (auto simp: heap_inv_def u32_le u32_less u32_nonzero simp del: unat_gt_0)
  define m1 where "m1 = set_next (set_free ?m a True) a 0"
  note mf = mark_free_inv [OF h fr, folded m1_def]
  define p where "p = last (0 # filter (hfree m1) xs)"
  define m2 where "m2 = set_next m1 a (head_or (filter (hfree m1) ys) 0)"
  define m3 where "m3 = (if p \<noteq> 0 then set_next m2 p a else m2)"
  define s3 where "s3 = s\<lparr>ram := m3, free_list_head := (if p \<noteq> 0 then ?h else a)\<rparr>"
  have lo: "4096 \<le> ?lo"
    using h by (simp add: hinv_def)
  note l = link_inv [OF mf(1) lo hinv_hi [OF h] mf(2,3), folded p_def m2_def, folded m3_def]
  have "filter (hfree m3) xs = filter (hfree m1) xs"
    using l(3) by (auto intro!: filter_cong)
  then have p3m: "last (0 # filter (hfree m3) xs) = p"
    by (simp add: p_def s3_def)
  have "kfree (a + 12) s = kfree_coalesce p a s3"
    using bnd l(1) by (simp add: kfree_def Let_def m1_def [symmetric] m2_def [symmetric] s3_def m3_def)
  moreover have "live m3 ?B = live ?m ?B - {a}"
    unfolding mf(4) [symmetric] using l(3) by (auto simp: live_def)
  moreover have "keeps ?m m3 (live ?m ?B - {a})"
  proof (rule keeps_trans [OF mf(5)])
    show "keeps m1 m3 (live ?m ?B - {a})"
      using l(4) by (simp only: mf(4))
    show "hsize m1 b = hsize ?m b" if "b \<in> live ?m ?B - {a}" for b
      using keeps_hsize [OF mf(5) that] hinv_bounds [OF h, of b] that by (auto simp: live_def)
  qed
  moreover have "free_bytes m3 ?B = free_bytes ?m ?B \<union> {unat a..<bend ?m a}"
      "touching m3 ?B \<subseteq> touching ?m ?B \<union> {(c, d). c = a \<or> d = a}"
    using l(3) mf(6) by (intro free_more; simp)+
  moreover have "hfree m3 a"
    using l(3) [of a] mf(3) by simp
  moreover have "ram s3 = m3" "s3 = s\<lparr>ram := m3, free_list_head := free_list_head s3\<rparr>"
      "hinv m3 (free_list_head s3) ?lo ?B (unat (bump_next s))"
    using l(2) by (simp_all add: s3_def)
  ultimately show ?thesis
    by (intro exI [of _ s3]) (simp only: p3m simp_thms)
qed

lemma kfree_spec:
  assumes inv: "heap_inv s B" and a: "a \<in> live (ram s) B"
  shows "\<exists>s' B'. kfree (a + 12) s = Some s' \<and> free_ok s B a s' B'"
proof -
  obtain xs ys where B: "B = xs @ a # ys" and fr: "\<not> hfree (ram s) a"
    using a by (auto simp: live_def dest: split_list)
  let ?lo = "unat (free_ram s)" and ?hi = "unat (bump_next s)" and ?L = "live (ram s) B - {a}"
  obtain s3 where k: "kfree (a + 12) s = kfree_coalesce (last (0 # filter (hfree (ram s3)) xs)) a s3"
      and s3: "s3 = s\<lparr>ram := ram s3, free_list_head := free_list_head s3\<rparr>"
      and h3: "hinv (ram s3) (free_list_head s3) ?lo (xs @ a # ys) ?hi" and f3: "hfree (ram s3) a"
      and l3: "live (ram s3) B = ?L" and k3: "keeps (ram s) (ram s3) ?L"
      and b3: "free_bytes (ram s3) B = free_bytes (ram s) B \<union> {unat a..<bend (ram s) a}"
      and t3: "touching (ram s3) B \<subseteq> touching (ram s) B \<union> {(c, d). c = a \<or> d = a}"
    using kfree_link [OF inv [unfolded B] fr] unfolding B by blast
  obtain m' B' where m': "kfree (a + 12) s = Some (s3\<lparr>ram := m'\<rparr>)"
      and h': "hinv m' (free_list_head s3) ?lo B' ?hi" and l': "live m' B' = live (ram s3) B"
      and k': "keeps (ram s3) m' (live (ram s3) B)" and b': "free_bytes m' B' = free_bytes (ram s3) B"
      and t': "touching (ram s3) B \<subseteq> {(c, d). c = a \<or> d = a} \<longrightarrow> touching m' B' = {}"
    using kfree_coalesce_inv [OF h3 refl f3] unfolding k B by blast
  have "keeps (ram s) m' ?L"
  proof (rule keeps_trans [OF k3])
    show "keeps (ram s3) m' ?L"
      using k' by (simp only: l3)
    show "hsize (ram s3) b = hsize (ram s) b" if "b \<in> ?L" for b
      using keeps_hsize [OF k3 that] hinv_bounds [OF h3, of b] that by (auto simp: live_def B)
  qed
  moreover have "heap_inv (s3\<lparr>ram := m'\<rparr>) B'"
    using h' inv by (subst s3) (simp add: heap_inv_def)
  moreover have "s3\<lparr>ram := m'\<rparr> = s\<lparr>ram := m', free_list_head := free_list_head s3\<rparr>"
    by (subst s3) simp
  moreover have "touching (ram s) B = {} \<longrightarrow> touching m' B' = {}"
    using t' t3 by blast
  ultimately show ?thesis
    using m' l' l3 b' b3 by (intro exI [of _ "s3\<lparr>ram := m'\<rparr>"] exI [of _ B']) (simp add: free_ok_def)
qed

section \<open>Histories of the heap\<close>

text \<open>
  The states the heap goes through from \<^verbatim>\<open>init_alloc\<close> on, with the set of payload addresses
  handed out and not yet released. Clients allocate, release what they were given, and write
  inside the blocks they hold. The start is the region of one E820 entry below 4 GiB. \<^verbatim>\<open>kmalloc\<close> does
  not test that the end of a new block stays below 4 GiB, so a history admits only requests for which
  it does; \<open>kmalloc_wraps\<close> below is what happens otherwise.
\<close>

inductive heap_reach :: "heap_st \<Rightarrow> u32 set \<Rightarrow> bool" where
  boot: "\<lbrakk>4096 \<le> e_base (es (biggest_index es 0 count 0));
    e_base (es (biggest_index es 0 count 0)) \<le> 0xFFFFFFFF;
    e_length (es (biggest_index es 0 count 0)) \<le> 0xFFFFFFFF - e_base (es (biggest_index es 0 count 0));
    free_list_head s = 0\<rbrakk> \<Longrightarrow> heap_reach (init_alloc count es s) {}"
| alloc: "\<lbrakk>heap_reach s P; kmalloc bytes s = Some (p, s'); bytes \<noteq> 0;
    unat (bump_next s) + unat bytes + 28 \<le> 4294967296\<rbrakk> \<Longrightarrow> heap_reach s' (insert p P)"
| release: "\<lbrakk>heap_reach s P; p \<in> P; kfree p s = Some s'\<rbrakk> \<Longrightarrow> heap_reach s' (P - {p})"
| client: "\<lbrakk>heap_reach s P; p \<in> P; unat p \<le> unat x; unat x < unat p + unat (hsize (ram s) (p - 12))\<rbrakk>
    \<Longrightarrow> heap_reach (s\<lparr>ram := (ram s)(x := v)\<rparr>) P"

lemma init_alloc_inv:
  assumes "4096 \<le> e_base (es (biggest_index es 0 count 0))"
    and "e_base (es (biggest_index es 0 count 0)) \<le> 0xFFFFFFFF"
    and "e_length (es (biggest_index es 0 count 0)) \<le> 0xFFFFFFFF - e_base (es (biggest_index es 0 count 0))"
    and "free_list_head s = 0"
  shows "heap_inv (init_alloc count es s) []"
proof -
  let ?b = "e_base (es (biggest_index es 0 count 0))" and ?l = "e_length (es (biggest_index es 0 count 0))"
  have b: "4096 \<le> unat ?b" "unat ?b \<le> 0xFFFFFFFF"
    using assms(1,2) by (simp_all add: word_le_nat_alt)
  then have "unat (0xFFFFFFFF - ?b) = 0xFFFFFFFF - unat ?b"
    using assms(2) by (simp add: unat_sub)
  then have l: "unat ?b + unat ?l \<le> 0xFFFFFFFF"
    using assms(3) b by (simp add: word_le_nat_alt)
  then have "unat (?b + ?l) = unat ?b + unat ?l"
    by (intro unat_add_small) simp
  then have "unat (ucast ?b :: u32) = unat ?b" "unat (ucast (?b + ?l) :: u32) = unat ?b + unat ?l"
    using b l by (simp_all add: unsigned_ucast_eq take_bit_nat_eq_self)
  with b assms(4) show ?thesis
    by (simp add: heap_inv_def hinv_def init_alloc_def Let_def u32_le)
qed

lemma client_write_inv:
  assumes inv: "heap_inv s B" and a: "a \<in> set B"
    and x: "unat a + 12 \<le> unat x" "unat x < bend (ram s) a"
  shows "heap_inv (s\<lparr>ram := (ram s)(x := v)\<rparr>) B \<and> live ((ram s)(x := v)) B = live (ram s) B"
proof -
  have h: "hinv (ram s) (free_list_head s) (unat (free_ram s)) B (unat (bump_next s))"
    using inv by (simp only: heap_inv_def)
  have "mem_eq (ram s) ((ram s)(x := v)) (unat b) (unat b + 12)" if "b \<in> set B" for b
  proof -
    have "unat x < unat b \<or> unat b + 12 \<le> unat x"
      using blocks_sep [OF hinv_blocks [OF h] a that] x by (cases "a = b") auto
    then show ?thesis by (simp add: mem_eq_upd)
  qed
  from hinv_headers [OF h this] inv show ?thesis
    by (simp add: heap_inv_def)
qed

lemma heap_reach_inv:
  "heap_reach s P \<Longrightarrow> \<exists>B. heap_inv s B \<and> live (ram s) B = (\<lambda>p. p - 12) ` P"
proof (induction rule: heap_reach.induct)
  case (boot es count s)
  then have "heap_inv (init_alloc count es s) []"
    by (rule init_alloc_inv)
  then show ?case
    by (intro exI [of _ "[]"]) (simp add: live_def)
next
  case (alloc s P bytes p s')
  then obtain B where B: "heap_inv s B" "live (ram s) B = (\<lambda>p. p - 12) ` P"
    by blast
  from kmalloc_spec [OF this(1) alloc(3,4)] alloc(2) B(2) show ?case
    by (auto simp: alloc_ok_def)
next
  case (release s P p s')
  then obtain B where B: "heap_inv s B" "live (ram s) B = (\<lambda>p. p - 12) ` P"
    by blast
  then have "p - 12 \<in> live (ram s) B"
    using release by blast
  from kfree_spec [OF B(1) this] release B(2) obtain B'
    where B': "heap_inv s' B'" "live (ram s') B' = (\<lambda>p. p - 12) ` P - {p - 12}"
    by (auto simp: free_ok_def)
  moreover have "(\<lambda>p. p - 12) ` P - {p - 12} = (\<lambda>p. p - 12 :: u32) ` (P - {p})"
    by auto
  ultimately show ?case by auto
next
  case (client s P p x v)
  then obtain B where B: "heap_inv s B" "live (ram s) B = (\<lambda>p. p - 12) ` P"
    by blast
  define a where "a = p - 12"
  then have p: "p = a + 12" by simp
  have a: "a \<in> set B"
    using B(2) client(2) by (auto simp: live_def a_def)
  have "hinv (ram s) (free_list_head s) (unat (free_ram s)) B (unat (bump_next s))"
    using B(1) by (simp only: heap_inv_def)
  from hinv_bounds [OF this a] have "unat p = unat a + 12"
    unfolding p by simp
  then have "unat a + 12 \<le> unat x" "unat x < bend (ram s) a"
    using client(3,4) unfolding a_def [symmetric] by simp_all
  note c = client_write_inv [OF B(1) a this, of v]
  have "ram (s\<lparr>ram := m\<rparr>) = m" for m
    by simp
  with c B(2) show ?case
    by (intro exI [of _ B]) (simp only: simp_thms)
qed

lemma heap_reach_disjoint:
  assumes r: "heap_reach s P" and pq: "p \<in> P" "q \<in> P" "p \<noteq> q"
  shows "unat p + unat (hsize (ram s) (p - 12)) + 12 \<le> unat q \<or>
    unat q + unat (hsize (ram s) (q - 12)) + 12 \<le> unat p"
proof -
  obtain B where B: "heap_inv s B" "live (ram s) B = (\<lambda>p. p - 12) ` P"
    using heap_reach_inv [OF r] by blast
  have h: "hinv (ram s) (free_list_head s) (unat (free_ram s)) B (unat (bump_next s))"
    using B(1) by (simp only: heap_inv_def)
  define a b where ab: "a = p - 12" "b = q - 12"
  have m: "a \<in> set B" "b \<in> set B" "a \<noteq> b"
    using B(2) pq by (auto simp: live_def ab)
  have "p = a + 12" "q = b + 12"
    by (simp_all add: ab)
  then have u: "unat p = unat a + 12" "unat q = unat b + 12"
    using hinv_bounds [OF h m(1)] hinv_bounds [OF h m(2)] by simp_all
  show ?thesis
    using blocks_sep [OF hinv_blocks [OF h] m] u unfolding ab [symmetric] by linarith
qed

section \<open>Copying and the memory map\<close>

lemma memcpy_loop_eq:
  assumes "n \<le> 4294967296" "\<And>i j. i < n \<Longrightarrow> j < n \<Longrightarrow> d + of_nat i \<noteq> s + of_nat j"
  shows "memcpy_loop m d s n = (\<lambda>x. if unat (x - d) < n then m (s + (x - d)) else m x)"
  using assms
proof (induction n arbitrary: m d s)
  case 0
  then show ?case by simp
next
  case (Suc n)
  have ne: "d + 1 + of_nat i \<noteq> s + 1 + of_nat j" if "i < n" "j < n" for i j
    using Suc.prems(2) [of "Suc i" "Suc j"] that by (simp add: ac_simps)
  have d: "s + 1 + of_nat j \<noteq> d" if "j < n" for j
    using Suc.prems(2) [of 0 "Suc j"] that by (simp add: ac_simps)
  have step: "(if unat (x - (d + 1)) < n then (m(d := m s)) (s + 1 + (x - (d + 1)))
      else (m(d := m s)) x) = (if unat (x - d) < Suc n then m (s + (x - d)) else m x)" for x
  proof (cases "x = d")
    case True
    have "unat (- 1 :: u32) = 4294967295"
      by (simp add: unsigned_minus_1_eq_mask mask_eq_exp_minus_1)
    then show ?thesis
      using True Suc.prems(1) by (auto simp: algebra_simps)
  next
    case False
    then have "0 < unat (x - d)"
      by (simp only: unat_gt_0) simp
    then have u: "unat (x - (d + 1)) = unat (x - d) - 1"
      using unat_sub_u32 [of 1 "x - d"] by (simp add: algebra_simps)
    have "s + 1 + (x - (d + 1)) \<noteq> d" if "unat (x - (d + 1)) < n"
      using d [OF that] by simp
    then show ?thesis
      using False u \<open>0 < unat (x - d)\<close> by (auto simp: algebra_simps)
  qed
  have "memcpy_loop (m(d := m s)) (d + 1) (s + 1) n = (\<lambda>x. if unat (x - (d + 1)) < n
      then (m(d := m s)) (s + 1 + (x - (d + 1))) else (m(d := m s)) x)"
    by (rule Suc.IH) (use Suc.prems(1) ne in auto)
  also have "\<dots> = (\<lambda>x. if unat (x - d) < Suc n then m (s + (x - d)) else m x)"
    by (rule ext) (rule step)
  finally show ?case
    by (simp only: memcpy_loop.simps)
qed

lemma biggest_index_spec:
  "let r = biggest_index es i k best in
     e_length (es best) \<le> e_length (es r) \<and>
     (\<forall>j. i \<le> j \<and> j < i + k \<and> e_type (es j) = 1 \<longrightarrow> e_length (es j) \<le> e_length (es r)) \<and>
     (r = best \<or> i \<le> r \<and> r < i + k \<and> e_type (es r) = 1 \<and> e_length (es best) < e_length (es r))"
proof (induction k arbitrary: i best)
  case 0
  then show ?case by (auto simp: Let_def)
next
  case (Suc k)
  define b where "b = (if e_type (es i) = 1 \<and> e_length (es best) < e_length (es i) then i else best)"
  define r where "r = biggest_index es (Suc i) k b"
  have IH: "e_length (es b) \<le> e_length (es r)"
      "\<And>j. Suc i \<le> j \<Longrightarrow> j < Suc i + k \<Longrightarrow> e_type (es j) = 1 \<Longrightarrow> e_length (es j) \<le> e_length (es r)"
      "r = b \<or> Suc i \<le> r \<and> r < Suc i + k \<and> e_type (es r) = 1 \<and> e_length (es b) < e_length (es r)"
    using Suc [of "Suc i" b] unfolding r_def Let_def by auto
  have b: "e_length (es best) \<le> e_length (es b)" "e_type (es i) = 1 \<Longrightarrow> e_length (es i) \<le> e_length (es b)"
      "b = best \<or> b = i \<and> e_type (es i) = 1 \<and> e_length (es best) < e_length (es i)"
    by (auto simp: b_def)
  have "e_length (es j) \<le> e_length (es r)" if "i \<le> j" "j < i + Suc k" "e_type (es j) = 1" for j
    using that IH(1,2) b(2) by (cases "j = i") (auto intro: order_trans)
  moreover have "r = best \<or> i \<le> r \<and> r < i + Suc k \<and> e_type (es r) = 1 \<and> e_length (es best) < e_length (es r)"
    using IH(3) b by (auto intro: le_less_trans)
  ultimately show ?case
    using IH(1) b(1) by (auto simp: Let_def b_def [symmetric] r_def [symmetric] intro: order_trans)
qed

section \<open>Properties\<close>

text \<open>
  C1. \<^verbatim>\<open>kmalloc\<close> on a well-formed heap, for a request that does not wrap the 32-bit address
  space, either hands out a block or stops the CPU. In the first case the payload is zeroed,
  at least as long as asked for, and disjoint from every block in use; these keep header and
  payload, and the heap stays well-formed with exactly one more block in use. It stops only when
  no free block is long enough and the region has no room for another one.
\<close>

theorem kmalloc_correct:
  assumes "heap_inv s B" and "bytes \<noteq> 0"
    and "unat (bump_next s) + unat bytes + 28 \<le> 4294967296"
  shows "case kmalloc bytes s of
      None \<Rightarrow> (\<forall>b \<in> set B. hfree (ram s) b \<longrightarrow> hsize (ram s) b < align_up_uintptr bytes 8) \<and>
        unat (free_ram_end s) < unat (align_up_uintptr (bump_next s) 8) + 12 +
          unat (align_up_uintptr bytes 8)
    | Some (p, s') \<Rightarrow> \<exists>B'.
        heap_inv s' B' \<and> free_ram s' = free_ram s \<and> free_ram_end s' = free_ram_end s \<and>
        p - 12 \<notin> live (ram s) B \<and> live (ram s') B' = insert (p - 12) (live (ram s) B) \<and>
        bytes \<le> hsize (ram s') (p - 12) \<and>
        (\<forall>x. unat p \<le> unat x \<and> unat x < unat p + unat bytes \<longrightarrow> ram s' x = 0) \<and>
        keeps (ram s) (ram s') (live (ram s) B)"
  using kmalloc_spec [OF assms] by (simp only: alloc_ok_def)

definition demo_heap :: heap_st where
  "demo_heap = \<lparr>ram = (\<lambda>_. 0), free_ram = 0x100000, free_ram_end = 0x200000,
     bump_next = 0x100000, free_list_head = 0\<rparr>"

lemma demo_heap_inv: "heap_inv demo_heap []"
  by (simp add: heap_inv_def hinv_def demo_heap_def u32_le)

theorem kmalloc_correct_witness:
  "\<exists>p s' B'. kmalloc 10 demo_heap = Some (p, s') \<and> heap_inv s' B' \<and>
     live (ram s') B' = {p - 12} \<and> 10 \<le> hsize (ram s') (p - 12)"
proof -
  have "unat (bump_next demo_heap) + unat (10 :: u32) + 28 \<le> 4294967296"
    by (simp add: demo_heap_def)
  moreover have "\<not> unat (free_ram_end demo_heap) < unat (align_up_uintptr (bump_next demo_heap) 8) + 12 +
      unat (align_up_uintptr (10 :: u32) 8)"
    by (simp add: demo_heap_def align_up_uintptr_def)
  moreover have "live m [] = {}" for m
    by (simp add: live_def)
  ultimately show ?thesis
    using kmalloc_correct [OF demo_heap_inv, of 10] by (cases "kmalloc 10 demo_heap") auto
qed


text \<open>
  C2. \<^verbatim>\<open>kfree\<close> of a block in use always returns. It takes exactly that block out of use,
  leaves every other block in use alone, byte for byte, and keeps the heap well-formed: the
  blocks do not overlap and the free list visits exactly the free ones in address order. Nothing is
  lost: the bytes of the free blocks are those from before and all those of the released block. The
  neighbours are merged: if no two free blocks touched before, none touch afterwards. The bump
  pointer does not move.
\<close>

theorem kfree_correct:
  assumes "heap_inv s B" and "a \<in> live (ram s) B"
  shows "\<exists>s' B'. kfree (a + 12) s = Some s' \<and> heap_inv s' B' \<and> bump_next s' = bump_next s \<and>
    live (ram s') B' = live (ram s) B - {a} \<and> keeps (ram s) (ram s') (live (ram s) B - {a}) \<and>
    free_bytes (ram s') B' = free_bytes (ram s) B \<union> {unat a..<bend (ram s) a} \<and>
    (touching (ram s) B = {} \<longrightarrow> touching (ram s') B' = {})"
proof -
  obtain s' B' where k: "kfree (a + 12) s = Some s'" "free_ok s B a s' B'"
    using kfree_spec [OF assms] by blast
  moreover from k(2) have "bump_next s' = bump_next s"
    unfolding free_ok_def by (metis heap_st.select_convs(4) heap_st.surjective heap_st.update_convs(1,5))
  ultimately show ?thesis
    by (auto simp: free_ok_def)
qed

lemma hinv_one_block:
  assumes "4096 \<le> lo" "unat a + 12 + unat (hsize m a) \<le> hi" "lo \<le> unat a" "hi \<le> 4294967295"
    "\<not> hfree m a"
  shows "hinv m 0 lo [a] hi"
  using assms by (simp add: hinv_def)

definition demo_used :: heap_st where
  "demo_used = demo_heap\<lparr>bump_next := 0x10001C, ram := set_size (\<lambda>_. 0) 0x100000 16\<rparr>"

lemma demo_used_inv: "heap_inv demo_used [0x100000]" "live (ram demo_used) [0x100000] = {0x100000}"
proof -
  have "hsize (ram demo_used) 0x100000 = 16" "\<not> hfree (ram demo_used) 0x100000"
    by (simp_all add: demo_used_def hfree_def hsize_def load32_def set_size_def store32_def)
  then show "heap_inv demo_used [0x100000]" "live (ram demo_used) [0x100000] = {0x100000}"
    by (auto simp: heap_inv_def live_def demo_used_def demo_heap_def u32_le intro!: hinv_one_block)
qed

theorem kfree_correct_witness:
  "\<exists>s' B'. kfree 0x10000C demo_used = Some s' \<and> heap_inv s' B' \<and> live (ram s') B' = {} \<and>
     0x10001B \<in> free_bytes (ram s') B' \<and> touching (ram s') B' = {}"
proof -
  have "hsize (ram demo_used) 0x100000 = 16"
    by (simp add: demo_used_def hsize_def load32_def set_size_def store32_def)
  then have "0x10001B \<in> free_bytes (ram demo_used) [0x100000] \<union> {unat (0x100000 :: u32)..<bend (ram demo_used) 0x100000}"
    by simp
  moreover have "touching (ram demo_used) [0x100000] = {}"
    using demo_used_inv(2) by (auto simp: touching_def live_def)
  moreover have a: "0x100000 \<in> live (ram demo_used) [0x100000]"
    by (simp add: demo_used_inv)
  moreover have "kfree 0x10000C demo_used = kfree (0x100000 + 12) demo_used" "live (ram demo_used) [0x100000] - {0x100000} = {}"
    by (simp_all add: demo_used_inv)
  ultimately show ?thesis
    using kfree_correct [OF demo_used_inv(1) a] by metis
qed

text \<open>
  C3. Take any sequence of allocations, releases and client writes after \<^verbatim>\<open>init_alloc\<close> in which no request
  would carry the bump pointer past 4 GiB. Two payloads handed out at the same time never overlap, not even
  with each other's headers, and releasing one of them returns.
\<close>

theorem heap_history_safe:
  assumes "heap_reach s P" and "p \<in> P"
  shows "(\<forall>q \<in> P. q \<noteq> p \<longrightarrow> unat p + unat (hsize (ram s) (p - 12)) + 12 \<le> unat q \<or>
      unat q + unat (hsize (ram s) (q - 12)) + 12 \<le> unat p) \<and> (\<exists>s'. kfree p s = Some s')"
proof -
  obtain B where B: "heap_inv s B" "live (ram s) B = (\<lambda>p. p - 12) ` P"
    using heap_reach_inv [OF assms(1)] by blast
  then have "p - 12 \<in> live (ram s) B"
    using assms(2) by blast
  from kfree_spec [OF B(1) this] heap_reach_disjoint [OF assms] show ?thesis
    by auto
qed

text \<open>
  The condition on the requests is needed: the sum of the bump pointer and a large request wraps, the test
  against the end of the heap passes, and the bump pointer ends up below the start of the heap.
\<close>

lemma kmalloc_wraps: "\<exists>p s'. kmalloc 0xFFFFFFF0 demo_heap = Some (p, s') \<and> bump_next s' < free_ram s'"
proof -
  have "kmalloc 0xFFFFFFF0 demo_heap = bump_alloc 0xFFFFFFF0 demo_heap"
    by (simp add: kmalloc_def align_up_uintptr_def find_free_block_and_remove_def find_free_loop.simps demo_heap_def)
  then show ?thesis
    by (simp add: bump_alloc_def align_up_uintptr_def demo_heap_def)
qed

theorem heap_history_safe_witness: "\<exists>s p s'. heap_reach s {p} \<and> kfree p s = Some s'"
proof -
  let ?es = "\<lambda>_. \<lparr>e_base = 0x100000, e_length = 0x100000, e_type = 1, acpi_extended_attributes = 0\<rparr>"
  have "heap_reach (init_alloc 1 ?es demo_heap) {}"
    by (rule heap_reach.boot) (simp_all add: demo_heap_def)
  moreover have "init_alloc 1 ?es demo_heap = demo_heap"
    by (simp add: init_alloc_def demo_heap_def)
  ultimately have r: "heap_reach demo_heap {}"
    by simp
  have room: "unat (bump_next demo_heap) + unat (10 :: u32) + 28 \<le> 4294967296"
    by (simp add: demo_heap_def)
  have "\<not> unat (free_ram_end demo_heap) < unat (align_up_uintptr (bump_next demo_heap) 8) + 12 +
      unat (align_up_uintptr (10 :: u32) 8)"
    by (simp add: demo_heap_def align_up_uintptr_def)
  then obtain p s where "kmalloc 10 demo_heap = Some (p, s)"
    using kmalloc_spec [OF demo_heap_inv _ room] by (cases "kmalloc 10 demo_heap") auto
  from heap_reach.alloc [OF r this _ room] have "heap_reach s {p}"
    by simp
  with heap_history_safe [OF this, of p] show ?thesis
    by blast
qed

text \<open>
  C4. The region \<^verbatim>\<open>init_alloc\<close> chooses is at least as long as every usable (type 1) entry, and
  it is usable exactly when entry 0 is usable or some usable entry is longer than entry 0. So a
  long reserved entry 0 is taken for the heap: its type is never tested.
\<close>

theorem init_alloc_choice:
  "let r = biggest_index es 0 count 0 in
     (\<forall>j < count. e_type (es j) = 1 \<longrightarrow> e_length (es j) \<le> e_length (es r)) \<and>
     (e_type (es r) = 1 \<longleftrightarrow> e_type (es 0) = 1 \<or>
        (\<exists>j < count. e_type (es j) = 1 \<and> e_length (es 0) < e_length (es j)))"
proof -
  let ?r = "biggest_index es 0 count 0"
  have r: "e_length (es 0) \<le> e_length (es ?r)"
      "\<And>j. j < count \<Longrightarrow> e_type (es j) = 1 \<Longrightarrow> e_length (es j) \<le> e_length (es ?r)"
      "?r = 0 \<or> ?r < count \<and> e_type (es ?r) = 1 \<and> e_length (es 0) < e_length (es ?r)"
    using biggest_index_spec [of es 0 count 0] by (auto simp: Let_def)
  then show ?thesis
    unfolding Let_def by (metis leD)
qed

definition demo_map :: "nat \<Rightarrow> e820_entry" where
  "demo_map i = (if i = 0
     then \<lparr>e_base = 0x100000, e_length = 0x200000, e_type = 2, acpi_extended_attributes = 0\<rparr>
     else \<lparr>e_base = 0x400000, e_length = 0x100000, e_type = 1, acpi_extended_attributes = 0\<rparr>)"

theorem init_alloc_choice_witness:
  "e_type (demo_map (biggest_index demo_map 0 2 0)) \<noteq> 1 \<and>
     e_length (demo_map 1) \<le> e_length (demo_map (biggest_index demo_map 0 2 0))"
proof -
  have "\<not> (\<exists>j < 2. e_type (demo_map j) = 1 \<and> e_length (demo_map 0) < e_length (demo_map j))"
    by (simp add: demo_map_def)
  moreover have "e_type (demo_map 0) \<noteq> 1" "e_type (demo_map 1) = 1"
    by (simp_all add: demo_map_def)
  ultimately show ?thesis
    using init_alloc_choice [of demo_map 2] unfolding Let_def by (metis one_less_numeral_iff semiring_norm(76))
qed

text \<open>
  C5. A payload taken from the bump region lies 4 bytes past an 8-byte boundary: the header is
  aligned to 8 and is 12 bytes long, so the returned pointer is never 8-byte aligned. The next block
  that is bumped starts 4 bytes after the end of the first, so \<^verbatim>\<open>try_coalesce_adjacent\<close> never merges the two,
  whatever else has happened to the memory, as long as the first has its size.
\<close>

theorem bump_alignment:
  assumes "unat (bump_next s) + unat bytes + 44 \<le> 4294967296"
    and "bump_alloc (align_up_uintptr bytes 8) s = Some (p, s1)"
    and "bump_next t = bump_next s1" "bump_alloc n t = Some (q, t1)" "hsize m (p - 12) = hsize (ram s1) (p - 12)"
  shows "unat p mod 8 = 4 \<and> unat q = unat p + unat (align_up_uintptr bytes 8) + 16 \<and>
    hsize (ram s1) (p - 12) = align_up_uintptr bytes 8 \<and> try_coalesce_adjacent m (p - 12) (q - 12) = (False, m)"
proof -
  let ?a = "align_up_uintptr (bump_next s) 8" and ?w = "align_up_uintptr bytes 8"
  have b: "unat (bump_next s) + 7 < 4294967296" "unat bytes + 7 < 4294967296"
    using assms(1) by linarith+
  obtain k l where a: "unat ?a = 8 * k" "unat ?w = 8 * l"
    using b by (simp add: unat_align_up)
  have le: "unat ?a + 12 + unat ?w + 16 < 4294967296"
    using align_up_bounds [OF b(1)] align_up_bounds [OF b(2)] assms(1) by linarith
  have p: "p = ?a + 12" "bump_next s1 = ?a + 12 + ?w" "q = align_up_uintptr (bump_next s1) 8 + 12"
    using assms(2-4) by (auto simp: bump_alloc_def Let_def split: if_splits)
  have u: "unat p = 8 * k + 12" "unat (bump_next s1) = 8 * k + 12 + 8 * l"
    using le a by (simp_all add: p)
  then have "unat (align_up_uintptr (bump_next s1) 8) = (8 * k + 12 + 8 * l + 7) div 8 * 8"
    using le a by (subst unat_align_up) simp_all
  also have "\<dots> = 8 * k + 8 * l + 16" by presburger
  finally have n: "unat (align_up_uintptr (bump_next s1) 8) = 8 * k + 8 * l + 16" .
  have q: "unat q = unat p + unat ?w + 16"
    unfolding p(3) using n u a le by simp
  have sz: "hsize (ram s1) (p - 12) = ?w"
  proof -
    have f: "fits ?a" "unat (?a + 12) + unat ?w \<le> 4294967296" using le by simp_all
    have "ram s1 = memset (set_next (set_free (set_size (ram s) ?a ?w) ?a False) ?a 0) (?a + 12) 0 ?w"
      using assms(2) by (auto simp: bump_alloc_def Let_def split: if_splits)
    moreover have "mem_eq m' (memset m' (?a + 12) 0 ?w) (unat ?a) (unat ?a + 12)" for m'
      using f le by (subst mem_eq_memset) simp_all
    from header_cong(1) [OF this f(1)] have "hsize (memset m' (?a + 12) 0 ?w) ?a = hsize m' ?a" for m' .
    ultimately show ?thesis using f(1) p(1) by simp
  qed
  have "p - 12 + 12 + ?w \<noteq> q - 12"
    using n u a le p by (auto dest!: arg_cong [of _ _ unat])
  moreover have "unat p mod 8 = 4" unfolding u by presburger
  ultimately show ?thesis using q sz assms(5) by (simp add: try_coalesce_adjacent_def)
qed

theorem bump_alignment_witness:
  "\<exists>s1 t1. bump_alloc (align_up_uintptr 10 8) demo_heap = Some (0x10000C, s1) \<and> bump_alloc 8 s1 = Some (0x10002C, t1) \<and>
     try_coalesce_adjacent (ram s1) 0x100000 0x100020 = (False, ram s1)"
proof -
  have room: "unat (bump_next demo_heap) + unat (10 :: u32) + 44 \<le> 4294967296"
    by (simp add: demo_heap_def)
  obtain s1 where s1: "bump_alloc (align_up_uintptr 10 8) demo_heap = Some (0x10000C, s1)" "bump_next s1 = 0x10001C" "free_ram_end s1 = 0x200000"
    by (simp add: bump_alloc_def demo_heap_def align_up_uintptr_def)
  obtain t1 where t1: "bump_alloc 8 s1 = Some (0x10002C, t1)"
    using s1(2,3) by (simp add: bump_alloc_def align_up_uintptr_def)
  from bump_alignment [OF room s1(1) refl t1 refl] s1 t1 show ?thesis
    by auto
qed

text \<open>
  C6. \<^verbatim>\<open>memcpy\<close> between ranges that do not overlap copies the source bytes as they were before
  the call and changes nothing else, wrapping at the end of the address space included.
\<close>

theorem memcpy_correct:
  assumes "\<And>i j. i < unat n \<Longrightarrow> j < unat n \<Longrightarrow> dst + of_nat i \<noteq> src + of_nat j"
  shows "memcpy m dst src n x = (if unat (x - dst) < unat n then m (src + (x - dst)) else m x)"
  unfolding memcpy_def by (subst memcpy_loop_eq) (use assms in \<open>simp_all add: less_imp_le\<close>)

theorem memcpy_correct_witness:
  "memcpy (\<lambda>x. ucast x) 0x2000 0x1000 2 0x2001 = 1 \<and> memcpy (\<lambda>x. ucast x) 0x2000 0x1000 2 0x2002 = 2"
proof -
  have ne: "0x2000 + of_nat i \<noteq> (0x1000 :: u32) + of_nat j" if "i < unat (2 :: u32)" "j < unat (2 :: u32)" for i j
  proof -
    have "i = 0 \<or> i = 1" "j = 0 \<or> j = 1"
      using that by auto
    then show ?thesis by auto
  qed
  have m: "memcpy m 0x2000 0x1000 2 x = (if unat (x - 0x2000) < unat (2 :: u32)
      then m (0x1000 + (x - 0x2000)) else m x)" for m x
    by (rule memcpy_correct) (rule ne)
  show ?thesis
    by (simp add: m)
qed

text \<open>What the clients of the allocator use: when it returns, and how far the heap grows.\<close>

lemma kmalloc_returns:
  assumes inv: "heap_inv s B" and n: "n \<noteq> 0" "unat (bump_next s) + unat n + 28 \<le> unat (free_ram_end s)"
  shows "kmalloc n s \<noteq> None"
proof
  assume none: "kmalloc n s = None"
  have u: "unat (bump_next s) + unat n + 28 \<le> 4294967295"
    using n(2) unat_le_u32 [of "free_ram_end s"] by linarith
  then have r: "unat (bump_next s) + unat n + 28 \<le> 4294967296" by linarith
  have "unat (free_ram_end s) < unat (align_up_uintptr (bump_next s) 8) + 12 + unat (align_up_uintptr n 8)"
    using kmalloc_spec [OF inv n(1) r] none by simp
  moreover have "unat (align_up_uintptr (bump_next s) 8) < unat (bump_next s) + 8"
    "unat (align_up_uintptr n 8) < unat n + 8"
    using u by (intro align_up_bounds(2); linarith)+
  ultimately show False using n(2) by linarith
qed

lemma find_free_bump:
  "find_free_block_and_remove w s = Some (a, s') \<Longrightarrow> bump_next s' = bump_next s"
  by (auto simp: find_free_block_and_remove_def Let_def bind_eq_Some_conv split: if_splits)

lemma try_split_bump: "try_split_block a w s = Some s' \<Longrightarrow> bump_next s' = bump_next s"
  by (auto simp: try_split_block_def Let_def bind_eq_Some_conv split: if_splits)

lemma kmalloc_growth:
  assumes inv: "heap_inv s B" and n: "n \<noteq> 0" "unat (bump_next s) + unat n + 28 \<le> 4294967296"
    and k: "kmalloc n s = Some (p, s')"
  shows "unat (bump_next s') \<le> unat (bump_next s) + unat n + 28"
proof -
  let ?a = "align_up_uintptr (bump_next s) 8" and ?w = "align_up_uintptr n 8"
  have "4096 \<le> unat (bump_next s)"
    using inv blocks_le [of "ram s" "unat (free_ram s)" B "unat (bump_next s)"]
    by (simp add: heap_inv_def hinv_def)
  then have b: "bump_next s \<noteq> 0" by auto
  have aw: "unat ?a < unat (bump_next s) + 8" "unat ?w < unat n + 8"
    using n by (intro align_up_bounds(2); linarith)+
  then have "unat (?a + 12 + ?w) = unat ?a + 12 + unat ?w"
    using n(2) by (simp add: unat_word_ariths)
  then have g: "unat (?a + 12 + ?w) \<le> unat (bump_next s) + unat n + 28"
    using aw by linarith
  consider "bump_next s' = bump_next s" | "bump_next s' = ?a + 12 + ?w"
    using k b by (auto simp: kmalloc_def bump_alloc_def Let_def bind_eq_Some_conv
        dest!: find_free_bump try_split_bump split: if_splits)
  then show ?thesis using g by cases simp_all
qed

lemma kmalloc_ptr:
  assumes inv: "heap_inv s B" and n: "n \<noteq> 0" "unat (bump_next s) + unat n + 28 \<le> unat (free_ram_end s)"
  shows "\<exists>p s' B'. kmalloc n s = Some (p, s') \<and> p \<noteq> 0 \<and> p - 12 \<notin> live (ram s) B \<and> heap_inv s' B' \<and>
    live (ram s') B' = insert (p - 12) (live (ram s) B) \<and> free_ram_end s' = free_ram_end s \<and>
    unat (bump_next s') \<le> unat (bump_next s) + unat n + 28 \<and> heap_st.more s' = heap_st.more s"
proof -
  have r: "unat (bump_next s) + unat n + 28 \<le> 4294967296"
    using n(2) unat_le_u32 [of "free_ram_end s"] by linarith
  obtain p s' where k: "kmalloc n s = Some (p, s')"
    using kmalloc_returns [OF inv n] by auto
  then obtain B' where a: "alloc_ok s B n p s' B'"
    using kmalloc_spec [OF inv n(1) r] by auto
  then have "p - 12 \<in> live (ram s') B'" by (simp add: alloc_ok_def)
  then have "p - 12 \<in> set B'" by (simp add: live_def)
  then have "bend (ram s') (p - 12) \<le> 4294967295"
    using a hinv_bounds [of "ram s'" "free_list_head s'" "unat (free_ram s')" B' "unat (bump_next s')"]
    by (auto simp: alloc_ok_def heap_inv_def)
  then have "p \<noteq> 0" by auto
  with a k kmalloc_growth [OF inv n(1) r k] kmalloc_more [OF k] show ?thesis
    by (intro exI [of _ p] exI [of _ s'] exI [of _ B']) (simp add: alloc_ok_def)
qed

section \<open>The allocator as its clients see it\<close>

text \<open>
  \<open>owns s L\<close>: the objects at the addresses \<open>L\<close> are allocated, and no others. A request that fits
  the untouched part of the heap gives a fresh object; what the allocator does not own stays.
\<close>

locale object_allocator =
  fixes alloc :: "u32 \<Rightarrow> 's \<Rightarrow> (u32 \<times> 's) option" and owns :: "'s \<Rightarrow> u32 set \<Rightarrow> bool"
    and room :: "'s \<Rightarrow> nat" and rest :: "'s \<Rightarrow> 'r"
  assumes alloc_fresh: "owns s L \<Longrightarrow> n \<noteq> 0 \<Longrightarrow> unat n + 28 \<le> room s \<Longrightarrow>
    \<exists>p s'. alloc n s = Some (p, s') \<and> p \<noteq> 0 \<and> p \<notin> L \<and> owns s' (insert p L) \<and> rest s' = rest s \<and>
      room s \<le> room s' + unat n + 28"
begin

text \<open>A client that allocates one object for each of a list of sizes, one after the other.\<close>

lemma alloc_many:
  assumes "owns s L" "0 \<notin> set ns" "(\<Sum>n\<leftarrow>ns. unat n + 28) \<le> room s"
  shows "\<exists>ps s'. foldM (\<lambda>n (ps, s). do { (p, s) \<leftarrow> alloc n s; Some (ps @ [p], s) }) ns (qs, s) = Some (qs @ ps, s') \<and>
    length ps = length ns \<and> distinct ps \<and> 0 \<notin> set ps \<and> set ps \<inter> L = {} \<and> owns s' (L \<union> set ps) \<and> rest s' = rest s"
  using assms
proof (induction ns arbitrary: s L qs)
  case (Cons n ns)
  obtain p s1 where p: "alloc n s = Some (p, s1)" "p \<noteq> 0" "p \<notin> L" "owns s1 (insert p L)" "rest s1 = rest s"
      "room s \<le> room s1 + unat n + 28"
    using alloc_fresh [OF Cons.prems(1), of n] Cons.prems(2,3) by auto
  obtain ps s' where ps: "foldM (\<lambda>n (ps, s). do { (p, s) \<leftarrow> alloc n s; Some (ps @ [p], s) }) ns (qs @ [p], s1) =
      Some ((qs @ [p]) @ ps, s')" "length ps = length ns" "distinct ps" "0 \<notin> set ps" "set ps \<inter> insert p L = {}"
      "owns s' (insert p L \<union> set ps)" "rest s' = rest s1"
    using Cons.IH [OF p(4), of "qs @ [p]"] Cons.prems(2,3) p(6) by auto
  show ?case
    using p ps by (intro exI [of _ "p # ps"] exI [of _ s']) auto
qed simp

end

definition owned :: "'a heap_st_scheme \<Rightarrow> u32 set \<Rightarrow> bool" where
  "owned s L \<longleftrightarrow> (\<exists>B. heap_inv s B \<and> live (ram s) B = (\<lambda>p. p - 12) ` L)"

definition heap_room :: "'a heap_st_scheme \<Rightarrow> nat" where
  "heap_room s = unat (free_ram_end s) - unat (bump_next s)"

interpretation kheap: object_allocator kmalloc owned heap_room heap_st.more
proof unfold_locales
  fix s :: "'a heap_st_scheme" and L and n :: u32
  assume o: "owned s L" and n: "n \<noteq> 0" and r: "unat n + 28 \<le> heap_room s"
  then obtain B where B: "heap_inv s B" "live (ram s) B = (\<lambda>p. p - 12) ` L"
    by (auto simp: owned_def)
  have le: "unat (bump_next s) + unat n + 28 \<le> unat (free_ram_end s)"
    using r by (simp add: heap_room_def)
  obtain p s' B' where k: "kmalloc n s = Some (p, s')" "p \<noteq> 0" "p - 12 \<notin> live (ram s) B" "heap_inv s' B'"
      "live (ram s') B' = insert (p - 12) (live (ram s) B)" "free_ram_end s' = free_ram_end s"
      "unat (bump_next s') \<le> unat (bump_next s) + unat n + 28" "heap_st.more s' = heap_st.more s"
    using kmalloc_ptr [OF B(1) n le] by blast
  moreover have "owned s' (insert p L)" using k(4,5) B(2) by (auto simp: owned_def)
  moreover have "p \<notin> L" using k(3) B(2) by auto
  ultimately show "\<exists>p s'. kmalloc n s = Some (p, s') \<and> p \<noteq> 0 \<and> p \<notin> L \<and> owned s' (insert p L) \<and>
      heap_st.more s' = heap_st.more s \<and> heap_room s \<le> heap_room s' + unat n + 28"
    by (auto simp: heap_room_def)
qed

text \<open>Objects can be given back: a client may use one for a while and leave the heap as it was.\<close>

locale temp_allocator = object_allocator alloc owns room rest
  for alloc :: "u32 \<Rightarrow> 's \<Rightarrow> (u32 \<times> 's) option" and owns :: "'s \<Rightarrow> u32 set \<Rightarrow> bool"
    and room :: "'s \<Rightarrow> nat" and rest :: "'s \<Rightarrow> 'r" +
  fixes release :: "u32 \<Rightarrow> 's \<Rightarrow> 's option"
  assumes release_owned: "owns s (insert p L) \<Longrightarrow> p \<notin> L \<Longrightarrow>
    \<exists>s'. release p s = Some s' \<and> owns s' L \<and> rest s' = rest s \<and> room s' = room s"
begin

text \<open>
  A temporary object around an action \<open>act\<close> that keeps the allocated objects: nothing stays allocated.
\<close>

lemma temporary:
  assumes "owns s L" "n \<noteq> 0" "unat n + 28 \<le> room s"
    and act: "\<And>p s1. p \<notin> L \<Longrightarrow> owns s1 (insert p L) \<Longrightarrow> rest s1 = rest s \<Longrightarrow> room s \<le> room s1 + unat n + 28 \<Longrightarrow>
      \<exists>r s2. act s1 = Some (r, s2) \<and> owns s2 (insert p L) \<and> P r s2 \<and> room s1 \<le> room s2 + k"
    and P: "\<And>r s2 s3. P r s2 \<Longrightarrow> rest s3 = rest s2 \<Longrightarrow> P r s3"
  shows "\<exists>p s1 r s2 s3. alloc n s = Some (p, s1) \<and> p \<noteq> 0 \<and> act s1 = Some (r, s2) \<and> release p s2 = Some s3 \<and>
    owns s3 L \<and> P r s3 \<and> room s \<le> room s3 + unat n + 28 + k"
proof -
  obtain p s1 where 1: "alloc n s = Some (p, s1)" "p \<noteq> 0" "p \<notin> L" "owns s1 (insert p L)" "rest s1 = rest s"
      "room s \<le> room s1 + unat n + 28"
    using alloc_fresh [OF assms(1-3)] by blast
  obtain r s2 where 2: "act s1 = Some (r, s2)" "owns s2 (insert p L)" "P r s2" "room s1 \<le> room s2 + k"
    using act [OF 1(3-6)] by blast
  obtain s3 where 3: "release p s2 = Some s3" "owns s3 L" "rest s3 = rest s2" "room s3 = room s2"
    using release_owned [OF 2(2) 1(3)] by blast
  then show ?thesis using 1 2 P [OF 2(3) 3(3)] by (intro exI [of _ p] exI [of _ s1] exI [of _ r] exI [of _ s2] exI [of _ s3]) auto
qed

end

interpretation ktemp: temp_allocator kmalloc owned heap_room heap_st.more kfree
proof unfold_locales
  fix s :: "'a heap_st_scheme" and L and p :: u32
  assume o: "owned s (insert p L)" and p: "p \<notin> L"
  then obtain B where B: "heap_inv s B" "live (ram s) B = (\<lambda>p. p - 12) ` insert p L"
    by (auto simp: owned_def)
  obtain s' B' where k: "kfree (p - 12 + 12) s = Some s'" "free_ok s B (p - 12) s' B'"
    using kfree_spec [OF B(1), of "p - 12"] B(2) by auto
  moreover have "live (ram s') B' = (\<lambda>p. p - 12) ` L" using k(2) B(2) p by (auto simp: free_ok_def)
  moreover obtain m h where "s' = s\<lparr>ram := m, free_list_head := h\<rparr>" using k(2) unfolding free_ok_def by blast
  then have "heap_room s' = heap_room s" by (simp add: heap_room_def)
  ultimately show "\<exists>s'. kfree p s = Some s' \<and> owned s' L \<and> heap_st.more s' = heap_st.more s \<and> heap_room s' = heap_room s"
    using kfree_more [of p s s'] by (auto simp: owned_def free_ok_def)
qed

end
