(* ===== verification/Paging.thy ===== *)
theory Paging
  imports Heap
begin

text \<open>
  Page directories and page tables, \<^verbatim>\<open>stage2/paging.c\<close>. They are built in the kernel heap, in the
  same byte memory as everything else: the kernel runs on identity mappings, so its loads and
  stores through a directory or table address are accesses to physical memory. The control
  registers are fields of the state. \<open>mmu\<close> is what the processor makes of an address: it reads CR0.PG,
  CR3 and CR4.PSE and walks the tables. \<open>translate\<close> is its walk with CR4.PSE set, as \<^verbatim>\<open>paging_init\<close>
  leaves it; the theorems say what the kernel's table updates mean for it.
\<close>

section \<open>State and registers\<close>

record paging_st = heap_st +
  page_directory :: u32
  cr0 :: u32
  cr3 :: u32
  cr4 :: u32

abbreviation (input) PAGE_SIZE :: u32 where "PAGE_SIZE \<equiv> 4096"
abbreviation (input) PAGE_PRESENT :: u32 where "PAGE_PRESENT \<equiv> 0x001"
abbreviation (input) PAGE_WRITABLE :: u32 where "PAGE_WRITABLE \<equiv> 0x002"
abbreviation (input) PAGE_USER :: u32 where "PAGE_USER \<equiv> 0x004"
abbreviation (input) PAGE_SIZE_4MB :: u32 where "PAGE_SIZE_4MB \<equiv> 0x080"

definition load_entry :: "memory \<Rightarrow> u32 \<Rightarrow> u32 \<Rightarrow> u32" where
  "load_entry m table i = load32 m (table + 4 * i)"

definition store_entry :: "u32 \<Rightarrow> u32 \<Rightarrow> u32 \<Rightarrow> memory \<Rightarrow> memory" where
  "store_entry table i v m = store32 m (table + 4 * i) v"

section \<open>Operations\<close>

definition paging_init :: "'a paging_st_scheme \<Rightarrow> 'a paging_st_scheme option" where
  "paging_init s =
     do { (raw, s) \<leftarrow> kmalloc (PAGE_SIZE * 2) s;
          let pd = align_up_uintptr raw PAGE_SIZE;
          let m = fold (\<lambda>i. store_entry pd (of_nat i)
                    (((of_nat i * 0x400000) AND 0xFFC00000) OR PAGE_PRESENT OR PAGE_WRITABLE OR PAGE_SIZE_4MB))
                    [0..<1024] (ram s);
          Some (s\<lparr>page_directory := pd, ram := m, cr4 := cr4 s OR 0x10, cr3 := pd,
                  cr0 := cr0 s OR 0x80000000\<rparr>) }"

definition paging_is_enabled :: "'a paging_st_scheme \<Rightarrow> bool" where
  "paging_is_enabled s \<longleftrightarrow> cr0 s AND 0x80000000 \<noteq> 0"

definition paging_get_directory :: "'a paging_st_scheme \<Rightarrow> u32" where
  "paging_get_directory s = cr3 s"

definition paging_get_kernel_directory :: "'a paging_st_scheme \<Rightarrow> u32" where
  "paging_get_kernel_directory s = page_directory s"

definition alloc_aligned_page :: "'a heap_st_scheme \<Rightarrow> (u32 \<times> 'a heap_st_scheme) option" where
  "alloc_aligned_page s =
     do { (raw, s) \<leftarrow> kmalloc (PAGE_SIZE * 2) s;
          Some (align_up_uintptr raw PAGE_SIZE, s) }"

definition paging_create_directory ::
    "'a paging_st_scheme \<Rightarrow> (u32 \<times> 'a paging_st_scheme) option" where
  "paging_create_directory s =
     do { (dir, s) \<leftarrow> alloc_aligned_page s;
          Some (dir, s\<lparr>ram := memcpy (ram s) dir (page_directory s) PAGE_SIZE\<rparr>) }"

text \<open>The identity table a large page is split into.\<close>

definition split_table :: "u32 \<Rightarrow> u32 \<Rightarrow> memory \<Rightarrow> memory" where
  "split_table table phys_base =
     fold (\<lambda>i. store_entry table (of_nat i)
             ((phys_base + push_bit 12 (of_nat i)) OR PAGE_PRESENT OR PAGE_WRITABLE)) [0..<1024]"

definition paging_map_page ::
    "u32 \<Rightarrow> u32 \<Rightarrow> u32 \<Rightarrow> u32 \<Rightarrow> 'a heap_st_scheme \<Rightarrow> 'a heap_st_scheme option" where
  "paging_map_page pd vaddr paddr flags s =
     (let dir_idx = drop_bit 22 vaddr; table_idx = drop_bit 12 vaddr AND 0x3FF;
          entry = load_entry (ram s) pd dir_idx
      in do { (entry, s) \<leftarrow>
                (if entry AND PAGE_SIZE_4MB \<noteq> 0
                 then do { (table, s) \<leftarrow> alloc_aligned_page s;
                           let m = split_table table (entry AND 0xFFC00000) (ram s);
                           let m = store_entry pd dir_idx
                             ((table AND 0xFFFFF000) OR PAGE_PRESENT OR PAGE_WRITABLE) m;
                           Some (load_entry m pd dir_idx, s\<lparr>ram := m\<rparr>) }
                 else Some (entry, s));
              Some (s\<lparr>ram := store_entry (entry AND 0xFFFFF000) table_idx
                        ((paddr AND 0xFFFFF000) OR flags OR PAGE_PRESENT) (ram s)\<rparr>) })"

text \<open>One iteration of the inner loop of \<^verbatim>\<open>paging_clone_directory\<close>: copy a marked page.\<close>

definition clone_page ::
    "u32 \<Rightarrow> u32 \<Rightarrow> u32 \<Rightarrow> nat \<Rightarrow> 'a heap_st_scheme \<Rightarrow> 'a heap_st_scheme option" where
  "clone_page new_dir dir_idx table i s =
     (let table_idx = of_nat i; pte = load_entry (ram s) table table_idx in
      if pte AND PAGE_PRESENT = 0 \<or> pte AND PAGE_USER = 0 then Some s
      else let vaddr = push_bit 22 dir_idx OR push_bit 12 table_idx
           in do { (new_page, s) \<leftarrow> alloc_aligned_page s;
                   let s = s\<lparr>ram := memcpy (ram s) new_page (pte AND 0xFFFFF000) PAGE_SIZE\<rparr>;
                   paging_map_page new_dir vaddr new_page (pte AND 0xFFF) s })"

definition clone_table ::
    "u32 \<Rightarrow> u32 \<Rightarrow> nat \<Rightarrow> 'a heap_st_scheme \<Rightarrow> 'a heap_st_scheme option" where
  "clone_table new_dir parent i s =
     (let dir_idx = of_nat i; entry = load_entry (ram s) parent dir_idx in
      if entry AND PAGE_PRESENT = 0 \<or> entry AND PAGE_SIZE_4MB \<noteq> 0 then Some s
      else foldM (clone_page new_dir dir_idx (entry AND 0xFFFFF000)) [0..<1024] s)"

definition paging_clone_directory ::
    "u32 \<Rightarrow> 'a paging_st_scheme \<Rightarrow> (u32 \<times> 'a paging_st_scheme) option" where
  "paging_clone_directory parent_pd s =
     do { (new_dir, s) \<leftarrow> paging_create_directory s;
          s \<leftarrow> foldM (clone_table new_dir parent_pd) [0..<1024] s;
          Some (new_dir, s) }"

definition paging_switch :: "u32 \<Rightarrow> 'a paging_st_scheme \<Rightarrow> 'a paging_st_scheme" where
  "paging_switch pd s = s\<lparr>cr3 := pd\<rparr>"

definition free_table :: "u32 \<Rightarrow> memory \<Rightarrow> memory" where
  "free_table table =
     fold (\<lambda>i m. let pte = load_entry m table (of_nat i) in
             if pte AND PAGE_PRESENT = 0 \<or> pte AND PAGE_USER = 0 then m
             else store_entry table (of_nat i) 0 m) [0..<1024]"

definition paging_free_directory :: "u32 \<Rightarrow> 'a paging_st_scheme \<Rightarrow> 'a paging_st_scheme" where
  "paging_free_directory pd s =
     (if pd = 0 \<or> pd = page_directory s then s
      else s\<lparr>ram := fold (\<lambda>i m. let entry = load_entry m pd (of_nat i) in
               if entry AND PAGE_PRESENT = 0 \<or> entry AND PAGE_SIZE_4MB \<noteq> 0 then m
               else let m = free_table (entry AND 0xFFFFF000) m
                    in store_entry pd (of_nat i) (load_entry m (page_directory s) (of_nat i)) m)
             [0..<1024] (ram s)\<rparr>)"

section \<open>The processor's walk\<close>

text \<open>
  Without CR4.PSE the size bit of a directory entry is ignored and the entry always names a table.
\<close>

definition walk :: "bool \<Rightarrow> memory \<Rightarrow> u32 \<Rightarrow> u32 \<Rightarrow> u32 option" where
  "walk pse m pd vaddr =
     (let pde = load_entry m pd (drop_bit 22 vaddr) in
      if pde AND PAGE_PRESENT = 0 then None
      else if pse \<and> pde AND PAGE_SIZE_4MB \<noteq> 0
      then Some ((pde AND 0xFFC00000) OR (vaddr AND 0x3FFFFF))
      else let pte = load_entry m (pde AND 0xFFFFF000) (drop_bit 12 vaddr AND 0x3FF) in
        if pte AND PAGE_PRESENT = 0 then None
        else Some ((pte AND 0xFFFFF000) OR (vaddr AND 0xFFF)))"

abbreviation translate :: "memory \<Rightarrow> u32 \<Rightarrow> u32 \<Rightarrow> u32 option" where
  "translate \<equiv> walk True"

definition mmu :: "'a paging_st_scheme \<Rightarrow> u32 \<Rightarrow> u32 option" where
  "mmu s vaddr =
     (if cr0 s AND 0x80000000 = 0 then Some vaddr
      else walk (cr4 s AND 0x10 \<noteq> 0) (ram s) (cr3 s AND 0xFFFFF000) vaddr)"

section \<open>Words and pages\<close>

lemma unat_drop_bit_u32: "unat (drop_bit n (x :: u32)) = unat x div 2 ^ n"
  unfolding unsigned_drop_bit_eq by (simp add: drop_bit_eq_div take_bit_nat_eq_self)

lemma unat_take_bit_u32: "unat (take_bit n (x :: u32)) = unat x mod 2 ^ n"
proof -
  have "unat (take_bit n x) = take_bit n (unat x)"
    by (rule unsigned_take_bit_eq)
  then show ?thesis
    by (simp only: take_bit_eq_mod)
qed

lemma and_not_mask_eq: "x AND NOT (mask n) = push_bit n (drop_bit n (x :: u32))"
  by (rule bit_word_eqI) (auto simp: bit_simps)

lemma unat_and_not_mask: "unat (x AND NOT (mask n) :: u32) = unat x div 2 ^ n * 2 ^ n"
proof -
  have "unat (push_bit n (drop_bit n x)) = take_bit 32 (push_bit n (unat (drop_bit n x)))"
    by (simp add: unsigned_push_bit_eq)
  also have "\<dots> = (unat x div 2 ^ n * 2 ^ n) mod 2 ^ 32"
    unfolding unat_drop_bit_u32 by (simp add: push_bit_eq_mult take_bit_eq_mod)
  also have "\<dots> = unat x div 2 ^ n * 2 ^ n"
  proof (rule mod_less)
    have "unat x div 2 ^ n * 2 ^ n \<le> unat x"
      by (rule div_times_less_eq_dividend)
    then show "unat x div 2 ^ n * 2 ^ n < 2 ^ 32"
      by (rule le_less_trans) simp
  qed
  finally show ?thesis
    by (simp only: and_not_mask_eq)
qed

lemma page_masks: "(0xFFFFF000 :: u32) = NOT (mask 12)" "(0xFFC00000 :: u32) = NOT (mask 22)"
  "(0x3FFFFF :: u32) = mask 22" "(0xFFF :: u32) = mask 12" "(0x3FF :: u32) = mask 10"
  by (simp_all add: mask_eq_exp_minus_1)

lemma unat_page_base: "unat (x AND 0xFFFFF000 :: u32) = unat x div 4096 * 4096"
  unfolding page_masks(1) unat_and_not_mask by simp

lemma page_base_aligned: "unat x mod 4096 = 0 \<Longrightarrow> x AND 0xFFFFF000 = (x :: u32)"
  by (rule u32_eqI) (simp add: unat_page_base mod_eq_0_iff_dvd)

lemma unat_align_page:
  assumes "unat x + 4095 < 4294967296"
  shows "unat (align_up_uintptr x 4096) = (unat x + 4095) div 4096 * 4096"
proof -
  have "unat (x + 4095) = unat x + 4095"
    using assms by simp
  then show ?thesis
    using unat_and_not_mask [of "x + 4095" 12] by (simp add: align_up_uintptr_def mask_eq_exp_minus_1)
qed


section \<open>Tables in memory\<close>

lemma unat_entry_addr:
  assumes "i < 1024" "unat t + 4096 \<le> 4294967296"
  shows "unat (t + 4 * of_nat i :: u32) = unat t + 4 * i"
proof -
  have "unat (of_nat i :: u32) = i"
    using assms(1) by (simp add: unat_of_nat take_bit_nat_eq_self)
  then have "unat (4 * of_nat i :: u32) = 4 * i"
    using assms(1) by (simp add: unat_word_ariths)
  then show ?thesis
    using assms by simp
qed

lemma load_store_entry:
  assumes "i < 1024" "j < 1024" "unat t + 4096 \<le> 4294967296"
  shows "load_entry (store_entry t (of_nat i) v m) t (of_nat j) =
    (if i = j then v else load_entry m t (of_nat j))"
proof (cases "i = j")
  case False
  then have "unat (t + 4 * of_nat i) + 4 \<le> unat (t + 4 * of_nat j) \<or>
      unat (t + 4 * of_nat j) + 4 \<le> unat (t + 4 * of_nat i)"
    using assms by (auto simp: unat_entry_addr)
  then show ?thesis
    using False assms unat_entry_addr [OF assms(1,3)] unat_entry_addr [OF assms(2,3)]
    by (simp add: load_entry_def store_entry_def load32_store32_other)
qed (simp add: load_entry_def store_entry_def)

lemma mem_eq_store_entry [frame_simps]:
  assumes "i < 1024" "unat t + 4096 \<le> 4294967296" "unat t + 4096 \<le> lo \<or> hi \<le> unat t"
  shows "mem_eq m (store_entry t (of_nat i) v m') lo hi = mem_eq m m' lo hi"
  unfolding store_entry_def
  by (rule mem_eq_store32) (use assms unat_entry_addr [OF assms(1,2)] in auto)

lemma load_entry_cong:
  assumes "mem_eq m m' (unat t) (unat t + 4096)" "i < 1024" "unat t + 4096 \<le> 4294967296"
  shows "load_entry m' t (of_nat i) = load_entry m t (of_nat i)"
  using load32_cong [OF assms(1), of "t + 4 * of_nat i"] unat_entry_addr [OF assms(2,3)] assms(2,3)
  by (simp add: load_entry_def)

lemma fold_store_entry:
  assumes t: "unat t + 4096 \<le> 4294967296" and n: "n \<le> 1024"
  shows "j < 1024 \<Longrightarrow> load_entry (fold (\<lambda>i. store_entry t (of_nat i) (v i)) [0..<n] m) t (of_nat j) =
      (if j < n then v j else load_entry m t (of_nat j))" (is "_ \<Longrightarrow> ?A n")
    and "unat t + 4096 \<le> lo \<or> hi \<le> unat t \<Longrightarrow>
      mem_eq m (fold (\<lambda>i. store_entry t (of_nat i) (v i)) [0..<n] m) lo hi" (is "_ \<Longrightarrow> ?B n")
proof -
  show "?A n" if "j < 1024"
    using n by (induction n) (auto simp: load_store_entry that t)
  show "?B n" if "unat t + 4096 \<le> lo \<or> hi \<le> unat t"
    using n by (induction n) (simp_all add: mem_eq_store_entry that t)
qed

section \<open>Pages in the heap\<close>

text \<open>A page-aligned page inside the payload of the block \<open>b\<close>.\<close>

definition in_block :: "memory \<Rightarrow> u32 \<Rightarrow> u32 \<Rightarrow> bool" where
  "in_block m b a \<longleftrightarrow> unat b + 12 \<le> unat a \<and> unat a + 4096 \<le> bend m b \<and> unat a mod 4096 = 0"

definition page_ok :: "memory \<Rightarrow> u32 set \<Rightarrow> u32 \<Rightarrow> bool" where
  "page_ok m L a \<longleftrightarrow> (\<exists>b \<in> L. in_block m b a)"

lemma alloc_aligned_page_spec:
  assumes inv: "heap_inv s B" and room: "unat (bump_next s) + 8220 \<le> 4294967296"
    and a: "alloc_aligned_page s = Some (page, s')"
  shows "\<exists>B' b. heap_inv s' B' \<and> b \<notin> live (ram s) B \<and> live (ram s') B' = insert b (live (ram s) B) \<and>
    in_block (ram s') b page \<and> keeps (ram s) (ram s') (live (ram s) B) \<and>
    free_ram_end s' = free_ram_end s"
proof -
  obtain raw where k: "kmalloc 8192 s = Some (raw, s')" and page: "page = align_up_uintptr raw 4096"
    using a by (auto simp: alloc_aligned_page_def split: Option.bind_splits)
  obtain B' where B': "alloc_ok s B 8192 raw s' B'"
    using kmalloc_spec [OF inv, of 8192] room k by auto
  define b where "b = raw - 12"
  then have rb: "raw = b + 12" by simp
  have b: "b \<in> set B'" "8192 \<le> hsize (ram s') b"
    using B' by (auto simp: alloc_ok_def live_def b_def)
  have "hinv (ram s') (free_list_head s') (unat (free_ram s')) B' (unat (bump_next s'))"
    using B' unfolding alloc_ok_def heap_inv_def by blast
  from hinv_bounds [OF this b(1)] have bb: "bend (ram s') b \<le> 4294967295" by blast
  then have raw: "unat raw = unat b + 12"
    unfolding rb by simp
  have sz: "8192 \<le> unat (hsize (ram s') b)"
    using b(2) by (simp add: u32_le)
  define q where "q = (unat raw + 4095) div 4096"
  have "unat page = q * 4096"
    unfolding page q_def using raw bb sz by (intro unat_align_page) linarith
  moreover have "unat raw \<le> q * 4096" "q * 4096 \<le> unat raw + 4095"
    unfolding q_def by linarith+
  ultimately have "in_block (ram s') b page"
    using raw sz by (simp add: in_block_def)
  with B' show ?thesis
    unfolding alloc_ok_def b_def by blast
qed

section \<open>Entry bits\<close>

lemma bit_flags: "bit (3 :: int) n \<longleftrightarrow> n < 2" "bit (0x80 :: int) n \<longleftrightarrow> n = 7"
proof -
  have e: "(3 :: int) = mask 2" "(0x80 :: int) = 2 ^ 7"
    by (simp_all add: mask_eq_exp_minus_1)
  show "bit (3 :: int) n \<longleftrightarrow> n < 2" "bit (0x80 :: int) n \<longleftrightarrow> n = 7"
    unfolding e by (simp_all only: bit_mask_iff bit_exp_iff) auto
qed

lemma or_1_present [simp]: "(x OR 1) AND 1 \<noteq> (0 :: u32)" "(x OR 1 OR y) AND 1 \<noteq> (0 :: u32)"
proof -
  have "bit ((x OR 1) AND 1) 0" "bit ((x OR 1 OR y) AND 1) 0"
    by (simp_all add: bit_simps)
  then show "(x OR 1) AND 1 \<noteq> (0 :: u32)" "(x OR 1 OR y) AND 1 \<noteq> (0 :: u32)"
    by (metis bit_0_eq bot_apply bot_bool_def)+
qed

lemma table_entry_bits:
  fixes t :: u32
  assumes "unat t mod 4096 = 0"
  shows "((t AND 0xFFFFF000) OR 1 OR 2) AND 0x80 = 0"
    and "((t AND 0xFFFFF000) OR 1 OR 2) AND 0xFFFFF000 = t"
proof -
  show "((t AND 0xFFFFF000) OR 1 OR 2) AND 0x80 = 0"
    unfolding page_masks
    by (rule bit_word_eqI) (auto simp: bit_simps bit_flags)
  have "((t AND 0xFFFFF000) OR 1 OR 2) AND 0xFFFFF000 = t AND 0xFFFFF000"
    unfolding page_masks
    by (rule bit_word_eqI) (auto simp: bit_simps bit_flags)
  then show "((t AND 0xFFFFF000) OR 1 OR 2) AND 0xFFFFF000 = t"
    using page_base_aligned [OF assms] by simp
qed

lemma pte_bits:
  fixes p flags :: u32
  assumes "flags AND 0xFFFFF000 = 0"
  shows "((p AND 0xFFFFF000) OR flags OR 1) AND 1 \<noteq> 0"
    and "((p AND 0xFFFFF000) OR flags OR 1) AND 0xFFFFF000 = p AND 0xFFFFF000"
proof -
  show "((p AND 0xFFFFF000) OR flags OR 1) AND 1 \<noteq> 0"
    using or_1_present(1) [of "(p AND 0xFFFFF000) OR flags"] by (simp add: or.assoc)
  have "((p AND 0xFFFFF000) OR flags OR 1) AND 0xFFFFF000 =
      (p AND 0xFFFFF000) OR (flags AND 0xFFFFF000)"
    unfolding page_masks
    by (rule bit_word_eqI) (auto simp: bit_simps bit_flags)
  then show "((p AND 0xFFFFF000) OR flags OR 1) AND 0xFFFFF000 = p AND 0xFFFFF000"
    using assms by simp
qed

lemma split_entry_bits:
  fixes e w :: u32
  defines "pte \<equiv> ((e AND 0xFFC00000) + push_bit 12 (drop_bit 12 w AND 0x3FF)) OR 1 OR 2"
  shows "pte AND 1 \<noteq> 0"
    and "(pte AND 0xFFFFF000) OR (w AND 0xFFF) = (e AND 0xFFC00000) OR (w AND 0x3FFFFF)"
proof -
  show "pte AND 1 \<noteq> 0"
    unfolding pte_def by (rule or_1_present)
  have "(e AND 0xFFC00000) + push_bit 12 (drop_bit 12 w AND 0x3FF) =
      (e AND 0xFFC00000) OR push_bit 12 (drop_bit 12 w AND 0x3FF)"
    unfolding page_masks by (rule disjunctive_add) (auto simp: bit_simps)
  then show "(pte AND 0xFFFFF000) OR (w AND 0xFFF) = (e AND 0xFFC00000) OR (w AND 0x3FFFFF)"
    unfolding pte_def page_masks
    by (intro bit_word_eqI) (auto simp: bit_simps bit_flags)
qed

section \<open>Well-formed directories\<close>

definition vdir :: "u32 \<Rightarrow> nat" where
  "vdir v = unat v div 4194304"

definition vtab :: "u32 \<Rightarrow> nat" where
  "vtab v = unat v div 4096 mod 1024"

lemma vdir_less: "vdir v < 1024" and vtab_less: "vtab v < 1024"
proof -
  show "vdir v < 1024"
    using unat_bound_u32 [of v] unfolding vdir_def by (simp add: div_less_iff_less_mult)
  show "vtab v < 1024"
    by (simp add: vtab_def)
qed

lemma walk_indices: "drop_bit 22 v = of_nat (vdir v)" "drop_bit 12 v AND 0x3FF = of_nat (vtab v)"
proof -
  have "unat (drop_bit 22 v) = vdir v" "unat (drop_bit 12 v AND 0x3FF) = vtab v"
    by (simp_all only: page_masks(5) take_bit_eq_mask [symmetric] unat_take_bit_u32 unat_drop_bit_u32
        vdir_def vtab_def) simp_all
  moreover have "of_nat (unat x) = x" for x :: u32
    by simp
  ultimately show "drop_bit 22 v = of_nat (vdir v)" "drop_bit 12 v AND 0x3FF = of_nat (vtab v)"
    by metis+
qed

text \<open>The directory entry for index \<open>i\<close>, and the page table a small-page entry refers to.\<close>

definition pde :: "memory \<Rightarrow> u32 \<Rightarrow> nat \<Rightarrow> u32" where
  "pde m pd i = load_entry m pd (of_nat i)"

abbreviation is_table :: "u32 \<Rightarrow> bool" where
  "is_table e \<equiv> e AND 0x80 = 0"

abbreviation table_of :: "u32 \<Rightarrow> u32" where
  "table_of e \<equiv> e AND 0xFFFFF000"

lemma translate_eq:
  "translate m pd v =
     (let e = pde m pd (vdir v) in
      if e AND 1 = 0 then None
      else if \<not> is_table e then Some ((e AND 0xFFC00000) OR (v AND 0x3FFFFF))
      else let p = pde m (table_of e) (vtab v) in
        if p AND 1 = 0 then None else Some (table_of p OR (v AND 0xFFF)))"
  by (simp add: walk_def pde_def walk_indices Let_def)

text \<open>
  A directory as the kernel builds them: it and its tables are pages of distinct live heap
  blocks or at least distinct pages of them, and every entry is present.
\<close>

definition wf_dir :: "memory \<Rightarrow> u32 set \<Rightarrow> u32 \<Rightarrow> bool" where
  "wf_dir m L pd \<longleftrightarrow> page_ok m L pd \<and>
     (\<forall>i < 1024. pde m pd i AND 1 \<noteq> 0 \<and>
        (is_table (pde m pd i) \<longrightarrow> page_ok m L (table_of (pde m pd i)) \<and> table_of (pde m pd i) \<noteq> pd)) \<and>
     (\<forall>i < 1024. \<forall>j < 1024. i \<noteq> j \<and> is_table (pde m pd i) \<and> is_table (pde m pd j) \<longrightarrow>
        table_of (pde m pd i) \<noteq> table_of (pde m pd j))"

lemma wf_dirD:
  assumes "wf_dir m L pd" "i < 1024"
  shows "page_ok m L pd" "pde m pd i AND 1 \<noteq> 0"
    and "is_table (pde m pd i) \<Longrightarrow> page_ok m L (table_of (pde m pd i))"
    and "is_table (pde m pd i) \<Longrightarrow> table_of (pde m pd i) \<noteq> pd"
    and "\<lbrakk>is_table (pde m pd i); j < 1024; is_table (pde m pd j); i \<noteq> j\<rbrakk> \<Longrightarrow>
      table_of (pde m pd i) \<noteq> table_of (pde m pd j)"
  using assms unfolding wf_dir_def by blast+

text \<open>Memories that differ at most on the page \<open>t\<close>.\<close>

definition only_page :: "memory \<Rightarrow> memory \<Rightarrow> u32 \<Rightarrow> bool" where
  "only_page m m' t \<longleftrightarrow> (\<forall>lo hi. unat t + 4096 \<le> lo \<or> hi \<le> unat t \<longrightarrow> mem_eq m m' lo hi)"

lemma only_page_store: "i < 1024 \<Longrightarrow> unat t + 4096 \<le> 4294967296 \<Longrightarrow> only_page m (store_entry t (of_nat i) v m) t"
  by (simp add: only_page_def mem_eq_store_entry)

lemma only_page_split: "unat t + 4096 \<le> 4294967296 \<Longrightarrow> only_page m (split_table t base m) t"
  unfolding only_page_def split_table_def by (simp add: fold_store_entry(2))

lemma aligned_disjoint:
  assumes "unat a mod 4096 = 0" "unat b mod 4096 = 0" "a \<noteq> (b :: u32)"
  shows "unat a + 4096 \<le> unat b \<or> unat b + 4096 \<le> unat a"
proof -
  obtain j k where jk: "unat a = 4096 * j" "unat b = 4096 * k"
    using assms(1,2) by (auto simp: mod_eq_0_iff_dvd elim!: dvdE)
  have "unat a \<noteq> unat b"
    using assms(3) u32_eqI by blast
  then consider "j < k" | "k < j"
    using jk by (metis nat_neq_iff)
  then show ?thesis
    using jk by cases linarith+
qed

lemma page_okD:
  assumes "page_ok m L a" "\<forall>b \<in> L. bend m b \<le> 4294967295"
  shows "unat a mod 4096 = 0" "unat a + 4096 \<le> 4294967295"
  using assms by (force simp: page_ok_def in_block_def)+

lemma pde_only_page:
  assumes "only_page m m' t" "a \<noteq> t" "unat a mod 4096 = 0" "unat t mod 4096 = 0"
    "unat a + 4096 \<le> 4294967295" "i < 1024"
  shows "pde m' a i = pde m a i"
proof -
  have "mem_eq m m' (unat a) (unat a + 4096)"
    using assms(1) aligned_disjoint [OF assms(3,4,2)] unfolding only_page_def by auto
  from load_entry_cong [OF this assms(6)] assms(5) show ?thesis
    by (simp add: pde_def)
qed

lemma pde_keeps:
  assumes "keeps m m' L" "page_ok m L a" "\<forall>b \<in> L. bend m b \<le> 4294967295" "i < 1024"
  shows "pde m' a i = pde m a i"
proof -
  obtain b where "b \<in> L" and b: "in_block m b a"
    using assms(2) by (auto simp: page_ok_def)
  then have "mem_eq m m' (unat b) (bend m b)"
    using assms(1) by (simp add: keeps_def)
  then have "mem_eq m m' (unat a) (unat a + 4096)"
    by (rule mem_eq_mono) (use b in \<open>auto simp: in_block_def\<close>)
  from load_entry_cong [OF this assms(4)] page_okD(2) [OF assms(2,3)] show ?thesis
    by (simp add: pde_def)
qed

lemma heap_inv_hinv:
  "heap_inv s B \<Longrightarrow> hinv (ram s) (free_list_head s) (unat (free_ram s)) B (unat (bump_next s))"
  by (simp only: heap_inv_def)

lemma live_bend: "heap_inv s B \<Longrightarrow> \<forall>b \<in> live (ram s) B. bend (ram s) b \<le> 4294967295"
  using hinv_bounds [OF heap_inv_hinv] unfolding live_def by blast

text \<open>Writing a page the kernel owns leaves the heap alone.\<close>

lemma heap_inv_page_write:
  assumes inv: "heap_inv s B" and t: "page_ok (ram s) (live (ram s) B) t" and o: "only_page (ram s) m' t"
  shows "heap_inv (s\<lparr>ram := m'\<rparr>) B" "live m' B = live (ram s) B"
    and "\<And>b. b \<in> set B \<Longrightarrow> hsize m' b = hsize (ram s) b"
proof -
  note h = heap_inv_hinv [OF inv]
  obtain a where a: "a \<in> live (ram s) B" "in_block (ram s) a t"
    using t by (auto simp: page_ok_def)
  have aB: "a \<in> set B" using a by (simp add: live_def)
  have eq: "mem_eq (ram s) m' (unat b) (unat b + 12)" if "b \<in> set B" for b
  proof -
    have "unat t + 4096 \<le> unat b \<or> unat b + 12 \<le> unat t"
      using blocks_sep [OF hinv_blocks [OF h] aB that] a(2) by (cases "a = b") (auto simp: in_block_def)
    then show ?thesis
      using o by (auto simp: only_page_def)
  qed
  note hh = hinv_headers [OF h, of m']
  show "heap_inv (s\<lparr>ram := m'\<rparr>) B"
    using inv hh(1) [OF eq] by (simp add: heap_inv_def)
  show "live m' B = live (ram s) B"
    by (rule hh(2) [OF eq])
  show "\<And>b. b \<in> set B \<Longrightarrow> hsize m' b = hsize (ram s) b"
    using hh(3) [OF eq] by blast
qed

lemma page_ok_cong:
  "(\<forall>b \<in> L. hsize m' b = hsize m b) \<Longrightarrow> L \<subseteq> L' \<Longrightarrow> page_ok m L a \<Longrightarrow> page_ok m' L' a"
  unfolding page_ok_def in_block_def by fastforce

lemma wf_dir_entries:
  assumes wf: "wf_dir m L pd" and L: "L \<subseteq> L'" "\<forall>b \<in> L. hsize m' b = hsize m b"
    and pd: "\<And>i. i < 1024 \<Longrightarrow> pde m' pd i = pde m pd i"
  shows "wf_dir m' L' pd"
proof -
  have ok: "page_ok m' L' a" if "page_ok m L a" for a
    using page_ok_cong [OF L(2) L(1) that] .
  have "page_ok m' L' pd"
    using ok wf_dirD(1) [OF wf vdir_less] .
  moreover have "pde m' pd i AND 1 \<noteq> 0 \<and> (is_table (pde m' pd i) \<longrightarrow>
      page_ok m' L' (table_of (pde m' pd i)) \<and> table_of (pde m' pd i) \<noteq> pd)" if "i < 1024" for i
    using wf_dirD(2-4) [OF wf that] ok pd [OF that] by auto
  moreover have "table_of (pde m' pd i) \<noteq> table_of (pde m' pd j)"
    if "i < 1024" "j < 1024" "i \<noteq> j" "is_table (pde m' pd i)" "is_table (pde m' pd j)" for i j
    using wf_dirD(5) [OF wf that(1), of j] that pd by simp
  ultimately show ?thesis
    unfolding wf_dir_def by blast
qed

text \<open>A directory whose pages are untouched keeps its meaning.\<close>

lemma translate_same:
  assumes "\<And>i a. i < 1024 \<Longrightarrow> a = pd \<or> (\<exists>j < 1024. is_table (pde m pd j) \<and> a = table_of (pde m pd j)) \<Longrightarrow>
      pde m' a i = pde m a i"
  shows "translate m' pd v = translate m pd v"
proof -
  have pd: "pde m' pd (vdir v) = pde m pd (vdir v)"
    using assms [OF vdir_less, of pd] by simp
  have "is_table (pde m pd (vdir v)) \<Longrightarrow>
      pde m' (table_of (pde m pd (vdir v))) (vtab v) = pde m (table_of (pde m pd (vdir v))) (vtab v)"
    using assms [OF vtab_less] vdir_less by blast
  then show ?thesis
    unfolding translate_eq pd Let_def by auto
qed

text \<open>Storing a leaf entry in the table of a well-formed directory.\<close>

lemma set_pte:
  fixes m pd v p flags
  defines "t \<equiv> table_of (pde m pd (vdir v))"
  defines "m' \<equiv> store_entry t (of_nat (vtab v)) ((p AND 0xFFFFF000) OR flags OR 1) m"
  assumes wf: "wf_dir m L pd" and L: "\<forall>b \<in> L. bend m b \<le> 4294967295"
    and tab: "is_table (pde m pd (vdir v))" and flags: "flags AND 0xFFFFF000 = 0"
    and hs: "\<forall>b \<in> L. hsize m' b = hsize m b"
  shows "wf_dir m' L pd" "translate m' pd v = Some ((p AND 0xFFFFF000) OR (v AND 0xFFF))"
    and "unat w div 4096 \<noteq> unat v div 4096 \<Longrightarrow> translate m' pd w = translate m pd w"
proof -
  note t_ok = wf_dirD(3,4) [OF wf vdir_less tab, folded t_def]
  note t = page_okD [OF t_ok(1) L] and pdp = page_okD [OF wf_dirD(1) [OF wf vdir_less] L]
  have t4: "unat t + 4096 \<le> 4294967296" using t by simp
  have op: "only_page m m' t"
    unfolding m'_def by (rule only_page_store [OF vtab_less t4])
  have pd: "pde m' pd i = pde m pd i" if "i < 1024" for i
    by (rule pde_only_page [OF op _ pdp(1) t(1) pdp(2) that]) (use t_ok(2) in simp)
  have other: "pde m' (table_of (pde m pd i)) k = pde m (table_of (pde m pd i)) k"
    if "i < 1024" "is_table (pde m pd i)" "i \<noteq> vdir v" "k < 1024" for i k
  proof -
    have "table_of (pde m pd i) \<noteq> t"
      using wf_dirD(5) [OF wf that(1,2) vdir_less tab that(3)] by (simp add: t_def)
    moreover note page_okD [OF wf_dirD(3) [OF wf that(1,2)] L]
    ultimately show ?thesis
      by (intro pde_only_page [OF op _ _ t(1) _ that(4)])
  qed
  have tk: "pde m' t k = (if k = vtab v then (p AND 0xFFFFF000) OR flags OR 1 else pde m t k)"
    if "k < 1024" for k
    unfolding pde_def m'_def using load_store_entry [OF vtab_less that t4] by auto
  show "wf_dir m' L pd"
    by (rule wf_dir_entries [OF wf]) (simp_all add: hs pd)
  show "translate m' pd v = Some ((p AND 0xFFFFF000) OR (v AND 0xFFF))"
    using wf_dirD(2) [OF wf vdir_less] tab pte_bits [OF flags]
    unfolding translate_eq pd [OF vdir_less] Let_def t_def [symmetric] by (simp add: tk [OF vtab_less])
  show "translate m' pd w = translate m pd w" if "unat w div 4096 \<noteq> unat v div 4096"
  proof (cases "vdir w = vdir v")
    case True
    have "unat w div 4096 = vdir w * 1024 + vtab w" "unat v div 4096 = vdir v * 1024 + vtab v"
      unfolding vdir_def vtab_def by (simp_all add: div_mult2_eq [of _ 4096 1024, simplified])
    then have "vtab w \<noteq> vtab v"
      using True that by auto
    then show ?thesis
      unfolding translate_eq pd [OF vdir_less] Let_def True t_def [symmetric]
      by (simp add: tk [OF vtab_less])
  next
    case False
    then show ?thesis
      unfolding translate_eq pd [OF vdir_less] Let_def
      using other [OF vdir_less _ False vtab_less] by auto
  qed
qed


text \<open>
  Replacing a large-page entry by a fresh table \<open>t\<close> that maps the same addresses: nothing
  changes for the processor.
\<close>

lemma set_pde:
  fixes m pd i t
  defines "e \<equiv> pde m pd i"
  defines "m1 \<equiv> split_table t (e AND 0xFFC00000) m"
  defines "m2 \<equiv> store_entry pd (of_nat i) ((t AND 0xFFFFF000) OR 1 OR 2) m1"
  assumes wf: "wf_dir m L pd" and L: "\<forall>b \<in> L. bend m b \<le> 4294967295" and i: "i < 1024"
    and big: "\<not> is_table e" and t: "page_ok m L t" "t \<noteq> pd"
    and fresh: "\<forall>j < 1024. is_table (pde m pd j) \<longrightarrow> table_of (pde m pd j) \<noteq> t"
    and hs: "\<forall>b \<in> L. hsize m2 b = hsize m b"
  shows "wf_dir m2 L pd" "pde m2 pd i = (t AND 0xFFFFF000) OR 1 OR 2"
    and "translate m2 pd w = translate m pd w"
proof -
  let ?n = "(t AND 0xFFFFF000) OR 1 OR 2"
  note tp = page_okD [OF t(1) L] and pdp = page_okD [OF wf_dirD(1) [OF wf i] L]
  have t4: "unat t + 4096 \<le> 4294967296" and pd4: "unat pd + 4096 \<le> 4294967296"
    using tp pdp by simp_all
  note bits = table_entry_bits [OF tp(1)]
  have o1: "only_page m m1 t" and o2: "only_page m1 m2 pd"
    unfolding m1_def m2_def by (rule only_page_split [OF t4], rule only_page_store [OF i pd4])
  have pd: "pde m2 pd j = (if j = i then ?n else pde m pd j)" if "j < 1024" for j
  proof -
    have "pde m1 pd j = pde m pd j"
      by (rule pde_only_page [OF o1 _ pdp(1) tp(1) pdp(2) that]) (use t(2) in simp)
    moreover have "pde m2 pd j = (if j = i then ?n else pde m1 pd j)"
      unfolding pde_def m2_def using load_store_entry [OF i that pd4] by auto
    ultimately show ?thesis by simp
  qed
  then show "pde m2 pd i = ?n" using i by simp
  have tab: "pde m2 a k = pde m a k" if "a \<noteq> t" "a \<noteq> pd" "page_ok m L a" "k < 1024" for a k
    using pde_only_page [OF o1 that(1) _ tp(1) _ that(4)] pde_only_page [OF o2 that(2) _ pdp(1) _ that(4)]
      page_okD [OF that(3) L] by simp
  have tt: "pde m2 t k = ((e AND 0xFFC00000) + push_bit 12 (of_nat k)) OR 1 OR 2" if "k < 1024" for k
  proof -
    have "pde m2 t k = pde m1 t k"
      by (rule pde_only_page [OF o2 t(2) tp(1) pdp(1) tp(2) that])
    also have "\<dots> = ((e AND 0xFFC00000) + push_bit 12 (of_nat k)) OR 1 OR 2"
      unfolding pde_def m1_def split_table_def using fold_store_entry(1) [OF t4 order_refl that] that by simp
    finally show ?thesis .
  qed
  have ok: "page_ok m2 L a" if "page_ok m L a" for a
    by (rule page_ok_cong [OF hs order_refl that])
  show "wf_dir m2 L pd"
    unfolding wf_dir_def
  proof (intro conjI allI impI)
    show "page_ok m2 L pd" using ok wf_dirD(1) [OF wf i] .
    fix j :: nat assume j: "j < 1024"
    show "pde m2 pd j AND 1 \<noteq> 0"
      using wf_dirD(2) [OF wf j] pd [OF j] or_1_present(2) [of "t AND 0xFFFFF000" 2] by simp
    assume jt: "is_table (pde m2 pd j)"
    show "page_ok m2 L (table_of (pde m2 pd j))" "table_of (pde m2 pd j) \<noteq> pd"
      using jt pd [OF j] ok bits t wf_dirD(3,4) [OF wf j] by (auto split: if_splits)
  next
    fix j k :: nat assume jk: "j < 1024" "k < 1024" "j \<noteq> k \<and> is_table (pde m2 pd j) \<and> is_table (pde m2 pd k)"
    then show "table_of (pde m2 pd j) \<noteq> table_of (pde m2 pd k)"
      using pd [OF jk(1)] pd [OF jk(2)] bits(2) fresh wf_dirD(5) [OF wf jk(1), of k]
      by (cases "j = i"; cases "k = i") auto
  qed
  show "translate m2 pd w = translate m pd w"
  proof (cases "vdir w = i")
    case True
    note sb = split_entry_bits [of e w, unfolded walk_indices]
    show ?thesis
      using big wf_dirD(2) [OF wf i] bits or_1_present(2) [of "t AND 0xFFFFF000" 2] sb
      unfolding translate_eq True pd [OF i] Let_def e_def [symmetric] by (simp add: tt [OF vtab_less])
  next
    case False
    then show ?thesis
      unfolding translate_eq pd [OF vdir_less] Let_def
      using tab [OF _ wf_dirD(4,3) [OF wf vdir_less] vtab_less] fresh vdir_less by auto
  qed
qed

lemma page_ok_pde_keeps:
  assumes wf: "wf_dir m L pd" and k: "keeps m m' L" and L: "\<forall>b \<in> L. bend m b \<le> 4294967295"
    and i: "i < 1024" and a: "a = pd \<or> (\<exists>j < 1024. is_table (pde m pd j) \<and> a = table_of (pde m pd j))"
  shows "pde m' a i = pde m a i"
proof -
  have "page_ok m L a"
    using a wf_dirD(1) [OF wf i] wf_dirD(3) [OF wf] by blast
  then show ?thesis
    using pde_keeps [OF k _ L i] by blast
qed

lemma in_block_unique:
  assumes inv: "heap_inv s B" and b: "b \<in> set B" "c \<in> set B" "in_block (ram s) b a" "in_block (ram s) c a"
  shows "b = c"
proof (rule ccontr)
  assume "b \<noteq> c"
  from blocks_sep [OF hinv_blocks [OF heap_inv_hinv [OF inv]] b(1,2) this] b(3,4) show False
    by (auto simp: in_block_def)
qed

text \<open>The first half of \<^verbatim>\<open>paging_map_page\<close>, when the entry is a large page.\<close>

lemma split_large:
  assumes inv: "heap_inv s B" and room: "unat (bump_next s) + 8220 \<le> 4294967296"
    and wf: "wf_dir (ram s) (live (ram s) B) pd" and big: "\<not> is_table (pde (ram s) pd (vdir v))"
    and al: "alloc_aligned_page s = Some (t, s1)"
  defines "m2 \<equiv> store_entry pd (of_nat (vdir v)) ((t AND 0xFFFFF000) OR 1 OR 2)
    (split_table t (pde (ram s) pd (vdir v) AND 0xFFC00000) (ram s1))"
  shows "\<exists>B'. heap_inv (s1\<lparr>ram := m2\<rparr>) B' \<and> live (ram s) B \<subseteq> live m2 B' \<and> wf_dir m2 (live m2 B') pd \<and>
    is_table (pde m2 pd (vdir v)) \<and> (\<forall>w. translate m2 pd w = translate (ram s) pd w)"
proof -
  let ?m = "ram s" and ?m1 = "ram s1" and ?L = "live (ram s) B"
  obtain B' b where i1: "heap_inv s1 B'" and bL: "b \<notin> ?L" and l1: "live ?m1 B' = insert b ?L"
      and tb: "in_block ?m1 b t" and k: "keeps ?m ?m1 ?L"
    using alloc_aligned_page_spec [OF inv room al] by blast
  let ?L1 = "live ?m1 B'"
  note bend0 = live_bend [OF inv] and bend1 = live_bend [OF i1]
  have hs: "\<forall>c \<in> ?L. hsize ?m1 c = hsize ?m c"
    using keeps_hsize [OF k] bend0 by fastforce
  note same = page_ok_pde_keeps [OF wf k bend0]
  have pd1: "pde ?m1 pd j = pde ?m pd j" if "j < 1024" for j
    using same [OF that] by blast
  have wf1: "wf_dir ?m1 ?L1 pd"
    by (rule wf_dir_entries [OF wf]) (use l1 hs pd1 in auto)
  have tr1: "translate ?m1 pd w = translate ?m pd w" for w
    by (rule translate_same) (rule same)
  have pt: "page_ok ?m1 ?L1 t"
    using l1 tb by (auto simp: page_ok_def)
  have old: "a \<noteq> t" if "page_ok ?m ?L a" for a
  proof
    assume "a = t"
    with page_ok_cong [OF hs order_refl that] obtain c where "c \<in> ?L" "in_block ?m1 c t"
      by (auto simp: page_ok_def)
    then have "c = b"
      using in_block_unique [OF i1 _ _ _ tb, of c] l1 by (auto simp: live_def)
    then show False using \<open>c \<in> ?L\<close> bL by simp
  qed
  have fresh: "\<forall>j < 1024. is_table (pde ?m1 pd j) \<longrightarrow> table_of (pde ?m1 pd j) \<noteq> t"
    using old wf_dirD(3) [OF wf] pd1 by metis
  have tpd: "t \<noteq> pd"
    using old [OF wf_dirD(1) [OF wf vdir_less]] by blast
  let ?ms = "split_table t (pde ?m1 pd (vdir v) AND 0xFFC00000) ?m1"
  have m2: "m2 = store_entry pd (of_nat (vdir v)) ((t AND 0xFFFFF000) OR 1 OR 2) ?ms"
    by (simp add: m2_def pd1 [OF vdir_less])
  have t4: "unat t + 4096 \<le> 4294967296" and pd4: "unat pd + 4096 \<le> 4294967296"
    using page_okD(2) [OF pt bend1] page_okD(2) [OF wf_dirD(1) [OF wf1 vdir_less] bend1] by simp_all
  note w1 = heap_inv_page_write [OF i1 pt only_page_split [OF t4, of ?m1 "pde ?m1 pd (vdir v) AND 0xFFC00000"]]
  let ?s2 = "s1\<lparr>ram := ?ms\<rparr>"
  have pdok: "page_ok (ram ?s2) (live (ram ?s2) B') pd"
    using page_ok_cong [OF _ _ wf_dirD(1) [OF wf1 vdir_less], of ?ms ?L1] w1(2,3) by (simp add: live_def)
  have op: "only_page (ram ?s2) m2 pd"
    using only_page_store [OF vdir_less pd4] unfolding m2 by simp
  note w2 = heap_inv_page_write [OF w1(1) pdok op]
  have L2: "live m2 B' = ?L1"
    using w2(2) w1(2) by simp
  have hs2: "\<forall>c \<in> ?L1. hsize m2 c = hsize ?m1 c"
    using w2(3) w1(3) by (simp add: live_def)
  have big1: "\<not> is_table (pde ?m1 pd (vdir v))"
    using big pd1 [OF vdir_less] by simp
  note sp = set_pde [OF wf1 bend1 vdir_less big1 pt tpd fresh, folded m2, OF hs2]
  have "wf_dir m2 ?L1 pd" "pde m2 pd (vdir v) = (t AND 0xFFFFF000) OR 1 OR 2"
      "\<And>w. translate m2 pd w = translate ?m1 pd w"
    using sp by blast+
  then show ?thesis
    using w2(1) L2 l1 tr1 table_entry_bits(1) [OF page_okD(1) [OF pt bend1]] by (intro exI [of _ B']) auto
qed


lemma alloc_aligned_page_returns:
  assumes inv: "heap_inv s B" and room: "unat (bump_next s) + 8220 \<le> unat (free_ram_end s)"
  shows "\<exists>p s'. alloc_aligned_page s = Some (p, s')"
proof -
  have u: "unat (bump_next s) + 8220 \<le> 4294967295"
    using room unat_le_u32 [of "free_ram_end s"] by linarith
  have "unat (align_up_uintptr (bump_next s) 8) < unat (bump_next s) + 8"
    using u by (intro align_up_bounds(2)) linarith
  moreover have "unat (align_up_uintptr 8192 8) = 8192"
    by (simp add: align_up_uintptr_def)
  ultimately have "kmalloc 8192 s \<noteq> None"
    using kmalloc_spec [OF inv, of 8192] u room by (auto split: option.splits)
  then show ?thesis
    by (auto simp: alloc_aligned_page_def)
qed

section \<open>Properties\<close>

text \<open>
  C7. \<^verbatim>\<open>paging_map_page\<close> makes the processor translate the page of \<open>vaddr\<close> to the page of \<open>paddr\<close>
  and leaves the translation of every other page alone, also when it has to split a 4 MiB
  mapping into a fresh table first. The directory stays well-formed and so does the heap.
\<close>

theorem paging_map_page_correct:
  assumes "heap_inv s B" and "unat (bump_next s) + 8220 \<le> 4294967296"
    and "wf_dir (ram s) (live (ram s) B) pd" and "flags AND 0xFFFFF000 = 0"
    and "paging_map_page pd vaddr paddr flags s = Some s'"
  shows "\<exists>B'. heap_inv s' B' \<and> live (ram s) B \<subseteq> live (ram s') B' \<and>
    wf_dir (ram s') (live (ram s') B') pd \<and>
    translate (ram s') pd vaddr = Some ((paddr AND 0xFFFFF000) OR (vaddr AND 0xFFF)) \<and>
    (\<forall>w. unat w div 4096 \<noteq> unat vaddr div 4096 \<longrightarrow> translate (ram s') pd w = translate (ram s) pd w)"
proof -
  let ?e = "pde (ram s) pd (vdir vaddr)"
  let ?w = "\<lambda>s1. s1\<lparr>ram := store_entry (table_of (pde (ram s1) pd (vdir vaddr))) (of_nat (vtab vaddr))
    ((paddr AND 0xFFFFF000) OR flags OR 1) (ram s1)\<rparr>"
  obtain s1 B1 where s1: "s' = ?w s1" "heap_inv s1 B1" "live (ram s) B \<subseteq> live (ram s1) B1"
      "wf_dir (ram s1) (live (ram s1) B1) pd" "is_table (pde (ram s1) pd (vdir vaddr))"
      "\<And>w. translate (ram s1) pd w = translate (ram s) pd w"
  proof (cases "is_table ?e")
    case True
    with assms(5) have "s' = ?w s"
      by (simp add: paging_map_page_def Let_def walk_indices pde_def)
    with that assms(1,3) True show ?thesis by blast
  next
    case False
    obtain t s0 where al: "alloc_aligned_page s = Some (t, s0)"
      using assms(5) False by (cases "alloc_aligned_page s")
        (auto simp: paging_map_page_def Let_def walk_indices pde_def)
    define m2 where "m2 = store_entry pd (of_nat (vdir vaddr)) ((t AND 0xFFFFF000) OR 1 OR 2)
      (split_table t (?e AND 0xFFC00000) (ram s0))"
    have "s' = ?w (s0\<lparr>ram := m2\<rparr>)"
      using assms(5) False al by (simp add: paging_map_page_def Let_def walk_indices pde_def m2_def)
    with split_large [OF assms(1-3) False al, folded m2_def] that [of "s0\<lparr>ram := m2\<rparr>"] show ?thesis
      by auto
  qed
  let ?t = "table_of (pde (ram s1) pd (vdir vaddr))"
  note bend1 = live_bend [OF s1(2)]
  have tok: "page_ok (ram s1) (live (ram s1) B1) ?t"
    using wf_dirD(3) [OF s1(4) vdir_less s1(5)] .
  have t4: "unat ?t + 4096 \<le> 4294967296"
    using page_okD(2) [OF tok bend1] by simp
  have op: "only_page (ram s1) (ram s') ?t"
    using only_page_store [OF vtab_less t4] unfolding s1(1) by simp
  note w = heap_inv_page_write [OF s1(2) tok op]
  have hs: "\<forall>b \<in> live (ram s1) B1. hsize (ram s') b = hsize (ram s1) b"
    using w(3) by (simp add: live_def)
  have m': "ram s' = store_entry ?t (of_nat (vtab vaddr)) ((paddr AND 0xFFFFF000) OR flags OR 1) (ram s1)"
      "s1\<lparr>ram := ram s'\<rparr> = s'"
    by (simp_all add: s1(1))
  note sp = set_pte [OF s1(4) bend1 s1(5) assms(4), of paddr, folded m'(1), OF hs]
  show ?thesis
    using w sp s1(3,6) unfolding m'(2) by (intro exI [of _ B1]) simp
qed

lemma identity_entry:
  fixes v :: u32
  defines "e \<equiv> ((of_nat (vdir v) * 0x400000) AND 0xFFC00000) OR 1 OR 2 OR 0x80"
  shows "e AND 1 \<noteq> 0" "\<not> is_table e" "(e AND 0xFFC00000) OR (v AND 0x3FFFFF) = v"
proof -
  have "of_nat (vdir v) * 0x400000 = push_bit 22 (drop_bit 22 v)"
    unfolding walk_indices(1) by (simp add: push_bit_eq_mult)
  then have e: "e = (v AND NOT (mask 22)) OR 1 OR 2 OR 0x80"
    unfolding e_def page_masks by (simp only: and_not_mask_eq [symmetric] and.assoc and.idem)
  show "e AND 1 \<noteq> 0"
    unfolding e by (rule or_1_present)
  have "bit (e AND 0x80) 7"
    unfolding e by (simp add: bit_simps)
  then show "\<not> is_table e"
    by (metis bit_0_eq bot_apply bot_bool_def)
  have "n < 22" if "bit (131 :: int) n" for n
  proof -
    have "bit (take_bit 8 (131 :: int)) n"
      using that by simp
    then have "n < 8"
      by (simp only: bit_take_bit_iff)
    then show ?thesis by simp
  qed
  then show "(e AND 0xFFC00000) OR (v AND 0x3FFFFF) = v"
    unfolding e page_masks by (intro bit_word_eqI) (auto simp: bit_simps)
qed


lemma or_and_nonzero: "bit m n \<Longrightarrow> (x OR m) AND m \<noteq> 0" for x m :: u32
  by (metis bit_0_eq bit_and_iff bit_or_iff bot_apply bot_bool_def)

lemma paging_init_spec:
  assumes "heap_inv s B" and "unat (bump_next s) + 8220 \<le> 4294967296" and "paging_init s = Some s'"
  shows "\<exists>B'. heap_inv s' B' \<and> wf_dir (ram s') (live (ram s') B') (page_directory s') \<and>
    paging_is_enabled s' \<and> paging_get_directory s' = page_directory s' \<and>
    (\<forall>v. translate (ram s') (page_directory s') v = Some v) \<and> (\<forall>v. mmu s' v = Some v) \<and> free_ram_end s' = free_ram_end s"
proof -
  obtain pd s1 where al: "alloc_aligned_page s = Some (pd, s1)"
    using assms(3) by (cases "kmalloc 8192 s") (auto simp: paging_init_def alloc_aligned_page_def)
  let ?v = "\<lambda>i. ((of_nat i * 0x400000) AND 0xFFC00000) OR 1 OR 2 OR (0x80 :: u32)"
  define m where "m = fold (\<lambda>i. store_entry pd (of_nat i) (?v i)) [0..<1024] (ram s1)"
  have s': "s' = s1\<lparr>page_directory := pd, ram := m, cr4 := cr4 s1 OR 0x10, cr3 := pd, cr0 := cr0 s1 OR 0x80000000\<rparr>"
    using assms(3) al by (cases "kmalloc 8192 s") (auto simp: paging_init_def alloc_aligned_page_def m_def Let_def)
  obtain B' b where i1: "heap_inv s1 B'" and l1: "live (ram s1) B' = insert b (live (ram s) B)"
      and pb: "in_block (ram s1) b pd" and fe: "free_ram_end s1 = free_ram_end s"
    using alloc_aligned_page_spec [OF assms(1,2) al] by blast
  have ok: "page_ok (ram s1) (live (ram s1) B') pd"
    using l1 pb by (auto simp: page_ok_def)
  have pd4: "unat pd + 4096 \<le> 4294967296"
    using page_okD(2) [OF ok live_bend [OF i1]] by simp
  have op: "only_page (ram s1) m pd"
    unfolding only_page_def m_def by (intro allI impI) (rule fold_store_entry(2) [OF pd4 order_refl])
  note w = heap_inv_page_write [OF i1 ok op]
  have e: "pde m pd i = ?v i" if "i < 1024" for i
    unfolding pde_def m_def using fold_store_entry(1) [OF pd4 order_refl that] that by simp
  have idx: "\<exists>v. vdir v = i" if "i < 1024" for i
    using that by (intro exI [of _ "of_nat i * 0x400000"])
      (simp add: vdir_def unat_word_ariths unat_of_nat take_bit_nat_eq_self)
  have b: "pde m pd i AND 1 \<noteq> 0 \<and> \<not> is_table (pde m pd i)" if "i < 1024" for i
    using e [OF that] idx [OF that] identity_entry(1,2) by metis
  have "page_ok m (live m B') pd"
    using page_ok_cong [OF _ order_refl ok, of m] w(2,3) by (simp add: live_def)
  with b have "wf_dir m (live m B') pd"
    unfolding wf_dir_def by blast
  moreover have tr: "translate m pd v = Some v" for v
    using e [OF vdir_less] identity_entry [of v] by (simp add: translate_eq)
  moreover have on: "cr0 s' AND 0x80000000 \<noteq> 0" "cr4 s' AND 0x10 \<noteq> 0"
    using or_and_nonzero [of 31 "0x80000000" "cr0 s1"] or_and_nonzero [of 4 "0x10" "cr4 s1"] by (simp_all add: s')
  then have "mmu s' v = Some v" for v
    using tr page_base_aligned [OF page_okD(1) [OF ok live_bend [OF i1]]] by (simp add: mmu_def s')
  moreover have "paging_is_enabled s'"
    using on by (simp add: paging_is_enabled_def)
  moreover have "heap_inv s' B'"
    using w(1) by (simp add: heap_inv_def s')
  ultimately show ?thesis
    by (intro exI [of _ B']) (simp add: s' paging_get_directory_def fe)
qed

text \<open>
  C8. After \<^verbatim>\<open>paging_init\<close> paging is enabled and the processor, with the CR0, CR3 and CR4 the code has
  written, translates every one of the 2^32 addresses to itself. CR3 holds the new directory, which is
  well-formed, so \<^verbatim>\<open>paging_map_page\<close> can work on it.
\<close>

theorem paging_init_identity:
  assumes "heap_inv s B" and "unat (bump_next s) + 8220 \<le> 4294967296" and "paging_init s = Some s'"
  shows "\<exists>B'. heap_inv s' B' \<and> wf_dir (ram s') (live (ram s') B') (page_directory s') \<and>
    paging_is_enabled s' \<and> paging_get_directory s' = page_directory s' \<and> (\<forall>v. mmu s' v = Some v)"
  using paging_init_spec [OF assms] by blast

lemma paging_map_page_returns:
  assumes "alloc_aligned_page s = Some x"
  shows "\<exists>s'. paging_map_page pd v p flags s = Some s'"
  using assms by (cases x; cases "load_entry (ram s) pd (drop_bit 22 v) AND 0x80 = 0")
    (simp_all add: paging_map_page_def Let_def)

definition demo_paging :: paging_st where
  "demo_paging = heap_st.extend demo_heap \<lparr>page_directory = 0, cr0 = 0x11, cr3 = 0, cr4 = 0\<rparr>"

lemma demo_paging_boot:
  "heap_inv demo_paging []" "unat (bump_next demo_paging) + 8220 \<le> 4294967296"
  "\<exists>s. paging_init demo_paging = Some s"
proof -
  show inv: "heap_inv demo_paging []"
    using demo_heap_inv by (simp add: heap_inv_def demo_paging_def heap_st.defs)
  have "unat (bump_next demo_paging) + 8220 \<le> unat (free_ram_end demo_paging)"
    by (simp add: demo_paging_def demo_heap_def heap_st.defs)
  from alloc_aligned_page_returns [OF inv this] show "\<exists>s. paging_init demo_paging = Some s"
    by (cases "kmalloc 8192 demo_paging") (auto simp: alloc_aligned_page_def paging_init_def Let_def)
  show "unat (bump_next demo_paging) + 8220 \<le> 4294967296"
    by (simp add: demo_paging_def demo_heap_def heap_st.defs)
qed

theorem paging_init_identity_witness:
  "\<exists>s. paging_init demo_paging = Some s \<and> paging_is_enabled s \<and>
     mmu s 0xB8000 = Some 0xB8000"
proof -
  obtain s where "paging_init demo_paging = Some s"
    using demo_paging_boot(3) by blast
  with paging_init_identity [OF demo_paging_boot(1,2) this] show ?thesis
    by blast
qed

theorem paging_map_page_correct_witness:
  "\<exists>(s :: paging_st) pd s'. paging_map_page pd 0x400000 0x7000 6 s = Some s' \<and> translate (ram s) pd 0x400123 = Some 0x400123 \<and>
     translate (ram s') pd 0x400000 = Some 0x7000 \<and> translate (ram s') pd 0x401000 = Some 0x401000"
proof -
  obtain s where s: "paging_init demo_paging = Some s"
    using demo_paging_boot(3) by blast
  obtain B where B: "heap_inv s B" "wf_dir (ram s) (live (ram s) B) (page_directory s)"
      "\<And>v. translate (ram s) (page_directory s) v = Some v" "free_ram_end s = free_ram_end demo_paging"
    using paging_init_spec [OF demo_paging_boot(1,2) s] by blast
  let ?pd = "page_directory s"
  let ?s = "s\<lparr>free_ram_end := 0x300000\<rparr>"
  have "unat (bump_next s) \<le> 0x200000"
    using B(1,4) by (simp add: heap_inv_def u32_le demo_paging_def demo_heap_def heap_st.defs)
  then have inv: "heap_inv ?s B" and room: "unat (bump_next ?s) + 8220 \<le> 4294967296"
      "unat (bump_next ?s) + 8220 \<le> unat (free_ram_end ?s)"
    using B(1) by (simp_all add: heap_inv_def u32_le)
  obtain x where "alloc_aligned_page ?s = Some x"
    using alloc_aligned_page_returns [OF inv room(2)] by blast
  then obtain s' where s': "paging_map_page ?pd 0x400000 0x7000 6 ?s = Some s'"
    using paging_map_page_returns by blast
  have "wf_dir (ram ?s) (live (ram ?s) B) ?pd" "6 AND 0xFFFFF000 = (0 :: u32)"
    using B(2) by simp_all
  from paging_map_page_correct [OF inv room(1) this s']
  have t: "translate (ram s') ?pd 0x400000 = Some ((0x7000 AND 0xFFFFF000) OR (0x400000 AND 0xFFF))"
    and o: "\<And>w. unat w div 4096 \<noteq> unat (0x400000 :: u32) div 4096 \<Longrightarrow>
      translate (ram s') ?pd w = translate (ram ?s) ?pd w"
    by blast+
  have "translate (ram s') ?pd 0x400000 = Some 0x7000" "translate (ram s') ?pd 0x401000 = Some 0x401000"
    using t o [of "0x401000"] B(3) by simp_all
  then show ?thesis
    using s' B(3) by (intro exI [of _ ?s] exI [of _ ?pd] exI [of _ s']) simp
qed

end
