(* ===== verification/Cdiv.thy ===== *)
theory Cdiv
  imports Prelude "HOL-Library.Signed_Division"
begin

text \<open>
  The 64-bit division helpers of the user library (\<^verbatim>\<open>user/src/libc.c\<close>), which the compiler calls on
  the 32-bit target: binary long division, and the signed operations on top of it. They are shown
  equal to division and remainder of the mathematical values.
\<close>

section \<open>Definitions\<close>

text \<open>One iteration on the remaining dividend, the quotient and the remainder.\<close>

definition udivmod_step :: "u64 \<Rightarrow> u64 \<times> u64 \<times> u64 \<Rightarrow> u64 \<times> u64 \<times> u64" where
  "udivmod_step b = (\<lambda>(a, q, r).
     let r = push_bit 1 r OR drop_bit 63 a;
         a = push_bit 1 a;
         q = push_bit 1 q
     in if b \<le> r then (a, q OR 1, r - b) else (a, q, r))"

definition udivmoddi4 :: "u64 \<Rightarrow> u64 \<Rightarrow> u64 \<times> u64" where
  "udivmoddi4 a b = snd ((udivmod_step b ^^ 64) (a, 0, 0))"

definition udivdi3 :: "u64 \<Rightarrow> u64 \<Rightarrow> u64" where
  "udivdi3 a b = fst (udivmoddi4 a b)"

definition umoddi3 :: "u64 \<Rightarrow> u64 \<Rightarrow> u64" where
  "umoddi3 a b = snd (udivmoddi4 a b)"

definition divdi3 :: "u64 \<Rightarrow> u64 \<Rightarrow> u64" where
  "divdi3 a b =
     (let (ua, neg) = (if sint a < 0 then (- a, True) else (a, False));
          (ub, neg) = (if sint b < 0 then (- b, \<not> neg) else (b, neg));
          q = fst (udivmoddi4 ua ub)
      in if neg then - q else q)"

definition moddi3 :: "u64 \<Rightarrow> u64 \<Rightarrow> u64" where
  "moddi3 a b =
     (let (ua, neg) = (if sint a < 0 then (- a, True) else (a, False));
          ub = (if sint b < 0 then - b else b);
          rem = snd (udivmoddi4 ua ub)
      in if neg then - rem else rem)"

section \<open>Long division\<close>

lemma shift_in:
  assumes "unat r < 2 ^ 63" "x = 0 \<or> x = 1"
  shows "unat (push_bit 1 r OR x :: u64) = 2 * unat r + unat x"
proof -
  have e: "push_bit 1 r = 2 * r" by (simp add: push_bit_eq_mult)
  have "push_bit 1 r OR x = 2 * r + x" using assms(2) by (auto simp: e or_one_eq)
  moreover have "unat (2 * r + x) = 2 * unat r + unat x"
    using assms by (auto simp: unat_word_ariths)
  ultimately show ?thesis by simp
qed

lemma u64_bound: "unat (a :: u64) < 2 ^ 64"
  using unsigned_less [of a] by simp

lemma top_bit: "unat (drop_bit 63 a :: u64) = unat a div 2 ^ 63"
  using u64_bound [of a] by (simp only: unsigned_drop_bit_eq) (simp add: drop_bit_eq_div take_bit_eq_mod)

text \<open>After \<open>k\<close> iterations the first \<open>k\<close> bits of the dividend have been divided.\<close>

definition divided :: "u64 \<Rightarrow> u64 \<Rightarrow> nat \<Rightarrow> u64 \<times> u64 \<times> u64 \<Rightarrow> bool" where
  "divided A b k = (\<lambda>(a, q, r).
     unat a = unat A * 2 ^ k mod 2 ^ 64 \<and> unat q = unat A div 2 ^ (64 - k) div unat b \<and>
     unat r = unat A div 2 ^ (64 - k) mod unat b)"

lemma next_prefix:
  assumes "k < 64" "A < 2 ^ 64"
  shows "(A :: nat) div 2 ^ (64 - Suc k) = 2 * (A div 2 ^ (64 - k)) + A * 2 ^ k mod 2 ^ 64 div 2 ^ 63"
proof -
  define n where "n = 63 - k"
  have k: "64 - k = Suc n" "64 - Suc k = n" "63 = n + k" using assms(1) by (simp_all add: n_def)
  have e: "(2 :: nat) ^ 64 = 2 ^ Suc n * 2 ^ k"
    using k(3) by (simp only: power_add [symmetric]) simp
  have "A * 2 ^ k mod 2 ^ 64 = (A mod 2 ^ Suc n) * 2 ^ k" unfolding e by (rule mult_mod_left [symmetric])
  then have "A * 2 ^ k mod 2 ^ 64 div 2 ^ 63 = A mod 2 ^ Suc n div 2 ^ n"
    unfolding k(3) by (simp add: power_add)
  moreover have "A mod 2 ^ Suc n div 2 ^ n = A div 2 ^ n mod 2"
    using mod_mult2_eq [of A "2 ^ n" 2] by (simp add: mult.commute)
  moreover have "A div 2 ^ n = 2 * (A div 2 ^ n div 2) + A div 2 ^ n mod 2" by simp
  moreover have "A div 2 ^ n div 2 = A div 2 ^ Suc n" using div_mult2_eq [of A "2 ^ n" 2] by (simp add: mult.commute)
  ultimately show ?thesis unfolding k(1,2) by simp
qed

lemma div_extend:
  assumes "0 < (b :: nat)" "x \<le> 1"
  shows "(2 * P + x) div b = 2 * (P div b) + (if b \<le> 2 * (P mod b) + x then 1 else 0)"
    "(2 * P + x) mod b = 2 * (P mod b) + x - (if b \<le> 2 * (P mod b) + x then b else 0)"
proof -
  define q r where "q = P div b" and "r = P mod b"
  have d: "q * b + r = P" by (simp add: q_def r_def)
  have P: "2 * P + x = 2 * q * b + (2 * r + x)" unfolding d [symmetric] by (simp add: algebra_simps)
  have r: "2 * r + x < 2 * b" using assms mod_less_divisor [OF assms(1), of P] by (simp add: r_def)
  have a: "(2 * P + x) div b = 2 * q + (2 * r + x) div b" "(2 * P + x) mod b = (2 * r + x) mod b"
    unfolding P using assms(1) by simp_all
  have "y div b = (if b \<le> y then 1 else 0)" "y mod b = y - (if b \<le> y then b else 0)" if "y < 2 * b" for y
    using that by (auto simp: le_div_geq le_mod_geq)
  then show "(2 * P + x) div b = 2 * (P div b) + (if b \<le> 2 * (P mod b) + x then 1 else 0)"
    "(2 * P + x) mod b = 2 * (P mod b) + x - (if b \<le> 2 * (P mod b) + x then b else 0)"
    unfolding q_def [symmetric] r_def [symmetric] a using r by simp_all
qed

lemma divided_step:
  assumes "divided A b k s" "k < 64" "b \<noteq> 0"
  shows "divided A b (Suc k) (udivmod_step b s)"
proof -
  obtain a q r where s: "s = (a, q, r)" by (cases s)
  define P where "P = unat A div 2 ^ (64 - k)"
  have i: "unat a = unat A * 2 ^ k mod 2 ^ 64" "unat q = P div unat b" "unat r = P mod unat b"
    using assms(1) by (simp_all add: divided_def s P_def)
  have b: "0 < unat b" using assms(3) by (simp add: unat_gt_0)
  note A = u64_bound [of A]
  have "(2 :: nat) ^ 64 = 2 ^ k * 2 ^ (64 - k)" using assms(2) by (simp only: power_add [symmetric]) simp
  then have "P < 2 ^ k" using A unfolding P_def by (intro less_mult_imp_div_less) (simp only:)
  moreover have "(2 :: nat) ^ k \<le> 2 ^ 63" using assms(2) by (intro power_increasing) simp_all
  ultimately have P: "P < 2 ^ 63" by (rule less_le_trans)
  let ?x = "drop_bit 63 a"
  have "unat ?x < 2" using u64_bound [of a] unfolding top_bit by (intro less_mult_imp_div_less) simp
  then have x: "?x = 0 \<or> ?x = 1" "unat ?x \<le> 1" by (auto simp: less_2_cases_iff word_unat_eq_iff)
  have P': "unat A div 2 ^ (64 - Suc k) = 2 * P + unat ?x"
    unfolding next_prefix [OF assms(2) A] top_bit i(1) P_def ..
  define R Q Q1 a' where "R = push_bit 1 r OR ?x" and "Q = push_bit 1 q" and "Q1 = push_bit 1 q OR 1" and "a' = push_bit 1 a"
  have r: "unat R = 2 * (P mod unat b) + unat ?x"
    unfolding R_def i(3) [symmetric] using P i(3) by (intro shift_in x(1)) (simp add: le_less_trans [OF mod_less_eq_dividend])
  have q: "unat Q = 2 * (P div unat b)" "unat Q1 = 2 * (P div unat b) + 1"
    using shift_in [of q 0] shift_in [of q 1] P i(2) le_less_trans [OF div_le_dividend P, of "unat b"]
    by (simp_all add: Q_def Q1_def del: push_bit_Suc)
  have a: "unat a' = unat A * 2 ^ Suc k mod 2 ^ 64" unfolding a'_def
    by (simp only: unsigned_push_bit_eq) (simp add: push_bit_eq_mult take_bit_eq_mod i(1) mod_mult_right_eq mult.left_commute mult.commute)
  have "udivmod_step b s = (if b \<le> R then (a', Q1, R - b) else (a', Q, R))"
    by (simp only: s udivmod_step_def prod.case Let_def R_def Q_def Q1_def a'_def)
  then show ?thesis
    unfolding divided_def P' div_extend [OF b x(2)]
    by (simp add: word_le_nat_alt r q a unat_sub)
qed

lemma divided_all: "b \<noteq> 0 \<Longrightarrow> k \<le> 64 \<Longrightarrow> divided A b k ((udivmod_step b ^^ k) (A, 0, 0))"
proof (induction k)
  case 0
  then show ?case using u64_bound [of A] by (simp add: divided_def)
next
  case (Suc k)
  then show ?case using divided_step [of A b k] by simp
qed

lemma udivmoddi4_unat: "b \<noteq> 0 \<Longrightarrow> udivmoddi4 a b = (a div b, a mod b)"
  using divided_all [of b 64 a]
  by (auto simp: divided_def udivmoddi4_def word_unat_eq_iff unat_div_distrib unat_mod_distrib split: prod.splits)

section \<open>Signed operations\<close>

lemma magnitude: "(if sint a < 0 then - a else a) = (word_of_int \<bar>sint a\<bar> :: u64)"
  by (auto simp: abs_if)

lemma magnitude_uint: "uint (word_of_int \<bar>sint a\<bar> :: u64) = \<bar>sint (a :: u64)\<bar>"
proof -
  have "\<bar>sint a\<bar> \<le> 2 ^ 63" using sint_ge [of a] sint_lt [of a] by (simp add: abs_le_iff)
  then show ?thesis by (simp add: unsigned_of_int take_bit_eq_mod)
qed

lemma magnitude_div:
  fixes a b :: u64
  assumes "b \<noteq> 0"
  shows "udivmoddi4 (word_of_int \<bar>sint a\<bar>) (word_of_int \<bar>sint b\<bar>) =
    (word_of_int (\<bar>sint a\<bar> div \<bar>sint b\<bar>), word_of_int (\<bar>sint a\<bar> mod \<bar>sint b\<bar>))"
proof -
  have "word_of_int \<bar>sint b\<bar> \<noteq> (0 :: u64)"
    using magnitude_uint [of b] assms by (auto simp: word_uint_eq_iff [of "word_of_int _"] signed_eq_0_iff)
  then show ?thesis by (simp add: udivmoddi4_unat word_div_def word_mod_def magnitude_uint)
qed

text \<open>
  C29. 64-bit division. For every divisor but zero the software routines compute quotient and remainder of
  the unsigned values; the signed ones compute the quotient rounded toward zero and the remainder with
  the sign of the dividend (reduced to 64 bits, which only matters for the most negative number
  divided by minus one).
\<close>

theorem division_correct:
  fixes a b :: u64
  assumes "b \<noteq> 0"
  shows "udivdi3 a b = a div b \<and> umoddi3 a b = a mod b \<and>
    divdi3 a b = word_of_int (sint a sdiv sint b) \<and> moddi3 a b = word_of_int (sint a smod sint b)"
proof (intro conjI)
  show "udivdi3 a b = a div b" "umoddi3 a b = a mod b"
    using assms by (simp_all add: udivdi3_def umoddi3_def udivmoddi4_unat)
  have "divdi3 a b = (let q = fst (udivmoddi4 (if sint a < 0 then - a else a) (if sint b < 0 then - b else b))
      in if (sint a < 0) \<noteq> (sint b < 0) then - q else q)"
    by (auto simp: divdi3_def Let_def)
  then show "divdi3 a b = word_of_int (sint a sdiv sint b)"
    unfolding magnitude magnitude_div [OF assms] by (auto simp: signed_divide_int_def Let_def sgn_if)
  have "moddi3 a b = (let r = snd (udivmoddi4 (if sint a < 0 then - a else a) (if sint b < 0 then - b else b))
      in if sint a < 0 then - r else r)"
    by (auto simp: moddi3_def Let_def)
  moreover have "sint a smod sint b = sgn (sint a) * (\<bar>sint a\<bar> mod \<bar>sint b\<bar>)"
    by (auto simp: smod_int_alt_def)
  ultimately show "moddi3 a b = word_of_int (sint a smod sint b)"
    unfolding magnitude magnitude_div [OF assms] by (auto simp: Let_def sgn_if)
qed

theorem division_correct_witness:
  "divdi3 (- 7) 2 = - 3 \<and> moddi3 (- 7) 2 = - 1 \<and> udivdi3 0xFFFFFFFFFFFFFFFF 0x8000000000000001 = 1"
  using division_correct [of 2 "- 7"] division_correct [of "0x8000000000000001" "0xFFFFFFFFFFFFFFFF"]
  by (simp add: signed_divide_int_def signed_modulo_int_def)

end
