(* ===== verification/Csort.thy ===== *)
theory Csort
  imports Prelude "HOL-Library.Multiset"
begin

text \<open>
  The sorting routine of the user library (\<^verbatim>\<open>qsort\<close> in \<^verbatim>\<open>user/src/libc.c\<close>). The array is the list of its
  bytes; element \<open>i\<close> is the slice of \<open>size\<close> bytes at \<open>i * size\<close>, and elements are swapped byte by byte, as
  in the source. The comparison function is a parameter. The routine is refined to one on lists of
  elements, which is shown to sort. Positions are natural numbers: the source computes the middle as
  \<^verbatim>\<open>(lo + hi) / 2\<close> in 32 bits, which agrees as long as the array has at most 2147483648 elements.
\<close>

section \<open>Definitions\<close>

definition qsort_swap :: "nat \<Rightarrow> nat \<Rightarrow> nat \<Rightarrow> u8 list \<Rightarrow> u8 list" where
  "qsort_swap a b sz m = fold (\<lambda>i m. m[a + i := m ! (b + i), b + i := m ! (a + i)]) [0..<sz] m"

definition elem_at :: "nat \<Rightarrow> u8 list \<Rightarrow> nat \<Rightarrow> u8 list" where
  "elem_at sz m i = take sz (drop (i * sz) m)"

text \<open>The loop that moves the elements smaller than the pivot to the front; \<open>last\<close> is the last of them.\<close>

definition qsort_partition ::
    "(u8 list \<Rightarrow> u8 list \<Rightarrow> int) \<Rightarrow> nat \<Rightarrow> nat \<Rightarrow> nat \<Rightarrow> u8 list \<Rightarrow> nat \<times> u8 list" where
  "qsort_partition compar sz lo hi m =
     fold (\<lambda>i (lst, m). if compar (elem_at sz m i) (elem_at sz m lo) < 0
             then (lst + 1, qsort_swap ((lst + 1) * sz) (i * sz) sz m) else (lst, m))
       [lo + 1..<hi + 1] (lo, m)"

lemma counter_bounds:
  assumes "\<And>i s. fst (f i s) = fst s \<or> fst (f i s) = fst s + 1"
  shows "fst s \<le> (fst (fold f js s) :: nat) \<and> fst (fold f js s) \<le> fst s + length js"
proof (induction js arbitrary: s)
  case (Cons j js)
  show ?case using Cons.IH [of "f j s"] assms [of j s] by (cases "f j s") auto
qed simp

lemma partition_bounds:
  assumes "lo \<le> hi"
  shows "lo \<le> fst (qsort_partition compar sz lo hi m) \<and> fst (qsort_partition compar sz lo hi m) \<le> hi"
proof -
  let ?f = "\<lambda>i (lst, m). if compar (elem_at sz m i) (elem_at sz m lo) < 0
             then (lst + 1, qsort_swap ((lst + 1) * sz) (i * sz) sz m) else (lst, m)"
  have "fst (?f i s) = fst s \<or> fst (?f i s) = fst s + 1" for i s by (cases s) simp
  from counter_bounds [of ?f "(lo, m)" "[lo + 1..<hi + 1]", OF this] assms show ?thesis
    by (simp add: qsort_partition_def del: upt_Suc)
qed

function qsort_inner :: "(u8 list \<Rightarrow> u8 list \<Rightarrow> int) \<Rightarrow> nat \<Rightarrow> nat \<Rightarrow> nat \<Rightarrow> u8 list \<Rightarrow> u8 list" where
  "qsort_inner compar sz lo hi m =
     (if hi \<le> lo then m
      else let m = qsort_swap (lo * sz) ((lo + hi) div 2 * sz) sz m;
               lst = fst (qsort_partition compar sz lo hi m);
               m = qsort_swap (lo * sz) (lst * sz) sz (snd (qsort_partition compar sz lo hi m));
               m = (if 0 < lst then qsort_inner compar sz lo (lst - 1) m else m)
           in qsort_inner compar sz (lst + 1) hi m)"
  by auto
termination
proof (relation "measure (\<lambda>(_, _, lo, hi, _). hi - lo)", goal_cases)
  case (2 compar sz lo hi m x xa xb)
  then show ?case using partition_bounds [of lo hi compar sz x] by auto
next
  case (3 compar sz lo hi m x xa xb xc)
  then show ?case using partition_bounds [of lo hi compar sz x] by auto
qed simp

declare qsort_inner.simps [simp del]

definition qsort :: "(u8 list \<Rightarrow> u8 list \<Rightarrow> int) \<Rightarrow> nat \<Rightarrow> nat \<Rightarrow> u8 list \<Rightarrow> u8 list" where
  "qsort compar nmemb sz m = (if nmemb \<le> 1 then m else qsort_inner compar sz 0 (nmemb - 1) m)"

section \<open>Elements\<close>

definition elems :: "nat \<Rightarrow> nat \<Rightarrow> u8 list \<Rightarrow> u8 list list" where
  "elems n sz m = map (elem_at sz m) [0..<n]"

lemma length_elems [simp]: "length (elems n sz m) = n"
  by (simp add: elems_def)

lemma nth_elems [simp]: "i < n \<Longrightarrow> elems n sz m ! i = elem_at sz m i"
  by (simp add: elems_def)

lemma length_qsort_swap [simp]: "length (qsort_swap a b sz m) = length m"
proof -
  have "length (fold (\<lambda>i m. m[a + i := m ! (b + i), b + i := m ! (a + i)]) js m) = length m" for js
    by (induction js arbitrary: m) auto
  then show ?thesis by (simp add: qsort_swap_def)
qed

lemma nth_qsort_swap:
  assumes "a = b \<or> a + sz \<le> b \<or> b + sz \<le> a" "a + sz \<le> length m" "b + sz \<le> length m"
  shows "x < length m \<Longrightarrow> qsort_swap a b sz m ! x =
    (if a \<le> x \<and> x < a + sz then m ! (b + (x - a)) else if b \<le> x \<and> x < b + sz then m ! (a + (x - b)) else m ! x)"
  using assms
proof (induction sz arbitrary: x)
  case 0
  then show ?case by (auto simp: qsort_swap_def)
next
  case (Suc k)
  let ?m = "qsort_swap a b k m"
  have IH: "?m ! y = (if a \<le> y \<and> y < a + k then m ! (b + (y - a)) else if b \<le> y \<and> y < b + k then m ! (a + (y - b)) else m ! y)"
    if "y < length m" for y using Suc.IH [OF that] Suc.prems by auto
  have "?m ! (a + k) = m ! (a + k)" "?m ! (b + k) = m ! (b + k)"
    using IH [of "a + k"] IH [of "b + k"] Suc.prems by (auto split: if_splits)
  moreover have "qsort_swap a b (Suc k) m = ?m[a + k := ?m ! (b + k), b + k := ?m ! (a + k)]"
    by (simp add: qsort_swap_def)
  ultimately show ?case
    using IH [of x] Suc.prems by (auto simp: nth_list_update)
qed

lemma nth_elem_at: "x < sz \<Longrightarrow> k * sz + sz \<le> length m \<Longrightarrow> elem_at sz m k ! x = m ! (k * sz + x)"
  by (simp add: elem_at_def)

lemma elem_range: "i < n \<Longrightarrow> i * sz + sz \<le> n * (sz :: nat)"
  using mult_le_mono1 [of "Suc i" n sz] by simp

lemma elems_swap:
  assumes "i < n" "j < n" "length m = n * sz"
  shows "elems n sz (qsort_swap (i * sz) (j * sz) sz m) = (elems n sz m)[i := elem_at sz m j, j := elem_at sz m i]"
proof (rule nth_equalityI)
  fix k assume k: "k < length (elems n sz (qsort_swap (i * sz) (j * sz) sz m))"
  have r: "i * sz + sz \<le> n * sz" "j * sz + sz \<le> n * sz" "k * sz + sz \<le> n * sz"
    using assms k elem_range by auto
  have d: "x * sz + sz \<le> y * sz" if "x < y" for x y using elem_range [OF that] .
  have sep: "i * sz = j * sz \<or> i * sz + sz \<le> j * sz \<or> j * sz + sz \<le> i * sz"
    using d [of i j] d [of j i] by (cases i j rule: linorder_cases) auto
  have "elem_at sz (qsort_swap (i * sz) (j * sz) sz m) k = (if k = j then elem_at sz m i else if k = i then elem_at sz m j else elem_at sz m k)"
  proof (rule nth_equalityI)
    fix x assume "x < length (elem_at sz (qsort_swap (i * sz) (j * sz) sz m) k)"
    then have x: "x < sz" "k * sz + x < length m" using r(3) assms(3) by (auto simp: elem_at_def)
    have in_r: "(y * sz \<le> k * sz + x \<and> k * sz + x < y * sz + sz) = (k = y)" for y
      using d [of k y] d [of y k] x(1) by (cases k y rule: linorder_cases) auto
    have "qsort_swap (i * sz) (j * sz) sz m ! (k * sz + x) =
        (if k = i then m ! (j * sz + (k * sz + x - i * sz)) else if k = j then m ! (i * sz + (k * sz + x - j * sz)) else m ! (k * sz + x))"
      using nth_qsort_swap [OF sep, of m "k * sz + x"] x(2) r assms(3) unfolding in_r by simp
    then show "elem_at sz (qsort_swap (i * sz) (j * sz) sz m) k ! x =
      (if k = j then elem_at sz m i else if k = i then elem_at sz m j else elem_at sz m k) ! x"
      using x r assms(3) by (auto simp: nth_elem_at)
  qed (use r assms in \<open>simp add: elem_at_def\<close>)
  then show "elems n sz (qsort_swap (i * sz) (j * sz) sz m) ! k = (elems n sz m)[i := elem_at sz m j, j := elem_at sz m i] ! k"
    using k assms by (auto simp: nth_list_update)
qed simp

section \<open>Sorting lists of elements\<close>

definition swap_elems :: "nat \<Rightarrow> nat \<Rightarrow> 'a list \<Rightarrow> 'a list" where
  "swap_elems i j xs = xs[i := xs ! j, j := xs ! i]"

definition part_list :: "('a \<Rightarrow> 'a \<Rightarrow> int) \<Rightarrow> nat \<Rightarrow> nat list \<Rightarrow> nat \<times> 'a list \<Rightarrow> nat \<times> 'a list" where
  "part_list c lo js = fold (\<lambda>i (lst, xs). if c (xs ! i) (xs ! lo) < 0 then (lst + 1, swap_elems (lst + 1) i xs) else (lst, xs)) js"

text \<open>Same elements, and the same ones outside \<open>lo..hi\<close>.\<close>

definition permuted :: "nat \<Rightarrow> nat \<Rightarrow> 'a list \<Rightarrow> 'a list \<Rightarrow> bool" where
  "permuted lo hi xs ys \<longleftrightarrow> length ys = length xs \<and> mset ys = mset xs \<and>
     (\<forall>k < length xs. k < lo \<or> hi < k \<longrightarrow> ys ! k = xs ! k)"

lemma permuted_refl [simp]: "permuted lo hi xs xs"
  by (simp add: permuted_def)

lemma permuted_trans [trans]: "permuted lo hi xs ys \<Longrightarrow> permuted lo hi ys zs \<Longrightarrow> permuted lo hi xs zs"
  by (simp add: permuted_def)

lemma permuted_mono: "permuted lo hi xs ys \<Longrightarrow> lo' \<le> lo \<Longrightarrow> hi \<le> hi' \<Longrightarrow> permuted lo' hi' xs ys"
  by (auto simp: permuted_def)

lemma permuted_swap:
  "lo \<le> i \<Longrightarrow> i \<le> hi \<Longrightarrow> lo \<le> j \<Longrightarrow> j \<le> hi \<Longrightarrow> hi < length xs \<Longrightarrow> permuted lo hi xs (swap_elems i j xs)"
  by (auto simp: permuted_def swap_elems_def mset_swap nth_list_update)

lemma mset_split_range:
  assumes "hi < length xs"
  shows "mset xs = image_mset (nth xs) (mset_set {k. k < length xs \<and> (k < lo \<or> hi < k)}) + image_mset (nth xs) (mset_set {lo..hi})"
proof -
  have u: "{..<length xs} = {k. k < length xs \<and> (k < lo \<or> hi < k)} \<union> {lo..hi}" using assms by auto
  have "mset xs = image_mset (nth xs) (mset_set {..<length xs})"
    by (metis map_nth mset_map mset_upt lessThan_atLeast0)
  also have "\<dots> = image_mset (nth xs) (mset_set {k. k < length xs \<and> (k < lo \<or> hi < k)} + mset_set {lo..hi})"
    unfolding u by (subst mset_set_Union) auto
  finally show ?thesis by simp
qed

lemma permuted_all:
  assumes "permuted lo hi xs ys" "hi < length xs" "\<forall>k. lo \<le> k \<and> k \<le> hi \<longrightarrow> P (xs ! k)"
  shows "\<forall>k. lo \<le> k \<and> k \<le> hi \<longrightarrow> P (ys ! k)"
proof -
  have l: "length ys = length xs" using assms(1) by (simp add: permuted_def)
  have "image_mset (nth ys) (mset_set {k. k < length xs \<and> (k < lo \<or> hi < k)}) =
      image_mset (nth xs) (mset_set {k. k < length xs \<and> (k < lo \<or> hi < k)})"
    using assms(1) by (intro image_mset_cong) (auto simp: permuted_def)
  moreover have "mset ys = mset xs" using assms(1) by (simp add: permuted_def)
  ultimately have "image_mset (nth ys) (mset_set {lo..hi}) = image_mset (nth xs) (mset_set {lo..hi})"
    using mset_split_range [OF assms(2), of lo] mset_split_range [of hi ys lo] assms(2) l by simp
  then have "nth ys ` {lo..hi} = nth xs ` {lo..hi}"
    by (metis finite_atLeastAtMost finite_set_mset_mset_set set_image_mset)
  then show ?thesis using assms(3) by (metis atLeastAtMost_iff imageE imageI)
qed

section \<open>Partitioning\<close>

lemma part_list_snoc:
  "part_list c lo (js @ [i]) s = (let (lst, xs) = part_list c lo js s
     in if c (xs ! i) (xs ! lo) < 0 then (lst + 1, swap_elems (lst + 1) i xs) else (lst, xs))"
  by (simp add: part_list_def split: prod.split)

lemma part_list_inv:
  assumes "hi < length xs" "lo < i" "i \<le> hi + 1" "part_list c lo [lo + 1..<i] (lo, xs) = (lst, ys)"
  shows "lo \<le> lst \<and> lst < i \<and> permuted (lo + 1) hi xs ys \<and>
    (\<forall>k. lo < k \<and> k \<le> lst \<longrightarrow> c (ys ! k) (xs ! lo) < 0) \<and> (\<forall>k. lst < k \<and> k < i \<longrightarrow> \<not> c (ys ! k) (xs ! lo) < 0)"
  using assms(2-4)
proof (induction i arbitrary: lst ys)
  case (Suc i)
  show ?case
  proof (cases "i = lo")
    case True
    then show ?thesis using Suc.prems by (simp add: part_list_def)
  next
    case False
    obtain l zs where p: "part_list c lo [lo + 1..<i] (lo, xs) = (l, zs)" by fastforce
    have IH: "lo \<le> l" "l < i" "permuted (lo + 1) hi xs zs" "\<And>k. lo < k \<Longrightarrow> k \<le> l \<Longrightarrow> c (zs ! k) (xs ! lo) < 0"
        "\<And>k. l < k \<Longrightarrow> k < i \<Longrightarrow> \<not> c (zs ! k) (xs ! lo) < 0"
      using Suc.IH [OF _ _ p] Suc.prems False by auto
    have z: "length zs = length xs" "zs ! lo = xs ! lo" using IH(3) assms(1) Suc.prems by (auto simp: permuted_def)
    have i: "i < length zs" "lo < i" "i \<le> hi" using Suc.prems False assms(1) z(1) by auto
    have e: "(lst, ys) = (if c (zs ! i) (xs ! lo) < 0 then (l + 1, swap_elems (l + 1) i zs) else (l, zs))"
      using Suc.prems(3) i(2) p z(2) by (simp add: part_list_snoc)
    show ?thesis
    proof (cases "c (zs ! i) (xs ! lo) < 0")
      case True
      have "permuted (lo + 1) hi zs (swap_elems (l + 1) i zs)"
        using IH(1,2) i assms(1) z(1) by (intro permuted_swap) auto
      then have "permuted (lo + 1) hi xs (swap_elems (l + 1) i zs)" by (rule permuted_trans [OF IH(3)])
      moreover have "swap_elems (l + 1) i zs ! k = (if k = i then zs ! (l + 1) else if k = l + 1 then zs ! i else zs ! k)" if "k \<le> i" for k
        using that i IH(2) by (simp add: swap_elems_def nth_list_update)
      ultimately show ?thesis
        using True e IH(1,2,4) IH(5) i by (auto simp: less_Suc_eq_le le_less_trans)
    next
      case False
      then show ?thesis using e IH by (auto simp: less_Suc_eq)
    qed
  qed
qed simp

lemma partition_refines:
  assumes "length m = n * sz" "lo < n" "\<forall>i \<in> set js. i < n" "l + length js < n"
    and "fold (\<lambda>i (lst, m). if compar (elem_at sz m i) (elem_at sz m lo) < 0
             then (lst + 1, qsort_swap ((lst + 1) * sz) (i * sz) sz m) else (lst, m)) js (l, m) = (lst, m')"
  shows "part_list compar lo js (l, elems n sz m) = (lst, elems n sz m') \<and> length m' = n * sz"
  using assms
proof (induction js arbitrary: l m)
  case (Cons i js)
  let ?b = "compar (elem_at sz m i) (elem_at sz m lo) < 0"
  let ?m = "if ?b then qsort_swap ((l + 1) * sz) (i * sz) sz m else m" and ?l = "if ?b then l + 1 else l"
  have "elems n sz ?m = (if ?b then swap_elems (l + 1) i (elems n sz m) else elems n sz m)"
    using Cons.prems elems_swap [of "l + 1" n i m sz] by (auto simp: swap_elems_def)
  moreover have "length ?m = n * sz" using Cons.prems by simp
  moreover have "part_list compar lo js (?l, elems n sz ?m) = (lst, elems n sz m') \<and> length m' = n * sz"
    using Cons.prems by (intro Cons.IH) auto
  ultimately show ?case
    using Cons.prems(2,3) by (auto simp: part_list_def split: if_splits)
qed (simp add: part_list_def)

lemma qsort_partition_step:
  assumes "length m = n * sz" "lo < hi" "hi < n" "qsort_partition compar sz lo hi m = (lst, m')"
    and "xs = elems n sz m" "ys = elems n sz (qsort_swap (lo * sz) (lst * sz) sz m')"
  shows "lo \<le> lst \<and> lst \<le> hi \<and> length m' = n * sz \<and> permuted lo hi xs ys \<and>
    (\<forall>k. lo \<le> k \<and> k < lst \<longrightarrow> compar (ys ! k) (ys ! lst) < 0) \<and> (\<forall>k. lst < k \<and> k \<le> hi \<longrightarrow> \<not> compar (ys ! k) (ys ! lst) < 0)"
proof -
  let ?zs = "elems n sz m'"
  have p: "part_list compar lo [lo + 1..<hi + 1] (lo, xs) = (lst, ?zs)" "length m' = n * sz"
    using partition_refines [OF assms(1) _ _ _ assms(4) [unfolded qsort_partition_def]] assms(2,3,5) by auto
  have i: "lo \<le> lst" "lst \<le> hi" "permuted (lo + 1) hi xs ?zs" "\<And>k. lo < k \<Longrightarrow> k \<le> lst \<Longrightarrow> compar (?zs ! k) (xs ! lo) < 0"
      "\<And>k. lst < k \<Longrightarrow> k \<le> hi \<Longrightarrow> \<not> compar (?zs ! k) (xs ! lo) < 0"
    using part_list_inv [OF _ _ _ p(1), of hi] assms(2,3,5) by auto
  have lo: "?zs ! lo = xs ! lo" using i(3) assms(2,3,5) by (auto simp: permuted_def)
  have ys: "ys = swap_elems lo lst ?zs"
    using elems_swap [of lo n lst m' sz] p(2) i(2) assms(2,3,6) by (simp add: swap_elems_def)
  have "permuted lo hi ?zs ys" unfolding ys using i(1,2) assms(2,3) by (intro permuted_swap) auto
  moreover have "permuted lo hi xs ?zs" using i(3) by (rule permuted_mono) auto
  moreover have "ys ! k = (if k = lst then xs ! lo else if k = lo then ?zs ! lst else ?zs ! k)" if "k \<le> hi" for k
    using that i(1,2) assms(2,3) lo by (auto simp: ys swap_elems_def nth_list_update)
  ultimately show ?thesis
    using i p(2) permuted_trans [of lo hi xs ?zs ys] by (auto simp: le_less)
qed

section \<open>The result is sorted\<close>

text \<open>What the C standard asks of a comparison function.\<close>

definition comparator :: "('a \<Rightarrow> 'a \<Rightarrow> int) \<Rightarrow> bool" where
  "comparator c \<longleftrightarrow> (\<forall>x y. c x y < 0 \<longleftrightarrow> 0 < c y x) \<and> (\<forall>x y z. c x y \<le> 0 \<longrightarrow> c y z \<le> 0 \<longrightarrow> c x z \<le> 0)"

definition ordered :: "('a \<Rightarrow> 'a \<Rightarrow> int) \<Rightarrow> nat \<Rightarrow> nat \<Rightarrow> 'a list \<Rightarrow> bool" where
  "ordered c lo hi xs \<longleftrightarrow> (\<forall>i j. lo \<le> i \<and> i \<le> j \<and> j \<le> hi \<longrightarrow> c (xs ! i) (xs ! j) \<le> 0)"

lemma comparator_refl:
  assumes "comparator c"
  shows "c x x \<le> 0"
proof -
  have "c x x < 0 \<longleftrightarrow> 0 < c x x" using assms by (simp add: comparator_def)
  then show ?thesis by (cases "c x x" "0 :: int" rule: linorder_cases) auto
qed

lemma comparator_trans: "comparator c \<Longrightarrow> c x y \<le> 0 \<Longrightarrow> c y z \<le> 0 \<Longrightarrow> c x z \<le> 0"
  unfolding comparator_def by blast

lemma comparator_not_less: "comparator c \<Longrightarrow> \<not> c x y < 0 \<Longrightarrow> c y x \<le> 0"
  unfolding comparator_def by (meson not_less)

lemma ordered_single:
  assumes "comparator c" "hi \<le> lo"
  shows "ordered c lo hi xs"
proof -
  have "i = j" if "lo \<le> i" "i \<le> j" "j \<le> hi" for i j using that assms(2) by simp
  then show ?thesis using comparator_refl [OF assms(1)] unfolding ordered_def by metis
qed

lemma ordered_join:
  assumes c: "comparator c" and "lo \<le> p" "p \<le> hi"
    and "0 < p \<Longrightarrow> ordered c lo (p - 1) xs" "ordered c (p + 1) hi xs"
    and below: "\<forall>k. lo \<le> k \<and> k < p \<longrightarrow> c (xs ! k) (xs ! p) \<le> 0"
    and above: "\<forall>k. p < k \<and> k \<le> hi \<longrightarrow> c (xs ! p) (xs ! k) \<le> 0"
  shows "ordered c lo hi xs"
  unfolding ordered_def
proof (intro allI impI)
  fix i j assume ij: "lo \<le> i \<and> i \<le> j \<and> j \<le> hi"
  consider "j < p" | "i < p" "p < j" | "i = p \<or> j = p" | "p < i" using ij by fastforce
  then show "c (xs ! i) (xs ! j) \<le> 0"
  proof cases
    case 1
    then show ?thesis using ij assms(4) by (auto simp: ordered_def)
  next
    case 2
    then show ?thesis using ij below above comparator_trans [OF c, of "xs ! i" "xs ! p" "xs ! j"] by simp
  next
    case 3
    then show ?thesis using ij below above comparator_refl [OF c] by (cases "i = j") (auto simp: le_less)
  next
    case 4
    then show ?thesis using ij assms(5) by (auto simp: ordered_def)
  qed
qed

lemma sorted_halves:
  assumes c: "comparator c" and p: "lo \<le> p" "p \<le> hi" "hi < length xs"
    and below: "\<And>k. lo \<le> k \<Longrightarrow> k < p \<Longrightarrow> c (xs ! k) (xs ! p) < 0"
    and above: "\<And>k. p < k \<Longrightarrow> k \<le> hi \<Longrightarrow> \<not> c (xs ! k) (xs ! p) < 0"
    and left: "if 0 < p then permuted lo (p - 1) xs ys \<and> ordered c lo (p - 1) ys else ys = xs"
    and right: "permuted (p + 1) hi ys zs" "ordered c (p + 1) hi zs"
  shows "permuted lo hi xs zs \<and> ordered c lo hi zs"
proof
  have y: "permuted lo hi xs ys" "length ys = length xs" "ys ! p = xs ! p" "\<And>k. p < k \<Longrightarrow> k \<le> hi \<Longrightarrow> ys ! k = xs ! k"
    using left p permuted_mono [of lo "p - 1" xs ys lo hi] by (auto simp: permuted_def split: if_splits)
  have z: "zs ! k = ys ! k" if "k \<le> p" for k using right(1) that p y(2) by (auto simp: permuted_def)
  have low: "\<forall>k. lo \<le> k \<and> k < p \<longrightarrow> c (ys ! k) (xs ! p) \<le> 0"
  proof (cases "0 < p")
    case True
    then have "\<forall>k. lo \<le> k \<and> k \<le> p - 1 \<longrightarrow> c (ys ! k) (xs ! p) \<le> 0"
      using left p below by (intro permuted_all [of lo "p - 1" xs ys]) (auto simp: less_imp_le)
    then show ?thesis by auto
  qed (use left below p in auto)
  have "\<forall>k. p + 1 \<le> k \<and> k \<le> hi \<longrightarrow> c (xs ! p) (zs ! k) \<le> 0"
    using right(1) p y above by (intro permuted_all [of "p + 1" hi ys zs]) (auto intro: comparator_not_less [OF c])
  moreover have "ordered c lo (p - 1) zs" if "0 < p"
  proof -
    have "zs ! k = ys ! k" if "k \<le> p - 1" for k using z that by auto
    then show ?thesis using left that unfolding ordered_def by auto
  qed
  ultimately show "ordered c lo hi zs"
    using p right(2) low z y(3) by (intro ordered_join [OF c, of lo p hi]) auto
  show "permuted lo hi xs zs" using permuted_trans [OF y(1) permuted_mono [OF right(1)]] p by simp
qed

lemma elems_swap_permuted:
  "lo \<le> i \<Longrightarrow> i \<le> hi \<Longrightarrow> lo \<le> j \<Longrightarrow> j \<le> hi \<Longrightarrow> hi < n \<Longrightarrow> length m = n * sz \<Longrightarrow>
    permuted lo hi (elems n sz m) (elems n sz (qsort_swap (i * sz) (j * sz) sz m))"
  using permuted_swap [of lo i hi j "elems n sz m"] elems_swap [of i n j m sz] by (simp add: swap_elems_def)

lemma qsort_inner_sorts:
  assumes "comparator compar" "length m = n * sz" "hi < n"
  shows "length (qsort_inner compar sz lo hi m) = n * sz \<and>
    permuted lo hi (elems n sz m) (elems n sz (qsort_inner compar sz lo hi m)) \<and>
    ordered compar lo hi (elems n sz (qsort_inner compar sz lo hi m))"
  using assms
proof (induction compar sz lo hi m rule: qsort_inner.induct)
  case (1 compar sz lo hi m)
  note c = 1(3)
  show ?case
  proof (cases "hi \<le> lo")
    case True
    then show ?thesis using 1 ordered_single [OF c True] by (simp add: qsort_inner.simps)
  next
    case False
    define m1 where "m1 = qsort_swap (lo * sz) ((lo + hi) div 2 * sz) sz m"
    obtain p m2 where p: "qsort_partition compar sz lo hi m1 = (p, m2)" by fastforce
    define m3 where "m3 = qsort_swap (lo * sz) (p * sz) sz m2"
    define m4 where "m4 = (if 0 < p then qsort_inner compar sz lo (p - 1) m3 else m3)"
    define m5 where "m5 = qsort_inner compar sz (p + 1) hi m4"
    have q: "qsort_inner compar sz lo hi m = m5"
      using False p by (simp add: qsort_inner.simps [of compar sz lo hi m] m1_def m3_def m4_def m5_def Let_def)
    have l1: "length m1 = n * sz" using 1(4) by (simp add: m1_def)
    have p1: "permuted lo hi (elems n sz m) (elems n sz m1)"
      unfolding m1_def using False 1(4,5) by (intro elems_swap_permuted) auto
    have p3: "lo \<le> p" "p \<le> hi" "length m3 = n * sz" "permuted lo hi (elems n sz m1) (elems n sz m3)"
        "\<And>k. lo \<le> k \<Longrightarrow> k < p \<Longrightarrow> compar (elems n sz m3 ! k) (elems n sz m3 ! p) < 0"
        "\<And>k. p < k \<Longrightarrow> k \<le> hi \<Longrightarrow> \<not> compar (elems n sz m3 ! k) (elems n sz m3 ! p) < 0"
      using qsort_partition_step [OF l1 _ 1(5) p refl refl] False by (auto simp: m3_def)
    have f: "p = fst (qsort_partition compar sz lo hi m1)"
        "m3 = qsort_swap (lo * sz) (p * sz) sz (snd (qsort_partition compar sz lo hi m1))"
      using p by (simp_all add: m3_def)
    have p4: "length m4 = n * sz" "if 0 < p then permuted lo (p - 1) (elems n sz m3) (elems n sz m4) \<and>
        ordered compar lo (p - 1) (elems n sz m4) else elems n sz m4 = elems n sz m3"
      using 1(1) [OF False m1_def f] p3(2,3) c 1(5) by (auto simp: m4_def)
    have p5: "length m5 = n * sz" "permuted (p + 1) hi (elems n sz m4) (elems n sz m5)" "ordered compar (p + 1) hi (elems n sz m5)"
      using 1(2) [OF False m1_def f m4_def] p4(1) c 1(5) by (auto simp: m5_def)
    have "permuted lo hi (elems n sz m3) (elems n sz m5) \<and> ordered compar lo hi (elems n sz m5)"
      using p3 p4(2) p5 1(5) by (intro sorted_halves [OF c, where p = p and ys = "elems n sz m4"]) auto
    then show ?thesis
      unfolding q using permuted_trans [OF p1 permuted_trans [OF p3(4)]] p5(1) by blast
  qed
qed

text \<open>
  C30. \<^verbatim>\<open>qsort\<close> sorts. For every array of \<open>nmemb\<close> elements of \<open>sz\<close> bytes and every comparison function as the
  C standard asks for, the result has the same elements, each as often as before, in ascending order,
  and the number of bytes is unchanged. The recursion ends for every input.
\<close>

theorem qsort_sorts:
  assumes "comparator compar" "length m = nmemb * sz"
    and "xs = elems nmemb sz m" "ys = elems nmemb sz (qsort compar nmemb sz m)"
  shows "mset ys = mset xs \<and> sorted_wrt (\<lambda>x y. compar x y \<le> 0) ys \<and> length (qsort compar nmemb sz m) = length m"
proof (cases "nmemb \<le> 1")
  case True
  then have "nmemb = 0 \<or> nmemb = 1" by auto
  then show ?thesis using True assms(3,4) by (auto simp: qsort_def elems_def)
next
  case False
  then show ?thesis
    using qsort_inner_sorts [of compar m nmemb sz "nmemb - 1" 0] assms
    by (auto simp: qsort_def permuted_def ordered_def sorted_wrt_iff_nth_less simp del: nth_elems)
qed

theorem qsort_sorts_witness:
  "elems 2 1 (qsort (\<lambda>x y. int (unat (hd x)) - int (unat (hd y))) 2 1 [3, 1]) = [[1], [3]]"
proof -
  let ?c = "\<lambda>x y. int (unat (hd x :: u8)) - int (unat (hd y :: u8)) :: int"
  let ?ys = "elems 2 1 (qsort ?c 2 1 [3, 1])"
  have "comparator ?c" by (auto simp: comparator_def)
  moreover have e: "elems 2 1 [3, 1] = [[3], [1 :: u8]]" by (simp add: elems_def elem_at_def numeral_2_eq_2)
  ultimately have m: "mset ?ys = {#[3], [1]#}" and s: "sorted_wrt (\<lambda>x y. ?c x y \<le> 0) ?ys"
    using qsort_sorts [of ?c "[3, 1]" 2 1, OF _ _ refl refl] by simp_all
  have "xs = [xs ! 0, xs ! 1]" if "length xs = 2" for xs :: "u8 list list"
    using that by (cases xs; cases "tl xs") auto
  from this [OF length_elems] obtain a b where ab: "?ys = [a, b]" by blast
  have "a = [3] \<and> b = [1] \<or> a = [1] \<and> b = [3]" using arg_cong [OF m, of set_mset] unfolding ab by (auto simp: doubleton_eq_iff)
  then show ?thesis using s unfolding ab by auto
qed

end
