(* ===== verification/Cstring.thy ===== *)
theory Cstring
  imports Prelude "HOL-Library.Sublist"
begin

text \<open>
  Character classes and string functions of the user library (\<^verbatim>\<open>user/src/libc.c\<close>). Functions that only
  read work on a C string as the list of its bytes before the terminating zero; a pointer result is
  the offset it points to. Functions that write work on the byte memory, with pointers as 32-bit
  addresses; a loop that looks for the terminator of a string is a partial function. \<^verbatim>\<open>char\<close> is signed
  on this target.
\<close>

type_synonym str = "u8 list"

section \<open>Character classes\<close>

definition isalnum :: "int \<Rightarrow> bool" where
  "isalnum c \<longleftrightarrow> 97 \<le> c \<and> c \<le> 122 \<or> 65 \<le> c \<and> c \<le> 90 \<or> 48 \<le> c \<and> c \<le> 57"

definition isalpha :: "int \<Rightarrow> bool" where
  "isalpha c \<longleftrightarrow> 97 \<le> c \<and> c \<le> 122 \<or> 65 \<le> c \<and> c \<le> 90"

definition iscntrl :: "int \<Rightarrow> bool" where
  "iscntrl c \<longleftrightarrow> 0 \<le> c \<and> c \<le> 31 \<or> c = 127"

definition isdigit :: "int \<Rightarrow> bool" where
  "isdigit c \<longleftrightarrow> 48 \<le> c \<and> c \<le> 57"

definition isgraph :: "int \<Rightarrow> bool" where
  "isgraph c \<longleftrightarrow> 32 < c \<and> c < 127"

definition islower :: "int \<Rightarrow> bool" where
  "islower c \<longleftrightarrow> 97 \<le> c \<and> c \<le> 122"

definition isprint :: "int \<Rightarrow> bool" where
  "isprint c \<longleftrightarrow> 32 \<le> c \<and> c < 127"

definition ispunct :: "int \<Rightarrow> bool" where
  "ispunct c \<longleftrightarrow> isgraph c \<and> \<not> isalnum c"

definition isspace :: "int \<Rightarrow> bool" where
  "isspace c \<longleftrightarrow> c = 32 \<or> c = 9 \<or> c = 10 \<or> c = 11 \<or> c = 12 \<or> c = 13"

definition isupper :: "int \<Rightarrow> bool" where
  "isupper c \<longleftrightarrow> 65 \<le> c \<and> c \<le> 90"

definition isxdigit :: "int \<Rightarrow> bool" where
  "isxdigit c \<longleftrightarrow> 48 \<le> c \<and> c \<le> 57 \<or> 97 \<le> c \<and> c \<le> 102 \<or> 65 \<le> c \<and> c \<le> 70"

definition u_tolower :: "int \<Rightarrow> int" where
  "u_tolower c = (if 65 \<le> c \<and> c \<le> 90 then c + 32 else c)"

definition u_toupper :: "int \<Rightarrow> int" where
  "u_toupper c = (if 97 \<le> c \<and> c \<le> 122 then c - 32 else c)"

section \<open>Comparing\<close>

fun u_strlen :: "str \<Rightarrow> u32" where
  "u_strlen [] = 0"
| "u_strlen (_ # s) = 1 + u_strlen s"

fun strnlen :: "str \<Rightarrow> nat \<Rightarrow> nat" where
  "strnlen (a # s) (Suc maxlen) = 1 + strnlen s maxlen"
| "strnlen _ _ = 0"

fun u_strcmp :: "str \<Rightarrow> str \<Rightarrow> int" where
  "u_strcmp (a # s) (b # t) = (if a = b then u_strcmp s t else sint a - sint b)"
| "u_strcmp (a # s) [] = sint a - 0"
| "u_strcmp [] (b # t) = 0 - sint b"
| "u_strcmp [] [] = 0"

fun u_strncmp :: "str \<Rightarrow> str \<Rightarrow> nat \<Rightarrow> int" where
  "u_strncmp s t 0 = 0"
| "u_strncmp (a # s) (b # t) (Suc n) = (if a \<noteq> b then sint a - sint b else u_strncmp s t n)"
| "u_strncmp (a # s) [] (Suc n) = sint a - 0"
| "u_strncmp [] (b # t) (Suc n) = 0 - sint b"
| "u_strncmp [] [] (Suc n) = 0"

fun u_strcasecmp :: "str \<Rightarrow> str \<Rightarrow> int" where
  "u_strcasecmp (a # s) (b # t) =
     (if u_tolower (sint a) = u_tolower (sint b) then u_strcasecmp s t else u_tolower (sint a) - u_tolower (sint b))"
| "u_strcasecmp (a # s) [] = u_tolower (sint a) - u_tolower 0"
| "u_strcasecmp [] (b # t) = u_tolower 0 - u_tolower (sint b)"
| "u_strcasecmp [] [] = 0"

fun u_strncasecmp :: "str \<Rightarrow> str \<Rightarrow> nat \<Rightarrow> int" where
  "u_strncasecmp s t 0 = 0"
| "u_strncasecmp [] [] (Suc n) = 0"
| "u_strncasecmp (a # s) (b # t) (Suc n) =
     (let c1 = u_tolower (sint a); c2 = u_tolower (sint b) in if c1 \<noteq> c2 then c1 - c2 else u_strncasecmp s t n)"
| "u_strncasecmp (a # s) [] (Suc n) = u_tolower (sint a) - u_tolower 0"
| "u_strncasecmp [] (b # t) (Suc n) = u_tolower 0 - u_tolower (sint b)"

definition strcoll :: "str \<Rightarrow> str \<Rightarrow> int" where
  "strcoll s t = u_strcmp s t"

fun memcmp :: "u8 list \<Rightarrow> u8 list \<Rightarrow> nat \<Rightarrow> int" where
  "memcmp (a # p) (b # q) (Suc n) = (if a \<noteq> b then int (unat a) - int (unat b) else memcmp p q n)"
| "memcmp _ _ _ = 0"

section \<open>Searching\<close>

fun memchr :: "u8 list \<Rightarrow> int \<Rightarrow> nat \<Rightarrow> nat \<Rightarrow> nat option" where
  "memchr (a # p) c (Suc n) k = (if a = word_of_int c then Some k else memchr p c n (k + 1))"
| "memchr _ _ _ _ = None"

fun strchr_from :: "nat \<Rightarrow> str \<Rightarrow> int \<Rightarrow> nat option" where
  "strchr_from k [] c = (if c = 0 then Some k else None)"
| "strchr_from k (a # s) c = (if a = word_of_int c then Some k else strchr_from (k + 1) s c)"

definition strchr :: "str \<Rightarrow> int \<Rightarrow> nat option" where
  "strchr s c = strchr_from 0 s c"

fun strrchr_from :: "nat \<Rightarrow> nat option \<Rightarrow> str \<Rightarrow> int \<Rightarrow> nat option" where
  "strrchr_from k lst [] c = (if c = 0 then Some k else lst)"
| "strrchr_from k lst (a # s) c = strrchr_from (k + 1) (if a = word_of_int c then Some k else lst) s c"

definition strrchr :: "str \<Rightarrow> int \<Rightarrow> nat option" where
  "strrchr s c = strrchr_from 0 None s c"

text \<open>The inner loop of \<^verbatim>\<open>strstr\<close>: whether it stops at the end of the needle.\<close>

fun strstr_match :: "str \<Rightarrow> str \<Rightarrow> bool" where
  "strstr_match h [] = True"
| "strstr_match [] (b # n) = False"
| "strstr_match (a # h) (b # n) = (if a = b then strstr_match h n else False)"

fun strstr_from :: "nat \<Rightarrow> str \<Rightarrow> str \<Rightarrow> nat option" where
  "strstr_from k [] needle = None"
| "strstr_from k (a # h) needle = (if strstr_match (a # h) needle then Some k else strstr_from (k + 1) h needle)"

definition strstr :: "str \<Rightarrow> str \<Rightarrow> nat option" where
  "strstr haystack needle = (if needle = [] then Some 0 else strstr_from 0 haystack needle)"

text \<open>The loop over the set of characters shared by the next functions.\<close>

fun in_set :: "u8 \<Rightarrow> str \<Rightarrow> bool" where
  "in_set c [] = False"
| "in_set c (a # as) = (if c = a then True else in_set c as)"

fun strpbrk_from :: "nat \<Rightarrow> str \<Rightarrow> str \<Rightarrow> nat option" where
  "strpbrk_from k [] accept = None"
| "strpbrk_from k (a # s) accept = (if in_set a accept then Some k else strpbrk_from (k + 1) s accept)"

definition strpbrk :: "str \<Rightarrow> str \<Rightarrow> nat option" where
  "strpbrk s accept = strpbrk_from 0 s accept"

fun strspn :: "str \<Rightarrow> str \<Rightarrow> nat" where
  "strspn [] accept = 0"
| "strspn (a # s) accept = (if \<not> in_set a accept then 0 else 1 + strspn s accept)"

fun strcspn :: "str \<Rightarrow> str \<Rightarrow> nat" where
  "strcspn [] reject = 0"
| "strcspn (a # s) reject = (if in_set a reject then 0 else 1 + strcspn s reject)"

text \<open>The token \<^verbatim>\<open>strsep\<close> returns and what \<^verbatim>\<open>*stringp\<close> points to afterwards.\<close>

fun strsep_scan :: "str \<Rightarrow> str \<Rightarrow> str \<times> str option" where
  "strsep_scan [] delim = ([], None)"
| "strsep_scan (a # s) delim = (if in_set a delim then ([], Some s) else apfst ((#) a) (strsep_scan s delim))"

definition strsep :: "str option \<Rightarrow> str \<Rightarrow> str option \<times> str option" where
  "strsep stringp delim = (case stringp of None \<Rightarrow> (None, None) | Some s \<Rightarrow> apfst Some (strsep_scan s delim))"

definition strerror :: "int \<Rightarrow> string" where
  "strerror errnum =
     (if errnum = 33 then ''Domain error''
      else if errnum = 34 then ''Range error''
      else if errnum = 22 then ''Invalid argument''
      else if errnum = 2 then ''No such file or directory''
      else if errnum = 13 then ''Permission denied''
      else if errnum = 12 then ''Out of memory''
      else ''Unknown error'')"

section \<open>Writing to memory\<close>

fun u_memcpy :: "memory \<Rightarrow> u32 \<Rightarrow> u32 \<Rightarrow> nat \<Rightarrow> memory" where
  "u_memcpy m d s 0 = m"
| "u_memcpy m d s (Suc n) = u_memcpy (m(d := m s)) (d + 1) (s + 1) n"

fun u_memset :: "memory \<Rightarrow> u32 \<Rightarrow> int \<Rightarrow> nat \<Rightarrow> memory" where
  "u_memset m p v 0 = m"
| "u_memset m p v (Suc n) = u_memset (m(p := word_of_int v)) (p + 1) v n"

definition bzero :: "memory \<Rightarrow> u32 \<Rightarrow> nat \<Rightarrow> memory" where
  "bzero m s n = u_memset m s 0 n"

fun memmove_down :: "memory \<Rightarrow> u32 \<Rightarrow> u32 \<Rightarrow> nat \<Rightarrow> memory" where
  "memmove_down m d s 0 = m"
| "memmove_down m d s (Suc i) = memmove_down (m(d + of_nat i := m (s + of_nat i))) d s i"

definition memmove :: "memory \<Rightarrow> u32 \<Rightarrow> u32 \<Rightarrow> nat \<Rightarrow> memory" where
  "memmove m d s n = (if d < s then u_memcpy m d s n else if s < d then memmove_down m d s n else m)"

text \<open>Copies up to the terminator; the result is the memory and the address of the terminator written.\<close>

partial_function (option) copy_str :: "memory \<Rightarrow> u32 \<Rightarrow> u32 \<Rightarrow> (memory \<times> u32) option" where
  "copy_str m d s = (if m s = 0 then Some (m(d := 0), d) else copy_str (m(d := m s)) (d + 1) (s + 1))"

definition strcpy :: "memory \<Rightarrow> u32 \<Rightarrow> u32 \<Rightarrow> memory option" where
  "strcpy m dst src = map_option fst (copy_str m dst src)"

definition stpcpy :: "memory \<Rightarrow> u32 \<Rightarrow> u32 \<Rightarrow> (memory \<times> u32) option" where
  "stpcpy m dst src = copy_str m dst src"

fun strncpy :: "memory \<Rightarrow> u32 \<Rightarrow> u32 \<Rightarrow> nat \<Rightarrow> memory" where
  "strncpy m d s 0 = m"
| "strncpy m d s (Suc n) =
     (if m s = 0 then u_memset m d 0 (Suc n) else strncpy (m(d := m s)) (d + 1) (s + 1) n)"

partial_function (option) str_end :: "memory \<Rightarrow> u32 \<Rightarrow> u32 option" where
  "str_end m d = (if m d = 0 then Some d else str_end m (d + 1))"

definition strcat :: "memory \<Rightarrow> u32 \<Rightarrow> u32 \<Rightarrow> memory option" where
  "strcat m dst src = do { d \<leftarrow> str_end m dst; (m, _) \<leftarrow> copy_str m d src; Some m }"

section \<open>Overlapping moves\<close>

lemma unat_off: "unat p + k < 4294967296 \<Longrightarrow> unat (p + of_nat k :: u32) = unat p + k"
  by (simp add: unat_word_ariths unsigned_of_nat take_bit_eq_mod)

lemma unat_diff: "unat d \<le> unat x \<Longrightarrow> unat (x - d :: u32) = unat x - unat d"
  by (simp add: unat_sub_u32)

lemma unat_shift:
  "unat d \<le> unat x \<Longrightarrow> unat s + (unat x - unat d) < 4294967296 \<Longrightarrow> unat (s + (x - d) :: u32) = unat s + (unat x - unat d)"
  by (subst unat_add_u32) (simp_all add: unat_diff)

lemma memmove_down_at:
  assumes "unat s < unat d" "unat d + n \<le> 4294967296"
  shows "memmove_down m d s n x = (if unat d \<le> unat x \<and> unat x < unat d + n then m (s + (x - d)) else m x)"
  using assms(2)
proof (induction n arbitrary: m)
  case (Suc n)
  let ?m = "m(d + of_nat n := m (s + of_nat n))"
  have n: "unat (d + of_nat n) = unat d + n" using Suc.prems by (intro unat_off) simp
  have IH: "memmove_down m d s (Suc n) x = (if unat d \<le> unat x \<and> unat x < unat d + n then ?m (s + (x - d)) else ?m x)"
    using Suc by simp
  show ?case
  proof (cases "unat d \<le> unat x \<and> unat x < unat d + n")
    case True
    then have "unat (s + (x - d)) = unat s + (unat x - unat d)" using assms(1) Suc.prems by (intro unat_shift) auto
    then have "unat (s + (x - d)) \<noteq> unat (d + of_nat n)" using True assms(1) unfolding n by linarith
    then have "s + (x - d) \<noteq> d + of_nat n" by metis
    then show ?thesis using IH True by simp
  next
    case False
    have "x = d + of_nat n \<longleftrightarrow> unat x = unat d + n" using n by (auto simp: word_unat_eq_iff)
    moreover have "s + (x - d) = s + of_nat n" if "x = d + of_nat n" using that by simp
    ultimately show ?thesis unfolding IH using False by auto
  qed
qed auto

lemma memcpy_up_at:
  assumes "unat d < unat s" "unat s + n \<le> 4294967296"
  shows "u_memcpy m d s n x = (if unat d \<le> unat x \<and> unat x < unat d + n then m (s + (x - d)) else m x)"
  using assms
proof (induction n arbitrary: m d s)
  case (Suc n)
  define m1 where "m1 = m(d := m s)"
  have d1: "unat (d + 1) = unat d + 1" using Suc.prems by (simp add: unat_word_ariths)
  show ?case
  proof (cases "n = 0")
    case True
    have "x = d \<longleftrightarrow> unat x = unat d" by (simp add: word_unat_eq_iff)
    then show ?thesis using True by (auto simp: less_Suc_eq)
  next
    case False
    then have s1: "unat (s + 1) = unat s + 1" using Suc.prems by (simp add: unat_word_ariths)
    have e: "s + 1 + (x - (d + 1)) = s + (x - d)" by simp
    have IH: "u_memcpy m d s (Suc n) x =
        (if unat d + 1 \<le> unat x \<and> unat x < unat d + 1 + n then m1 (s + (x - d)) else m1 x)"
      using Suc.IH [of "d + 1" "s + 1" m1, unfolded d1 s1 e] Suc.prems by (simp add: m1_def [symmetric])
    have ne: "s + (x - d) \<noteq> d" if "unat d \<le> unat x" "unat x < unat d + 1 + n"
    proof -
      have "unat (s + (x - d)) \<noteq> unat d" using that Suc.prems unat_shift [of d x s] by linarith
      then show ?thesis by metis
    qed
    have upd: "m1 (s + (x - d)) = m (s + (x - d))" if "unat d + 1 \<le> unat x \<and> unat x < unat d + 1 + n"
      using ne that by (simp only: m1_def fun_upd_apply) simp
    have xd: "x = d \<longleftrightarrow> unat x = unat d" by (simp add: word_unat_eq_iff)
    show ?thesis
    proof (cases "unat d + 1 \<le> unat x \<and> unat x < unat d + 1 + n")
      case True
      then show ?thesis unfolding IH if_P [OF True] upd [OF True] by auto
    next
      case False
      then have "(unat d \<le> unat x \<and> unat x < unat d + Suc n) = (x = d)" unfolding xd by auto
      then show ?thesis unfolding IH if_not_P [OF False] by (auto simp: m1_def)
    qed
  qed
qed auto

text \<open>
  C31. \<^verbatim>\<open>memmove\<close> on overlapping blocks. Wherever source and destination lie in the address space, and
  however they overlap, the destination gets the bytes the source had before the call and no other
  byte changes.
\<close>

theorem memmove_correct:
  assumes "unat d + n \<le> 4294967296" "unat s + n \<le> 4294967296"
  shows "memmove m d s n x = (if unat d \<le> unat x \<and> unat x < unat d + n then m (s + (x - d)) else m x)"
proof -
  have "d < s \<longleftrightarrow> unat d < unat s" "s < d \<longleftrightarrow> unat s < unat d" by (simp_all add: word_less_nat_alt)
  moreover have "d = s" if "\<not> unat d < unat s" "\<not> unat s < unat d" using that by (simp add: word_unat_eq_iff)
  ultimately show ?thesis
    unfolding memmove_def using memmove_down_at [of s d n m x] memcpy_up_at [of d s n m x] assms by auto
qed

theorem memmove_correct_witness: "memmove (\<lambda>a. ucast a) 12 10 4 14 = 12"
  using memmove_correct [of 12 4 10 "\<lambda>a. ucast a" 14] by simp

section \<open>Copying strings\<close>

definition cstr_at :: "memory \<Rightarrow> u32 \<Rightarrow> str \<Rightarrow> bool" where
  "cstr_at m p s \<longleftrightarrow> unat p + length s < 4294967296 \<and> 0 \<notin> set s \<and>
     (\<forall>i < length s. m (p + of_nat i) = s ! i) \<and> m (p + of_nat (length s)) = 0"

lemma cstr_at_Nil: "cstr_at m p [] \<longleftrightarrow> m p = 0"
  by (auto simp: cstr_at_def)

lemma cstr_at_Cons:
  "cstr_at m p (a # s) \<longleftrightarrow> a \<noteq> 0 \<and> m p = a \<and> unat p + 1 < 4294967296 \<and> cstr_at m (p + 1) s"
proof (cases "unat p + 1 < 4294967296")
  case True
  then have p: "unat (p + 1) = unat p + 1" by (simp add: unat_word_ariths)
  have "(\<forall>i < Suc (length s). m (p + of_nat i) = (a # s) ! i) \<longleftrightarrow> m p = a \<and> (\<forall>i < length s. m (p + 1 + of_nat i) = s ! i)"
    unfolding All_less_Suc2 by (simp add: add.assoc)
  then show ?thesis using True p by (auto simp: cstr_at_def ac_simps)
next
  case False
  then show ?thesis by (auto simp: cstr_at_def)
qed

lemma cstr_at_cong:
  "cstr_at m p s \<Longrightarrow> (\<And>x. unat p \<le> unat x \<Longrightarrow> unat x \<le> unat p + length s \<Longrightarrow> m' x = m x) \<Longrightarrow> cstr_at m' p s"
  unfolding cstr_at_def using unat_off [of p] by auto

lemma copy_str_correct:
  assumes "cstr_at m src s" "unat dst + length s < 4294967296"
    and "unat dst + length s < unat src \<or> unat src + length s < unat dst"
  shows "\<exists>m'. copy_str m dst src = Some (m', dst + of_nat (length s)) \<and> cstr_at m' dst s \<and>
    (\<forall>x. unat x < unat dst \<or> unat dst + length s < unat x \<longrightarrow> m' x = m x)"
  using assms
proof (induction s arbitrary: m dst src)
  case Nil
  then have "copy_str m dst src = Some (m(dst := 0), dst)"
    by (subst copy_str.simps) (simp add: cstr_at_Nil)
  then show ?case by (auto simp: cstr_at_Nil)
next
  case (Cons a s)
  define m1 where "m1 = m(dst := a)"
  have c: "a \<noteq> 0" "m src = a" "cstr_at m (src + 1) s" "unat src + 1 < 4294967296"
    using Cons.prems(1) by (auto simp: cstr_at_Cons)
  have u: "unat (dst + 1) = unat dst + 1" "unat (src + 1) = unat src + 1"
    using Cons.prems(2) c(4) by (simp_all add: unat_word_ariths)
  have "cstr_at m1 (src + 1) s"
    using c(3) by (rule cstr_at_cong) (use Cons.prems(3) u in \<open>auto simp: m1_def\<close>)
  then obtain m' where m': "copy_str m1 (dst + 1) (src + 1) = Some (m', dst + 1 + of_nat (length s))" "cstr_at m' (dst + 1) s"
      "\<forall>x. unat x < unat dst + 1 \<or> unat dst + 1 + length s < unat x \<longrightarrow> m' x = m1 x"
    using Cons.IH [of m1 "src + 1" "dst + 1", unfolded u] Cons.prems(2,3) by auto
  have "copy_str m dst src = Some (m', dst + of_nat (length (a # s)))"
    using m'(1) c by (subst copy_str.simps) (simp add: add.assoc m1_def)
  moreover have "cstr_at m' dst (a # s)" using m'(2) spec [OF m'(3), of dst] c Cons.prems(2) by (simp add: cstr_at_Cons m1_def)
  moreover have "m' x = m x" if "unat x < unat dst \<or> unat dst + length (a # s) < unat x" for x
    using spec [OF m'(3), of x] that by (auto simp: m1_def)
  ultimately show ?case by blast
qed

lemma str_end_correct: "cstr_at m p s \<Longrightarrow> str_end m p = Some (p + of_nat (length s))"
proof (induction s arbitrary: p)
  case Nil
  then show ?case by (subst str_end.simps) (simp add: cstr_at_Nil)
next
  case (Cons a s)
  then show ?case by (subst str_end.simps) (simp add: cstr_at_Cons add.assoc)
qed

lemma cstr_at_append:
  assumes "unat p + length a + length b < 4294967296" "0 \<notin> set a" "\<forall>i < length a. m (p + of_nat i) = a ! i"
    "cstr_at m (p + of_nat (length a)) b"
  shows "cstr_at m p (a @ b)"
proof -
  have "m (p + of_nat i) = b ! (i - length a)" if "\<not> i < length a" "i < length a + length b" for i
  proof -
    have "p + of_nat i = p + of_nat (length a) + of_nat (i - length a)" using that by (simp add: of_nat_diff)
    with that show ?thesis using assms(4) unfolding cstr_at_def by (simp only:)
  qed
  then show ?thesis using assms by (auto simp: cstr_at_def nth_append add.assoc)
qed

text \<open>
  C32. \<^verbatim>\<open>strcat\<close> appends. When the two strings and the room behind the first do not overlap, the call
  returns, the destination holds the two strings one after the other, and nothing outside the room
  changes.
\<close>

theorem strcat_correct:
  assumes "cstr_at m dst a" "cstr_at m src b" "unat dst + length a + length b < 4294967296"
    and "unat dst + length a + length b < unat src \<or> unat src + length b < unat dst"
  shows "\<exists>m'. strcat m dst src = Some m' \<and> cstr_at m' dst (a @ b) \<and>
    (\<forall>x. unat x < unat dst \<or> unat dst + length a + length b < unat x \<longrightarrow> m' x = m x)"
proof -
  let ?d = "dst + of_nat (length a)"
  have d: "unat ?d = unat dst + length a" using assms(3) by (intro unat_off) simp
  obtain m' where m': "copy_str m ?d src = Some (m', ?d + of_nat (length b))" "cstr_at m' ?d b"
      "\<forall>x. unat x < unat ?d \<or> unat ?d + length b < unat x \<longrightarrow> m' x = m x"
    using copy_str_correct [OF assms(2), of ?d] assms(3,4) d by auto
  have "m' (dst + of_nat i) = a ! i" if "i < length a" for i
    using spec [OF m'(3), of "dst + of_nat i"] that assms(1,3) unat_off [of dst i] by (simp add: d cstr_at_def)
  then have "cstr_at m' dst (a @ b)"
    using assms(1,3) m'(2) by (intro cstr_at_append) (auto simp: cstr_at_def)
  then show ?thesis using m' str_end_correct [OF assms(1)] d by (auto simp: strcat_def)
qed

theorem strcat_correct_witness:
  "\<exists>m'. strcat (\<lambda>a. if a = 10 then 104 else if a = 20 then 105 else 0) 10 20 = Some m' \<and> cstr_at m' 10 [104, 105]"
  using strcat_correct [of "\<lambda>a. if a = 10 then 104 else if a = 20 then 105 else 0" 10 "[104]" 20 "[105]"]
  by (auto simp: cstr_at_def)

section \<open>What the searches find\<close>

lemma in_set_iff [simp]: "in_set c s \<longleftrightarrow> c \<in> set s"
  by (induction s) auto

lemma strstr_match_prefix: "strstr_match h n \<longleftrightarrow> prefix n h"
  by (induction h n rule: strstr_match.induct) auto

lemma strstr_from_Some:
  "strstr_from k h n = Some i \<Longrightarrow> \<exists>j. i = k + j \<and> prefix n (drop j h) \<and> (\<forall>l < j. \<not> prefix n (drop l h))"
proof (induction h arbitrary: k)
  case (Cons a h)
  show ?case
  proof (cases "prefix n (a # h)")
    case True
    then show ?thesis using Cons.prems by (auto simp: strstr_match_prefix)
  next
    case False
    then have "strstr_from (k + 1) h n = Some i" using Cons.prems by (simp add: strstr_match_prefix)
    from Cons.IH [OF this] obtain j where j: "i = k + 1 + j" "prefix n (drop j h)" "\<forall>l < j. \<not> prefix n (drop l h)"
      by blast
    then have "\<forall>l < Suc j. \<not> prefix n (drop l (a # h))" using False by (auto simp: less_Suc_eq_0_disj)
    with j show ?thesis by (intro exI [of _ "Suc j"]) simp
  qed
qed simp

lemma strstr_from_None: "n \<noteq> [] \<Longrightarrow> strstr_from k h n = None \<Longrightarrow> \<not> sublist n h"
  by (induction h arbitrary: k) (auto simp: strstr_match_prefix sublist_Cons_right split: if_splits)

lemma strpbrk_from_spec:
  "strpbrk_from k s a = (if strcspn s a < length s then Some (k + strcspn s a) else None)"
  by (induction s arbitrary: k) auto

lemma strsep_scan_spec:
  "strsep_scan s d = (takeWhile (\<lambda>c. c \<notin> set d) s,
     case dropWhile (\<lambda>c. c \<notin> set d) s of [] \<Rightarrow> None | _ # r \<Rightarrow> Some r)"
  by (induction s) auto

lemma u_strcmp_eq: "0 \<notin> set s \<Longrightarrow> 0 \<notin> set t \<Longrightarrow> u_strcmp s t = 0 \<longleftrightarrow> s = t"
proof (induction s t rule: u_strcmp.induct)
  case (1 a s b t)
  have "word_of_int (sint x) = x" for x :: u8 by simp
  then have "sint a = sint b \<longleftrightarrow> a = b" by metis
  then show ?case using 1 by auto
qed (auto simp: signed_eq_0_iff)

text \<open>
  C33. The reading functions compute what their names say: \<^verbatim>\<open>strstr\<close> finds the first occurrence and fails
  only when there is none; \<^verbatim>\<open>strspn\<close> and \<^verbatim>\<open>strcspn\<close> measure the longest prefix inside and outside the set;
  \<^verbatim>\<open>strpbrk\<close> points at the first character of the set; \<^verbatim>\<open>strsep\<close> splits at the first delimiter;
  \<^verbatim>\<open>strcmp\<close> returns zero exactly for equal strings.
\<close>

theorem string_functions:
  "(case strstr h n of Some k \<Rightarrow> prefix n (drop k h) \<and> (\<forall>j < k. \<not> prefix n (drop j h)) | None \<Rightarrow> \<not> sublist n h) \<and>
   strspn s a = length (takeWhile (\<lambda>c. c \<in> set a) s) \<and> strcspn s a = length (takeWhile (\<lambda>c. c \<notin> set a) s) \<and>
   strpbrk s a = (if strcspn s a < length s then Some (strcspn s a) else None) \<and>
   strsep (Some s) a = (Some (takeWhile (\<lambda>c. c \<notin> set a) s),
     case dropWhile (\<lambda>c. c \<notin> set a) s of [] \<Rightarrow> None | _ # r \<Rightarrow> Some r) \<and>
   (0 \<notin> set s \<and> 0 \<notin> set h \<longrightarrow> (u_strcmp s h = 0) = (s = h))"
proof (intro conjI)
  show "case strstr h n of Some k \<Rightarrow> prefix n (drop k h) \<and> (\<forall>j < k. \<not> prefix n (drop j h)) | None \<Rightarrow> \<not> sublist n h"
    using strstr_from_Some [of 0 h n] strstr_from_None [of n 0 h] by (auto simp: strstr_def split: option.split)
  show "strspn s a = length (takeWhile (\<lambda>c. c \<in> set a) s)" "strcspn s a = length (takeWhile (\<lambda>c. c \<notin> set a) s)"
    by (induction s) auto
qed (auto simp: strpbrk_def strpbrk_from_spec strsep_def strsep_scan_spec u_strcmp_eq)

theorem string_functions_witness: "u_strcmp [97, 98] [97, 98] = 0 \<and> strstr [97, 98, 97, 98, 99] [97, 98, 99] = Some 2"
  using string_functions [where s = "[97, 98]" and h = "[97, 98]" and n = "[98]" and a = "[]"]
  by (simp add: strstr_def)

end
