(* ===== verification/Cnum.thy ===== *)
theory Cnum
  imports Cstring
begin

text \<open>
  Numbers, allocation and formatted output of the user library (\<^verbatim>\<open>user/src/libc.c\<close>): \<^verbatim>\<open>rand\<close>, the bump
  allocator behind \<^verbatim>\<open>malloc\<close>, \<^verbatim>\<open>strtol\<close> and \<^verbatim>\<open>strtoul\<close>, and the \<^verbatim>\<open>printf\<close> family. \<^verbatim>\<open>int\<close> and \<^verbatim>\<open>long\<close> are 32-bit
  words. Arguments of a variadic call are a list; a result \<open>None\<close> means that the call leaves defined
  behaviour: an argument of another kind than the format asks for, a format that is read past its
  terminator, or a write past a buffer. Signed arithmetic that overflows is the exception: the negation of
  the smallest \<^verbatim>\<open>int\<close> in \<^verbatim>\<open>__print_int\<close> and the sums of \<^verbatim>\<open>strtol\<close>, for which the C standard fixes no result, wrap
  round here as the 32-bit instructions of the processor do. A \<^verbatim>\<open>double\<close> is its 64 bits; the arithmetic of the processor on
  doubles is a parameter. Widths and precisions are unbounded.
\<close>

section \<open>Random numbers and allocation\<close>

record libc_t =
  seed :: u32
  heap_base :: u32
  heap_used :: u32
  umem :: memory

definition u_abs :: "u32 \<Rightarrow> u32" where
  "u_abs x = (if sint x < 0 then - x else x)"

definition rand :: "'a libc_t_scheme \<Rightarrow> u32 \<times> 'a libc_t_scheme" where
  "rand s = (let v = seed s * 1103515245 + 12345 in (drop_bit 16 v AND 0x7fff, s\<lparr>seed := v\<rparr>))"

definition srand :: "u32 \<Rightarrow> 'a libc_t_scheme \<Rightarrow> 'a libc_t_scheme" where
  "srand v s = s\<lparr>seed := v\<rparr>"

definition malloc :: "u32 \<Rightarrow> 'a libc_t_scheme \<Rightarrow> u32 \<times> 'a libc_t_scheme" where
  "malloc sz s =
     (if 65536 \<le> heap_used s + sz then (0, s)
      else (heap_base s + heap_used s, s\<lparr>heap_used := heap_used s + sz\<rparr>))"

definition calloc :: "u32 \<Rightarrow> u32 \<Rightarrow> 'a libc_t_scheme \<Rightarrow> u32 \<times> 'a libc_t_scheme" where
  "calloc num sz s =
     (let total = num * sz; (ptr, s) = malloc total s
      in (ptr, if ptr \<noteq> 0 then s\<lparr>umem := u_memset (umem s) ptr 0 (unat total)\<rparr> else s))"

definition realloc :: "u32 \<Rightarrow> u32 \<Rightarrow> 'a libc_t_scheme \<Rightarrow> u32 \<times> 'a libc_t_scheme" where
  "realloc ptr sz s =
     (if ptr = 0 then malloc sz s
      else let (new_ptr, s) = malloc sz s
           in (new_ptr, if new_ptr \<noteq> 0
                then s\<lparr>umem := u_memcpy (umem s) new_ptr ptr (unat (if sz < heap_used s then sz else heap_used s))\<rparr>
                else s))"

definition free :: "u32 \<Rightarrow> 'a libc_t_scheme \<Rightarrow> 'a libc_t_scheme" where
  "free ptr s = s"

section \<open>Reading numbers\<close>

definition digit_value :: "u8 \<Rightarrow> int option" where
  "digit_value c =
     (let c = sint c in
      if 48 \<le> c \<and> c \<le> 57 then Some (c - 48)
      else if 97 \<le> c \<and> c \<le> 102 then Some (c - 97 + 10)
      else if 65 \<le> c \<and> c \<le> 70 then Some (c - 65 + 10)
      else None)"

fun strtol_digits :: "int \<Rightarrow> str \<Rightarrow> u32 \<Rightarrow> u32 \<times> str" where
  "strtol_digits base [] r = (r, [])"
| "strtol_digits base (c # s) r =
     (case digit_value c of
        None \<Rightarrow> (r, c # s)
      | Some d \<Rightarrow> if base \<le> d then (r, c # s) else strtol_digits base s (r * word_of_int base + word_of_int d))"

text \<open>The base that is used, and the string behind the prefix.\<close>

definition is_x :: "str \<Rightarrow> bool" where
  "is_x s \<longleftrightarrow> (case s of [] \<Rightarrow> False | c # _ \<Rightarrow> c = 120 \<or> c = 88)"

definition strtol_base :: "int \<Rightarrow> str \<Rightarrow> int \<times> str" where
  "strtol_base base s =
     (if base = 0
      then (case s of
              [] \<Rightarrow> (10, s)
            | c # t \<Rightarrow> if c = 48 then (if is_x t then (16, tl t) else (8, t)) else (10, s))
      else if base = 16
      then (case s of
              [] \<Rightarrow> (16, s)
            | c # t \<Rightarrow> if c = 48 \<and> is_x t then (16, tl t) else (16, s))
      else (base, s))"

definition skip_space :: "str \<Rightarrow> str" where
  "skip_space s = dropWhile (\<lambda>c. isspace (sint c)) s"

text \<open>The number and the rest of the string, to which \<^verbatim>\<open>endptr\<close> points.\<close>

definition strtol :: "str \<Rightarrow> int \<Rightarrow> u32 \<times> str" where
  "strtol nptr base =
     (let s = skip_space nptr;
          (neg, s) = (case s of
             [] \<Rightarrow> (False, s)
           | c # t \<Rightarrow> if c = 45 then (True, t) else if c = 43 then (False, t) else (False, s));
          (base, s) = strtol_base base s;
          (r, rest) = strtol_digits base s 0
      in (if neg then - r else r, rest))"

definition strtoul :: "str \<Rightarrow> int \<Rightarrow> u32 \<times> str" where
  "strtoul nptr base =
     (let s = skip_space nptr;
          s = (case s of [] \<Rightarrow> s | c # t \<Rightarrow> if c = 43 then t else s);
          (base, s) = strtol_base base s
      in strtol_digits base s 0)"

definition atoi :: "str \<Rightarrow> u32" where
  "atoi nptr = fst (strtol nptr 10)"

definition atol :: "str \<Rightarrow> u32" where
  "atol nptr = fst (strtol nptr 10)"

section \<open>Writing numbers\<close>

text \<open>
  The text so far is a list whose length is \<^verbatim>\<open>*pos\<close>; \<open>nn\<close> says that the destination is not null.
\<close>

definition print_char :: "bool \<Rightarrow> nat \<Rightarrow> u8 \<Rightarrow> u8 list \<Rightarrow> u8 list" where
  "print_char nn mx c out = (if nn \<and> length out < mx then out @ [c] else out)"

definition print_str :: "bool \<Rightarrow> nat \<Rightarrow> str \<Rightarrow> u8 list \<Rightarrow> u8 list" where
  "print_str nn mx s out = fold (print_char nn mx) s out"

definition base_of :: "bool \<Rightarrow> u32" where
  "base_of hex = (if hex then 16 else 10)"

definition digit_char :: "bool \<Rightarrow> u32 \<Rightarrow> u8" where
  "digit_char upper d = (if d < 10 then 48 + ucast d else (if upper then 65 else 97) + ucast d - 10)"

text \<open>The digits as the loop collects them, the least significant first.\<close>

function num_digits :: "bool \<Rightarrow> bool \<Rightarrow> u32 \<Rightarrow> u8 list" where
  "num_digits hex upper v =
     (if v = 0 then [] else digit_char upper (v mod base_of hex) # num_digits hex upper (v div base_of hex))"
  by auto
termination
  by (relation "measure (\<lambda>(_, _, v). unat v)")
    (auto simp: base_of_def unat_div_distrib intro!: div_less_dividend simp flip: unat_gt_0)

declare num_digits.simps [simp del]

text \<open>The digits in the order in which they are printed.\<close>

definition num_text :: "bool \<Rightarrow> bool \<Rightarrow> u32 \<Rightarrow> str" where
  "num_text hex upper v = rev (if v = 0 then [48] else num_digits hex upper v)"

definition print_unsigned :: "bool \<Rightarrow> nat \<Rightarrow> u32 \<Rightarrow> bool \<Rightarrow> bool \<Rightarrow> u8 list \<Rightarrow> u8 list" where
  "print_unsigned nn mx v hex upper out =
     print_str nn mx (num_text hex upper v) out"

definition print_int :: "bool \<Rightarrow> nat \<Rightarrow> u32 \<Rightarrow> u8 list \<Rightarrow> u8 list" where
  "print_int nn mx v out =
     (if sint v < 0 then print_unsigned nn mx (- v) False False (print_char nn mx 45 out)
      else print_unsigned nn mx v False False out)"

section \<open>Doubles\<close>

record fp =
  f_lt :: "u64 \<Rightarrow> u64 \<Rightarrow> bool"
  f_neg :: "u64 \<Rightarrow> u64"
  f_sub :: "u64 \<Rightarrow> u64 \<Rightarrow> u64"
  f_mul :: "u64 \<Rightarrow> u64 \<Rightarrow> u64"
  f_to_u64 :: "u64 \<Rightarrow> u64"
  f_to_int :: "u64 \<Rightarrow> u32"
  f_of_u64 :: "u64 \<Rightarrow> u64"
  f_of_int :: "u32 \<Rightarrow> u64"

text \<open>The bits of \<open>10.0\<close>; those of \<open>0.0\<close> are all zero.\<close>

definition f_ten :: u64 where
  "f_ten = 0x4024000000000000"

text \<open>The loop over the fraction, and whether a digit was not zero.\<close>

fun frac_digits :: "fp \<Rightarrow> bool \<Rightarrow> nat \<Rightarrow> nat \<Rightarrow> u64 \<Rightarrow> bool \<Rightarrow> u8 list \<Rightarrow> bool \<times> u8 list" where
  "frac_digits F nn mx 0 frac any_nonzero out = (any_nonzero, out)"
| "frac_digits F nn mx (Suc n) frac any_nonzero out =
     (let frac = f_mul F frac f_ten;
          d = f_to_int F frac
      in frac_digits F nn mx n (f_sub F frac (f_of_int F d)) (any_nonzero \<or> d \<noteq> 0) (print_char nn mx (48 + ucast d) out))"

definition print_double_f :: "fp \<Rightarrow> bool \<Rightarrow> nat \<Rightarrow> u64 \<Rightarrow> int \<Rightarrow> u8 list \<Rightarrow> u8 list" where
  "print_double_f F nn mx val precision out =
     (let precision = (if precision < 0 then 6 else precision);
          (val, out) = (if f_lt F val 0 then (f_neg F val, print_char nn mx 45 out) else (val, out));
          int_part = f_to_u64 F val;
          out = print_unsigned nn mx (ucast int_part) False False out
      in if 0 < precision
         then snd (frac_digits F nn mx (nat precision) (f_sub F val (f_of_u64 F int_part)) False (print_char nn mx 46 out))
         else out)"

text \<open>Zeros behind position \<open>n\<close> are taken off the end.\<close>

function strip_zeros :: "nat \<Rightarrow> u8 list \<Rightarrow> u8 list" where
  "strip_zeros n out = (if n < length out \<and> last out = 48 then strip_zeros n (butlast out) else out)"
  by auto
termination by (relation "measure (\<lambda>(_, out). length out)") auto

declare strip_zeros.simps [simp del]

definition print_double_g :: "fp \<Rightarrow> bool \<Rightarrow> nat \<Rightarrow> u64 \<Rightarrow> int \<Rightarrow> u8 list \<Rightarrow> u8 list" where
  "print_double_g F nn mx val precision out =
     (let precision = (if precision < 0 then 6 else precision);
          (val, out) = (if f_lt F val 0 then (f_neg F val, print_char nn mx 45 out) else (val, out));
          int_part = f_to_u64 F val;
          out = print_unsigned nn mx (ucast int_part) False False out;
          dot_pos = length out
      in if 0 < precision
         then let (any_nonzero, out) = frac_digits F nn mx (nat precision) (f_sub F val (f_of_u64 F int_part)) False
                    (print_char nn mx 46 out)
              in if \<not> any_nonzero then take dot_pos out
                 else if nn then strip_zeros (dot_pos + 1) out else out
         else out)"

section \<open>Formats\<close>

datatype arg = AInt u32 | AStr "str option" | ADouble u64

text \<open>Flags, width, precision and length modifiers: the precision and the rest of the format.\<close>

definition drop_if :: "u8 \<Rightarrow> str \<Rightarrow> str" where
  "drop_if c f = (case f of [] \<Rightarrow> f | a # g \<Rightarrow> if a = c then g else f)"

abbreviation is_dig :: "u8 \<Rightarrow> bool" where
  "is_dig c \<equiv> 48 \<le> sint c \<and> sint c \<le> 57"

definition parse_spec :: "str \<Rightarrow> int \<times> str" where
  "parse_spec f =
     (let f = dropWhile is_dig (drop_if 48 (drop_if 45 f));
          (precision, f) = (case f of
             [] \<Rightarrow> (- 1, f)
           | a # g \<Rightarrow> if a = 46 then (foldl (\<lambda>p c. p * 10 + (sint c - 48)) 0 (takeWhile is_dig g), dropWhile is_dig g)
                      else (- 1, f))
      in (precision, drop_if 122 (drop_if 108 f)))"

text \<open>
  One conversion. \<open>dbl\<close> says which letters besides \<open>f\<close> are conversions of doubles.
\<close>

definition convert ::
    "u8 list \<Rightarrow> fp \<Rightarrow> bool \<Rightarrow> nat \<Rightarrow> int \<Rightarrow> u8 \<Rightarrow> arg list \<Rightarrow> u8 list \<Rightarrow>
      (arg list \<times> u8 list) option" where
  "convert dbl F nn mx precision k args out =
     (if k = 100 \<or> k = 105 then (case args of AInt v # as \<Rightarrow> Some (as, print_int nn mx v out) | _ \<Rightarrow> None)
      else if k = 117 then (case args of AInt v # as \<Rightarrow> Some (as, print_unsigned nn mx v False False out) | _ \<Rightarrow> None)
      else if k = 120 then (case args of AInt v # as \<Rightarrow> Some (as, print_unsigned nn mx v True False out) | _ \<Rightarrow> None)
      else if k = 88 then (case args of AInt v # as \<Rightarrow> Some (as, print_unsigned nn mx v True True out) | _ \<Rightarrow> None)
      else if k = 112
      then (case args of AInt v # as \<Rightarrow> Some (as, print_unsigned nn mx v True False (print_str nn mx [48, 120] out)) | _ \<Rightarrow> None)
      else if k = 115
      then (case args of
              AStr s # as \<Rightarrow> Some (as, print_str nn mx (case s of None \<Rightarrow> [40, 110, 117, 108, 108, 41] | Some s \<Rightarrow> s) out)
            | _ \<Rightarrow> None)
      else if k = 99 then (case args of AInt v # as \<Rightarrow> Some (as, print_char nn mx (ucast v) out) | _ \<Rightarrow> None)
      else if k = 102 then (case args of ADouble d # as \<Rightarrow> Some (as, print_double_f F nn mx d precision out) | _ \<Rightarrow> None)
      else if k \<in> set dbl then (case args of ADouble d # as \<Rightarrow> Some (as, print_double_g F nn mx d precision out) | _ \<Rightarrow> None)
      else if k = 37 then Some (args, print_char nn mx 37 out)
      else Some (args, out))"

lemma length_drop_if: "length (drop_if c f) \<le> length f"
  by (cases f) (auto simp: drop_if_def)

lemma length_dropWhile: "length (dropWhile P f) \<le> length f"
  by (induction f) auto

lemma parse_spec_shorter: "length (snd (parse_spec f)) \<le> length f"
proof -
  define g where "g = dropWhile is_dig (drop_if 48 (drop_if 45 f))"
  define h where "h = (case g of [] \<Rightarrow> g | a # r \<Rightarrow> if a = 46 then dropWhile is_dig r else g)"
  have "length g \<le> length (drop_if 48 (drop_if 45 f))" unfolding g_def by (rule length_dropWhile)
  also have "\<dots> \<le> length f" using length_drop_if le_trans by blast
  finally have "length g \<le> length f" .
  moreover have "length h \<le> length g"
    using length_dropWhile [of is_dig "tl g"] by (cases g) (auto simp: h_def)
  moreover have "length (drop_if 122 (drop_if 108 h)) \<le> length h" using length_drop_if le_trans by blast
  moreover have "snd (parse_spec f) = drop_if 122 (drop_if 108 h)"
    unfolding parse_spec_def Let_def g_def [symmetric] h_def by (simp split: list.split)
  ultimately show ?thesis by simp
qed

text \<open>The main loop of \<^verbatim>\<open>vsnprintf\<close>. A format that ends inside a conversion is read past its end.\<close>

function vsn_loop ::
    "fp \<Rightarrow> bool \<Rightarrow> nat \<Rightarrow> str \<Rightarrow> arg list \<Rightarrow> u8 list \<Rightarrow> u8 list option" where
  "vsn_loop F nn mx [] args out = Some out"
| "vsn_loop F nn mx (c # f) args out =
     (if c \<noteq> 37 then vsn_loop F nn mx f args (print_char nn mx c out)
      else case snd (parse_spec f) of
        [] \<Rightarrow> None
      | k # g \<Rightarrow> do { (args, out) \<leftarrow> convert [101, 69, 103, 71] F nn mx (fst (parse_spec f)) k args out;
                    vsn_loop F nn mx g args out })"
  by pat_completeness auto
termination
proof (relation "measure (\<lambda>(_, _, _, f, _). length f)", goal_cases)
  case (3 F nn mx c f args out k g)
  then show ?case using parse_spec_shorter [of f] by simp
qed simp_all

text \<open>
  The return value and the bytes stored in the destination, the terminator included. A size of zero
  stores nothing.
\<close>

definition vsnprintf ::
    "fp \<Rightarrow> bool \<Rightarrow> nat \<Rightarrow> str \<Rightarrow> arg list \<Rightarrow> (nat \<times> u8 list) option" where
  "vsnprintf F nn sz format args =
     do { out \<leftarrow> vsn_loop F nn sz format args [];
          Some (length out,
            if nn \<and> length out < sz then out @ [0]
            else if nn \<and> 0 < sz then out[sz - 1 := 0] else out) }"

definition snprintf ::
    "fp \<Rightarrow> bool \<Rightarrow> nat \<Rightarrow> str \<Rightarrow> arg list \<Rightarrow> (nat \<times> u8 list) option" where
  "snprintf F nn sz format args = vsnprintf F nn sz format args"

definition sprintf ::
    "fp \<Rightarrow> bool \<Rightarrow> str \<Rightarrow> arg list \<Rightarrow> (nat \<times> u8 list) option" where
  "sprintf F nn format args = vsnprintf F nn 0xFFFFFFFF format args"

text \<open>
  The loop behind \<^verbatim>\<open>fprintf\<close>: text collects in a buffer of 4096 bytes, and the chunks handed to \<^verbatim>\<open>fwrite\<close>
  are collected in order. Literal characters are stored without a check of the position.
\<close>

function vfprintf_loop ::
    "fp \<Rightarrow> str \<Rightarrow> arg list \<Rightarrow> u8 list \<Rightarrow> u8 list list \<Rightarrow> u8 list list option" where
  "vfprintf_loop F [] args buf chunks = Some (if 0 < length buf then chunks @ [buf] else chunks)"
| "vfprintf_loop F (c # f) args buf chunks =
     (if c \<noteq> 37
      then if 4096 \<le> length buf then None
           else if 4096 - 8 \<le> length buf + 1 then vfprintf_loop F f args [] (chunks @ [buf @ [c]])
           else vfprintf_loop F f args (buf @ [c]) chunks
      else case snd (parse_spec f) of
        [] \<Rightarrow> None
      | k # g \<Rightarrow> do { (args, buf) \<leftarrow> convert [103, 71] F True 4096 (fst (parse_spec f)) k args buf;
                    vfprintf_loop F g args buf chunks })"
  by pat_completeness auto
termination
proof (relation "measure (\<lambda>(_, f, _). length f)", goal_cases)
  case (4 F c f args buf chunks k g)
  then show ?case using parse_spec_shorter [of f] by simp
qed simp_all

definition vfprintf_chunks ::
    "fp \<Rightarrow> str \<Rightarrow> arg list \<Rightarrow> u8 list list option" where
  "vfprintf_chunks F format args = vfprintf_loop F format args [] []"

section \<open>What was printed is read back\<close>

lemma print_str_take: "length out \<le> mx \<Longrightarrow> print_str True mx s out = take mx (out @ s)"
proof (induction s arbitrary: out)
  case Nil
  then show ?case by (simp add: print_str_def)
next
  case (Cons c s)
  then show ?case
    using Cons.IH [of "print_char True mx c out"] by (cases "length out < mx") (auto simp: print_str_def print_char_def)
qed

lemma digit_value_char:
  assumes "d < 16"
  shows "digit_value (digit_char up d) = Some (uint d)"
proof -
  have "unat d < 16" using assms by (simp add: word_less_nat_alt)
  then have "unat d \<in> set [0..<16]" by simp
  moreover have "d = word_of_nat (unat d)" by simp
  ultimately have "d \<in> set (map word_of_nat [0..<16])" by (metis imageI set_map)
  then show ?thesis
    by (cases up) (auto simp: upt_rec digit_value_def digit_char_def)
qed

lemma base_of_cases: "base_of hex = 16 \<or> base_of hex = 10"
  by (simp add: base_of_def)

lemma strtol_digits_back:
  assumes "base = uint (base_of hex)"
  shows "strtol_digits base (rev (num_digits hex up v) @ rest) 0 = strtol_digits base rest v"
  using assms
proof (induction hex up v arbitrary: rest rule: num_digits.induct)
  case (1 hex up v)
  let ?b = "base_of hex"
  have b: "v mod ?b < ?b" "?b \<le> 16" using base_of_cases [of hex] by (auto simp: word_mod_less_divisor)
  then have "v mod ?b < 16" by order
  then have "digit_value (digit_char up (v mod ?b)) = Some (uint (v mod ?b))" by (rule digit_value_char)
  moreover have "uint (v mod ?b) < uint ?b" using b(1) by (simp add: word_less_def)
  moreover have "v div ?b * word_of_int (uint ?b) + word_of_int (uint (v mod ?b)) = v" by (simp add: div_mult_mod_eq)
  ultimately show ?case using 1 by (subst num_digits.simps) (auto simp del: word_of_int_uint)
qed

lemma num_digits_length: "unat v < unat (base_of hex) ^ k \<Longrightarrow> length (num_digits hex up v) \<le> k"
proof (induction k arbitrary: v)
  case 0
  then have "v = 0" by (simp add: unat_eq_0)
  then show ?case by (simp add: num_digits.simps)
next
  case (Suc k)
  have "0 < unat (base_of hex)" by (simp add: base_of_def)
  then have "unat (v div base_of hex) < unat (base_of hex) ^ k"
    using Suc.prems by (simp add: unat_div_distrib less_mult_imp_div_less mult.commute)
  from Suc.IH [OF this] show ?case by (subst num_digits.simps) simp
qed

lemma num_text_length: "length (num_text hex up v) \<le> (if hex then 8 else 10)"
proof -
  have "unat v < 4294967296" using unsigned_less [where w = v and 'a = nat] by simp
  then have "unat v < 10000000000" by (rule less_trans) simp
  then have "unat v < unat (base_of hex) ^ (if hex then 8 else 10)" by (simp add: base_of_def)
  then show ?thesis using num_digits_length [of v hex "if hex then 8 else 10" up] by (cases hex) (simp_all add: num_text_def)
qed

lemma num_digits_chars: "c \<in> set (num_digits hex up v) \<Longrightarrow> \<exists>d < 16. c = digit_char up d"
proof (induction hex up v rule: num_digits.induct)
  case (1 hex up v)
  have "v mod base_of hex < base_of hex" "base_of hex \<le> 16"
    using base_of_cases [of hex] by (auto simp: word_mod_less_divisor)
  then have "v mod base_of hex < 16" by order
  then show ?case using 1 by (subst (asm) num_digits.simps) (auto split: if_splits)
qed

lemma digit_char_class:
  assumes "d < 16" "c = digit_char up d"
  shows "c \<noteq> 45 \<and> c \<noteq> 43 \<and> c \<noteq> 120 \<and> c \<noteq> 88 \<and> \<not> isspace (sint c)"
proof -
  have "digit_value c = Some (uint d)" using assms digit_value_char by simp
  then show ?thesis by (auto simp: digit_value_def isspace_def Let_def split: if_splits)
qed

lemma num_text_class:
  assumes "c \<in> set (num_text hex up v)"
  shows "c \<noteq> 45 \<and> c \<noteq> 43 \<and> c \<noteq> 120 \<and> c \<noteq> 88 \<and> \<not> isspace (sint c)"
proof -
  have "48 = digit_char up 0" by (simp add: digit_char_def)
  then have "\<exists>d < 16. c = digit_char up d"
    using assms num_digits_chars [of c hex up v] unfolding num_text_def
    by (cases "v = 0") (auto intro!: exI [of _ 0])
  then show ?thesis using digit_char_class by blast
qed

lemma num_text_digits: "strtol_digits (if hex then 16 else 10) (num_text hex up v) 0 = (v, [])"
  using strtol_digits_back [of "if hex then 16 else 10" hex up v "[]"] by (auto simp: base_of_def digit_value_def num_text_def)

lemma num_text_Cons: "\<exists>c s. num_text hex up v = c # s"
  using neq_Nil_conv [of "num_text hex up v"] by (auto simp: num_text_def num_digits.simps [of _ _ v])

lemma strtol_base_text: "strtol_base (if hex then 16 else 10) (num_text hex up v) = (if hex then 16 else 10, num_text hex up v)"
proof -
  obtain c s where e: "num_text hex up v = c # s" using num_text_Cons by blast
  have "\<not> is_x s" using num_text_class [of _ hex up v] unfolding e by (auto simp: is_x_def split: list.split)
  then show ?thesis unfolding e by (simp add: strtol_base_def)
qed

lemma strtoul_text: "strtoul (num_text hex up v) (if hex then 16 else 10) = (v, [])"
proof -
  obtain c s where e: "num_text hex up v = c # s" using num_text_Cons by blast
  have "c \<noteq> 43" "\<not> isspace (sint c)" using num_text_class [of c hex up v] unfolding e by simp_all
  then show ?thesis
    using strtol_base_text [of hex up v] num_text_digits [of hex up v] unfolding e strtoul_def skip_space_def by simp
qed

lemma strtol_text: "strtol (num_text False up v) 10 = (v, []) \<and> strtol (45 # num_text False up v) 10 = (- v, [])"
proof -
  obtain c s where e: "num_text False up v = c # s" using num_text_Cons by blast
  have "c \<noteq> 43" "c \<noteq> 45" "\<not> isspace (sint c)" using num_text_class [of c False up v] unfolding e by simp_all
  moreover have "\<not> isspace 45" by (simp add: isspace_def)
  ultimately show ?thesis
    using strtol_base_text [of False up v] num_text_digits [of False up v] unfolding e strtol_def skip_space_def by simp
qed

lemma snprintf_one:
  assumes "convert [101, 69, 103, 71] F True sz (- 1) k [AInt v] [] = Some ([], t)" "length t < sz" "k \<in> {100, 112, 117, 120}"
  shows "snprintf F True sz [37, k] [AInt v] = Some (length t, t @ [0])"
proof -
  have "parse_spec [k] = (- 1, [k])" using assms(3) by (auto simp: parse_spec_def drop_if_def)
  then show ?thesis using assms(1,2) by (simp add: snprintf_def vsnprintf_def)
qed

text \<open>
  C34. What \<^verbatim>\<open>snprintf\<close> prints with \<^verbatim>\<open>%d\<close>, \<^verbatim>\<open>%u\<close>, \<^verbatim>\<open>%x\<close> and \<^verbatim>\<open>%p\<close> into a buffer of at least twelve bytes is
  read back by \<^verbatim>\<open>strtol\<close> and \<^verbatim>\<open>strtoul\<close>: the same number, and the whole text is consumed. For the smallest
  \<^verbatim>\<open>int\<close> this holds as signed arithmetic wraps round.
\<close>

theorem print_parse_roundtrip:
  assumes "12 \<le> sz"
  shows "\<exists>d u x p. snprintf F True sz [37, 100] [AInt v] = Some (length d, d @ [0]) \<and> strtol d 10 = (v, []) \<and>
    snprintf F True sz [37, 117] [AInt v] = Some (length u, u @ [0]) \<and> strtoul u 10 = (v, []) \<and>
    snprintf F True sz [37, 120] [AInt v] = Some (length x, x @ [0]) \<and> strtoul x 16 = (v, []) \<and>
    snprintf F True sz [37, 112] [AInt v] = Some (length p, p @ [0]) \<and> strtoul p 0 = (v, []) \<and> strtoul p 16 = (v, [])"
proof -
  define u x where "u = num_text False False v" and "x = num_text True False v"
  have l: "length (num_text False False w) \<le> 10" "length x \<le> 8" for w
    using num_text_length [of False False w] num_text_length [of True False v] by (simp_all add: x_def)
  have prt: "print_unsigned True sz w h False out = out @ num_text h False w"
    if "length out + length (num_text h False w) \<le> sz" for w h out
    using that unfolding print_unsigned_def by (subst print_str_take) auto
  define d where "d = (if sint v < 0 then 45 # num_text False False (- v) else num_text False False v)"
  have ld: "length d < sz" "length u < sz" "length x + 2 < sz"
    using l(1) [of v] l(1) [of "- v"] l(2) assms unfolding d_def u_def by simp_all
  have pd: "print_int True sz v [] = d"
    using prt [of "[]" False v] prt [of "[45]" False "- v"] ld(1)
    unfolding print_int_def print_char_def d_def by (cases "sint v < 0") simp_all
  have pu: "print_unsigned True sz v False False [] = u" "print_unsigned True sz v True False [] = x"
      "print_unsigned True sz v True False (print_str True sz [48, 120] []) = [48, 120] @ x"
    using prt [of "[]" False v] prt [of "[]" True v] prt [of "[48, 120]" True v] ld
    by (simp_all add: u_def x_def print_str_take)
  have "strtoul (48 # 120 # x) b = (v, [])" if "b = 0 \<or> b = 16" for b
    using num_text_digits [of True False v] that
    by (auto simp: strtoul_def skip_space_def isspace_def strtol_base_def is_x_def x_def)
  moreover have "strtol d 10 = (v, [])" using strtol_text unfolding d_def by simp
  moreover have "strtoul u 10 = (v, [])" "strtoul x 16 = (v, [])"
    using strtoul_text [of False False v] strtoul_text [of True False v] unfolding u_def x_def by simp_all
  ultimately show ?thesis
    using ld by (intro exI [of _ d] exI [of _ u] exI [of _ x] exI [of _ "[48, 120] @ x"] conjI snprintf_one)
      (simp_all add: convert_def pd pu)
qed

theorem print_parse_roundtrip_witness:
  "\<exists>d. snprintf \<lparr>f_lt = \<lambda>_ _. False, f_neg = id, f_sub = (-), f_mul = (*), f_to_u64 = id, f_to_int = ucast, f_of_u64 = id,
      f_of_int = ucast\<rparr> True 12 [37, 100] [AInt (- 2147483648)] = Some (length d, d @ [0]) \<and> strtol d 10 = (- 2147483648, [])"
  using print_parse_roundtrip [of 12 _ "- 2147483648"] by blast

section \<open>Formatted output against its specification\<close>

text \<open>
  The text that a conversion stands for, and the text of a whole format, with no limit on its length. The
  specification divides a format into conversions as the code does (\<open>parse_spec\<close>); what it leaves out is the
  buffer, its limit and the position in it.
\<close>

definition int_text :: "u32 \<Rightarrow> str" where
  "int_text v = (if sint v < 0 then 45 # num_text False False (- v) else num_text False False v)"

definition conv_text :: "u8 list \<Rightarrow> u8 \<Rightarrow> arg list \<Rightarrow> (arg list \<times> str) option" where
  "conv_text dbl k args =
     (if k \<in> {100, 105, 117, 120, 88, 112, 99}
      then (case args of
              AInt v # as \<Rightarrow> Some (as,
                if k = 100 \<or> k = 105 then int_text v
                else if k = 117 then num_text False False v
                else if k = 120 then num_text True False v
                else if k = 88 then num_text True True v
                else if k = 112 then [48, 120] @ num_text True False v
                else [ucast v])
            | _ \<Rightarrow> None)
      else if k = 115
      then (case args of
              AStr s # as \<Rightarrow> Some (as, case s of None \<Rightarrow> [40, 110, 117, 108, 108, 41] | Some s \<Rightarrow> s)
            | _ \<Rightarrow> None)
      else if k = 102 \<or> k \<in> set dbl then None
      else if k = 37 then Some (args, [37])
      else Some (args, []))"

function render :: "u8 list \<Rightarrow> str \<Rightarrow> arg list \<Rightarrow> str option" where
  "render dbl [] args = Some []"
| "render dbl (c # f) args =
     (if c \<noteq> 37 then map_option ((#) c) (render dbl f args)
      else case snd (parse_spec f) of
        [] \<Rightarrow> None
      | k # g \<Rightarrow> do { (args, t) \<leftarrow> conv_text dbl k args; map_option ((@) t) (render dbl g args) })"
  by pat_completeness auto
termination
proof (relation "measure (\<lambda>(_, f, _). length f)", goal_cases)
  case (3 dbl c f args k g)
  then show ?case using parse_spec_shorter [of f] by simp
qed simp_all

abbreviation no_double :: "arg list \<Rightarrow> bool" where
  "no_double args \<equiv> \<forall>d. ADouble d \<notin> set args"

text \<open>Text put into a buffer of \<open>mx\<close> bytes.\<close>

definition put :: "nat \<Rightarrow> u8 list \<Rightarrow> str \<Rightarrow> u8 list" where
  "put mx out t = take mx (out @ t)"

lemma put_put: "put mx (put mx out s) t = put mx out (s @ t)"
  by (cases "length (out @ s) \<le> mx") (auto simp: put_def min_def)

lemma put_length: "length (put mx out t) \<le> mx"
  by (simp add: put_def [abs_def])

lemma print_char_put: "length out \<le> mx \<Longrightarrow> print_char True mx c out = put mx out [c]"
  by (auto simp: print_char_def put_def)

lemma print_str_put: "length out \<le> mx \<Longrightarrow> print_str True mx s out = put mx out s"
  by (simp add: put_def print_str_take)

lemma print_unsigned_put: "length out \<le> mx \<Longrightarrow> print_unsigned True mx v h u out = put mx out (num_text h u v)"
  by (simp add: print_unsigned_def print_str_put)

lemma print_int_put: "length out \<le> mx \<Longrightarrow> print_int True mx v out = put mx out (int_text v)"
  by (simp add: print_int_def int_text_def print_char_put print_unsigned_put put_put put_length)

lemmas print_put = print_char_put print_str_put print_unsigned_put print_int_put put_put put_length

lemma convert_text:
  assumes "length out \<le> mx" "no_double args"
  shows "convert dbl F True mx p k args out = map_option (\<lambda>(as, t). (as, put mx out t)) (conv_text dbl k args)"
proof (cases args)
  case Nil
  then show ?thesis using assms by (auto simp: convert_def conv_text_def print_put put_def)
next
  case (Cons a as)
  then show ?thesis using assms by (cases a) (auto simp: convert_def conv_text_def print_put, auto simp: put_def)
qed

lemma conv_text_args: "conv_text dbl k args = Some (as, t) \<Longrightarrow> set as \<subseteq> set args"
  by (auto simp: conv_text_def split: if_splits list.splits arg.splits)

lemma vsn_loop_render:
  "length out \<le> mx \<Longrightarrow> no_double args \<Longrightarrow>
    vsn_loop F True mx f args out = map_option (put mx out) (render [101, 69, 103, 71] f args)"
proof (induction f arbitrary: args out rule: length_induct)
  case (1 f)
  show ?case
  proof (cases f)
    case (Cons c f')
    then show ?thesis
    proof (cases "c = 37")
      case False
      then show ?thesis using 1 Cons
        by (simp add: print_put option.map_comp o_def)
    next
      case True
      show ?thesis
      proof (cases "snd (parse_spec f')")
        case (Cons k g)
        then have g: "length g < length f" using parse_spec_shorter [of f'] \<open>f = c # f'\<close> by simp
        show ?thesis
        proof (cases "conv_text [101, 69, 103, 71] k args")
          case (Some r)
          obtain as t where r: "r = (as, t)" by (cases r)
          have "no_double as" using 1(3) conv_text_args Some r by blast
          then show ?thesis
            using 1 g True Cons \<open>f = c # f'\<close> Some r
            by (simp add: convert_text option.map_comp o_def print_put)
        qed (use 1 True Cons \<open>f = c # f'\<close> in \<open>simp add: convert_text\<close>)
      qed (use True Cons in simp)
    qed
  qed (use 1 in \<open>simp add: put_def\<close>)
qed

lemma print_char_bound: "length out \<le> mx \<Longrightarrow> length (print_char nn mx c out) \<le> mx"
  by (simp add: print_char_def)

lemma print_str_bound: "length out \<le> mx \<Longrightarrow> length (print_str nn mx s out) \<le> mx"
  unfolding print_str_def by (induction s arbitrary: out) (simp_all add: print_char_bound)

lemma frac_digits_bound: "length out \<le> mx \<Longrightarrow> length (snd (frac_digits F nn mx n frac a out)) \<le> mx"
  by (induction n arbitrary: frac a out) (simp_all add: Let_def print_char_bound)

lemma strip_zeros_bound: "length (strip_zeros n out) \<le> length out"
proof (induction n out rule: strip_zeros.induct)
  case (1 n out)
  then show ?case by (subst strip_zeros.simps) force
qed

lemmas print_bound = print_char_bound print_str_bound frac_digits_bound

lemma print_double_bound:
  assumes "length out \<le> mx"
  shows "length (print_double_f F nn mx v p out) \<le> mx \<and> length (print_double_g F nn mx v p out) \<le> mx"
proof -
  define s where "s = (if f_lt F v 0 then (f_neg F v, print_char nn mx 45 out) else (v, out))"
  define o1 where "o1 = print_unsigned nn mx (ucast (f_to_u64 F (fst s))) False False (snd s)"
  define r where "r = frac_digits F nn mx (nat (if p < 0 then 6 else p)) (f_sub F (fst s) (f_of_u64 F (f_to_u64 F (fst s)))) False
    (print_char nn mx 46 o1)"
  have "length (snd s) \<le> mx" using assms by (simp add: s_def print_bound)
  then have o1: "length o1 \<le> mx" by (simp add: o1_def print_unsigned_def print_bound)
  then have r: "length (snd r) \<le> mx" by (simp add: r_def print_bound)
  then have "length (strip_zeros n (snd r)) \<le> mx" for n using strip_zeros_bound le_trans by blast
  then show ?thesis
    using o1 r unfolding print_double_f_def print_double_g_def Let_def s_def [symmetric] case_prod_beta
      o1_def [symmetric] r_def [symmetric] by (simp add: min.coboundedI1)
qed

lemma convert_bound:
  "convert dbl F nn mx p k args out = Some (as, o') \<Longrightarrow> length out \<le> mx \<Longrightarrow> length o' \<le> mx"
  unfolding convert_def
  by (auto simp: print_int_def print_unsigned_def print_bound print_double_bound split: if_splits list.splits arg.splits)

lemma vsn_loop_bound: "vsn_loop F nn mx f args out = Some o' \<Longrightarrow> length out \<le> mx \<Longrightarrow> length o' \<le> mx"
proof (induction F nn mx f args out rule: vsn_loop.induct)
  case (2 F nn mx c f args out)
  then show ?case
    by (auto simp: print_char_bound split: if_splits list.splits Option.bind_splits) (blast dest: convert_bound)
qed simp


text \<open>
  C35. \<^verbatim>\<open>vsnprintf\<close> never stores more than the given number of bytes, whatever the format and the arguments.
  Without doubles it stores the text of the format cut to the buffer and always terminated, and returns
  the number of characters stored before the terminator was placed; it has no result exactly when the
  arguments do not fit the format or the format ends inside a conversion.
\<close>

theorem vsnprintf_refines:
  "(vsnprintf F nn sz f args = Some (n, bytes) \<longrightarrow> n \<le> sz \<and> length bytes \<le> sz) \<and>
   (no_double args \<longrightarrow> vsnprintf F True sz f args =
      map_option (\<lambda>t. (min (length t) sz,
        if length t < sz then t @ [0] else if 0 < sz then take (sz - 1) t @ [0] else [])) (render [101, 69, 103, 71] f args))"
proof (intro conjI impI)
  assume "vsnprintf F nn sz f args = Some (n, bytes)"
  then show "n \<le> sz" "length bytes \<le> sz"
    using vsn_loop_bound [of F nn sz f args "[]"] by (auto simp: vsnprintf_def split: Option.bind_splits if_splits)
next
  assume "no_double args"
  then have "vsn_loop F True sz f args [] = map_option (take sz) (render [101, 69, 103, 71] f args)"
    using vsn_loop_render [of "[]" sz args F f] by (simp add: put_def [abs_def])
  moreover have "(take sz t)[sz - 1 := 0] = take (sz - 1) t @ [0]" if "sz \<le> length t" "0 < sz" for t :: str
    using that take_Suc_conv_app_nth [of "sz - 1" t] by (simp add: list_update_append)
  ultimately show "vsnprintf F True sz f args =
      map_option (\<lambda>t. (min (length t) sz,
        if length t < sz then t @ [0] else if 0 < sz then take (sz - 1) t @ [0] else [])) (render [101, 69, 103, 71] f args)"
    by (cases "render [101, 69, 103, 71] f args") (auto simp: vsnprintf_def min_def)
qed

definition plain_fp :: fp where
  "plain_fp = \<lparr>f_lt = \<lambda>_ _. False, f_neg = id, f_sub = (-), f_mul = (*), f_to_u64 = id, f_to_int = ucast, f_of_u64 = id,
     f_of_int = ucast\<rparr>"

theorem vsnprintf_refines_witness:
  "vsnprintf plain_fp True 4 [97, 37, 115] [AStr (Some [98, 99, 100])] = Some (4, [97, 98, 99, 0])"
  using vsnprintf_refines [of plain_fp True 4 "[97, 37, 115]" "[AStr (Some [98, 99, 100])]" 0 "[]"]
  by (simp add: parse_spec_def drop_if_def conv_text_def)

lemma vfprintf_loop_render:
  "render [103, 71] f args = Some t \<Longrightarrow> no_double args \<Longrightarrow> length buf + length t < 4088 \<Longrightarrow>
    vfprintf_loop F f args buf chunks = Some (if buf @ t = [] then chunks else chunks @ [buf @ t])"
proof (induction f arbitrary: args buf t rule: length_induct)
  case (1 f)
  show ?case
  proof (cases f)
    case (Cons c f')
    show ?thesis
    proof (cases "c = 37")
      case False
      then show ?thesis using 1 Cons by auto
    next
      case True
      then obtain k g as s u where p: "snd (parse_spec f') = k # g" "conv_text [103, 71] k args = Some (as, s)"
          "render [103, 71] g as = Some u" "t = s @ u"
        using 1(2) Cons by (auto split: list.splits Option.bind_splits)
      have g: "length g < length f" using parse_spec_shorter [of f'] p(1) Cons by simp
      have "no_double as" using 1(3) conv_text_args p(2) by blast
      then have "vfprintf_loop F g as (buf @ s) chunks = Some (if buf @ t = [] then chunks else chunks @ [buf @ t])"
        using 1(1,4) g p(3,4) by auto
      then show ?thesis using 1(3,4) Cons True p(1,2,4) by (simp add: convert_text put_def)
    qed
  qed (use 1 in auto)
qed

text \<open>
  C36. A formatted output of less than 4088 bytes without doubles is handed to \<^verbatim>\<open>fwrite\<close> as one piece that is
  exactly the text of the format, and nothing is written for an empty text. A conversion that fills the
  buffer of \<^verbatim>\<open>fprintf\<close> followed by an ordinary character writes past the end of that buffer.
\<close>

theorem fprintf_text:
  "(render [103, 71] f args = Some t \<and> no_double args \<and> length t < 4088 \<longrightarrow>
     vfprintf_chunks F f args = Some (if t = [] then [] else [t])) \<and>
   (4096 \<le> length s \<and> c \<noteq> 37 \<longrightarrow> vfprintf_chunks F [37, 115, c] [AStr (Some s)] = None)"
  using vfprintf_loop_render [of f args t "[]" F "[]"]
  by (auto simp: vfprintf_chunks_def parse_spec_def drop_if_def convert_def print_str_take)

theorem fprintf_text_witness:
  "vfprintf_chunks plain_fp [97, 37, 100] [AInt 0] = Some [[97, 48]] \<and>
   vfprintf_chunks plain_fp [37, 115, 97] [AStr (Some (replicate 4096 98))] = None"
  using fprintf_text [of "[97, 37, 100]" "[AInt 0]" "[97, 48]" plain_fp "replicate 4096 98" 97]
  by (simp add: parse_spec_def drop_if_def conv_text_def int_text_def num_text_def)

section \<open>Allocation\<close>

lemma unat_next: "unat (d :: u32) + Suc n \<le> 4294967296 \<Longrightarrow> n \<noteq> 0 \<Longrightarrow> unat (d + 1) = unat d + 1"
  by (simp add: unat_word_ariths)

lemma u_memcpy_outside:
  "unat d + n \<le> 4294967296 \<Longrightarrow> unat x < unat d \<or> unat d + n \<le> unat x \<Longrightarrow> u_memcpy m d s n x = m x"
proof (induction n arbitrary: m d s)
  case (Suc n)
  then have "x \<noteq> d" by auto
  then show ?case using Suc unat_next [of d n] by (cases "n = 0") auto
qed simp

lemma u_memcpy_below:
  "unat d + n \<le> 4294967296 \<Longrightarrow> i < n \<Longrightarrow> unat s + i < unat d \<Longrightarrow> u_memcpy m d s n (d + of_nat i) = m (s + of_nat i)"
proof (induction n arbitrary: m d s i)
  case (Suc n)
  show ?case
  proof (cases i)
    case 0
    then show ?thesis
      using u_memcpy_outside [of "d + 1" n d "m(d := m s)" "s + 1"] Suc.prems unat_next [of d n] by (cases "n = 0") auto
  next
    case (Suc j)
    define m1 where "m1 = m(d := m s)"
    have "unat (s + of_nat i) = unat s + i" using Suc.prems by (intro unat_off) simp
    then have "m1 (s + of_nat i) = m (s + of_nat i)" using Suc.prems by (auto simp: m1_def)
    moreover have "u_memcpy m d s (Suc n) = u_memcpy m1 (d + 1) (s + 1) n" by (simp add: m1_def)
    moreover have "unat (s + 1) = unat s + 1" using unat_next [of s i] Suc Suc.prems by simp
    ultimately show ?thesis
      using Suc.IH [of "d + 1" j "s + 1" m1] Suc Suc.prems unat_next [of d n] by (auto simp: algebra_simps)
  qed
qed simp

text \<open>The heap array lies in the address space, not at address 0, and is not full.\<close>

definition heap_ok :: "'a libc_t_scheme \<Rightarrow> bool" where
  "heap_ok s \<longleftrightarrow> heap_base s \<noteq> 0 \<and> unat (heap_base s) + 65536 \<le> 4294967296 \<and> unat (heap_used s) < 65536"

lemma malloc_cases:
  assumes "heap_ok s" "unat sz \<le> 4294901760"
  shows "malloc sz s = (if 65536 \<le> unat (heap_used s) + unat sz then (0, s)
      else (heap_base s + heap_used s, s\<lparr>heap_used := heap_used s + sz\<rparr>)) \<and>
    unat (heap_base s + heap_used s) = unat (heap_base s) + unat (heap_used s) \<and>
    unat (heap_used s + sz) = unat (heap_used s) + unat sz"
  using assms by (simp add: heap_ok_def malloc_def word_le_nat_alt unat_word_ariths)


text \<open>
  C37. Allocation in the user library. A request of up to 4294901760 bytes either fails and changes nothing,
  or gets a block inside the heap array above everything handed out so far. \<^verbatim>\<open>realloc\<close> to any such size
  keeps every byte outside the new block and copies into it what lies from the old address on, as far as
  that was handed out: the old contents up to the smaller of the two sizes and, when the block grows,
  behind them what followed the old block, because the code does not know the old size. The bytes
  it reads all lie in the handed-out part of the heap array. A larger request can wrap the fill level round: it
  succeeds, and the heap counts as empty again.
\<close>

theorem malloc_realloc:
  assumes "heap_ok s" "unat sz \<le> 4294901760" "unat p + n \<le> unat (heap_base s) + unat (heap_used s)" "p \<noteq> 0"
    and "malloc sz s = (q, s')" "realloc p sz s = (r, s'')"
  shows "heap_ok s' \<and> (q = 0 \<and> s' = s \<or>
      unat q = unat (heap_base s) + unat (heap_used s) \<and>
      unat q + unat sz = unat (heap_base s') + unat (heap_used s') \<and> heap_base s' = heap_base s \<and> umem s' = umem s) \<and>
    r = q \<and> heap_used s'' = heap_used s' \<and>
    (r \<noteq> 0 \<longrightarrow> (\<forall>i < min n (unat sz). umem s'' (r + of_nat i) = umem s (p + of_nat i)) \<and>
      (\<forall>x. unat x < unat r \<or> unat r + unat sz \<le> unat x \<longrightarrow> umem s'' x = umem s x) \<and>
      unat p + unat sz \<le> unat (heap_base s) + unat (heap_used s'')) \<and>
    (heap_used s \<noteq> 0 \<longrightarrow> malloc (- heap_used s) s = (heap_base s + heap_used s, s\<lparr>heap_used := 0\<rparr>))"
proof -
  let ?u = "unat (heap_used s)" and ?b = "unat (heap_base s)" and ?q = "heap_base s + heap_used s"
  note m = malloc_cases [OF assms(1,2)] and h = assms(1) [unfolded heap_ok_def]
  have w: "malloc (- heap_used s) s = (?q, s\<lparr>heap_used := 0\<rparr>)" by (simp add: malloc_def)
  show ?thesis
  proof (cases "65536 \<le> ?u + unat sz")
    case True
    then show ?thesis using m assms w by (auto simp: realloc_def)
  next
    case False
    have q0: "?q \<noteq> 0" using m h by (metis add_is_0 unat_0 unat_eq_0)
    have le: "\<not> sz < heap_used s + sz \<Longrightarrow> heap_used s + sz = sz"
      using m by (simp add: word_less_nat_alt word_unat_eq_iff)
    have s'': "s'' = s\<lparr>heap_used := heap_used s + sz, umem := u_memcpy (umem s) ?q p (unat sz)\<rparr>" "r = ?q"
      using m False assms(4,6) q0 le by (auto simp: realloc_def split: if_splits)
    have s': "s' = s\<lparr>heap_used := heap_used s + sz\<rparr>" "q = ?q" using m False assms(5) by auto
    have b: "unat ?q + unat sz \<le> 4294967296" using m h False by simp
    have "umem s'' (r + of_nat i) = umem s (p + of_nat i)" if "i < min n (unat sz)" for i
      using u_memcpy_below [OF b, of i p "umem s"] that assms(3) m s'' by simp
    moreover have "umem s'' x = umem s x" if "unat x < unat r \<or> unat r + unat sz \<le> unat x" for x
      using u_memcpy_outside [OF b] that s'' by simp
    moreover have "unat p + unat sz \<le> ?b + unat (heap_used s'')" using assms(3) m False s'' by simp
    moreover have "heap_ok s'" using h m False s' by (simp add: heap_ok_def)
    ultimately show ?thesis using m s' s'' w by simp
  qed
qed

theorem malloc_realloc_witness:
  "umem (snd (realloc 4096 16 \<lparr>seed = 0, heap_base = 4096, heap_used = 4, umem = \<lambda>x. if x = 4097 then 7 else 0\<rparr>)) 4101 = 7"
proof -
  let ?s = "\<lparr>seed = 0, heap_base = 4096, heap_used = 4, umem = \<lambda>x. if x = 4097 then 7 else 0\<rparr> :: libc_t"
  let ?r = "realloc 4096 16 ?s"
  have m: "malloc 16 ?s = (4100, ?s\<lparr>heap_used := 20\<rparr>)" by (simp add: malloc_def)
  have "heap_ok ?s" by (simp add: heap_ok_def)
  then have "fst ?r = 4100 \<and> (fst ?r \<noteq> 0 \<longrightarrow> (\<forall>i < min 4 (unat (16 :: u32)). umem (snd ?r) (fst ?r + of_nat i) = umem ?s (4096 + of_nat i)))"
    using malloc_realloc [of ?s 16 4096 4 4100 "?s\<lparr>heap_used := 20\<rparr>" "fst ?r" "snd ?r"] m by auto
  then show ?thesis by (auto dest!: spec [of _ 1])
qed

end
