(* ===== verification/Sched.thy ===== *)
theory Sched
  imports Paging
begin

text \<open>
  The task list and the context-switch decisions of \<^verbatim>\<open>stage2/scheduler.c\<close>: the circular list of
  task control blocks, choosing the next task, timer ticks, blocking and waking. Task control
  blocks are values of a map from their addresses; address 0 is \<^verbatim>\<open>NULL\<close>. Creating, replacing
  and ending tasks, which lays out stacks and address spaces, is not modelled. A result \<open>None\<close>
  means a list walk that does not end.
\<close>

section \<open>Tasks\<close>

datatype task_state = TASK_READY | TASK_RUNNING | TASK_BLOCKED | TASK_EXITED

record tcb =
  t_esp :: u32
  t_state :: task_state
  t_pid :: u32
  t_stack_base :: u32
  t_cr3 :: u32
  t_tty :: int
  t_fds :: "int list"
  t_wait_obj :: u32
  t_exit_code :: int
  t_next :: u32

record sched_st = paging_st +
  tasks :: "u32 \<Rightarrow> tcb"
  current_task :: u32
  idle_task :: u32
  next_pid :: u32

abbreviation upd_task :: "u32 \<Rightarrow> (tcb \<Rightarrow> tcb) \<Rightarrow> 'a sched_st_scheme \<Rightarrow> 'a sched_st_scheme" where
  "upd_task t f s \<equiv> s\<lparr>tasks := (tasks s)(t := f (tasks s t))\<rparr>"

definition runnable :: "task_state \<Rightarrow> bool" where
  "runnable st \<longleftrightarrow> st = TASK_READY \<or> st = TASK_RUNNING"

section \<open>Operations\<close>

definition scheduler_current_fds :: "'a sched_st_scheme \<Rightarrow> int list option" where
  "scheduler_current_fds s = (if current_task s \<noteq> 0 then Some (t_fds (tasks s (current_task s))) else None)"

definition scheduler_get_current :: "'a sched_st_scheme \<Rightarrow> u32" where
  "scheduler_get_current s = current_task s"

definition scheduler_current_tty :: "'a sched_st_scheme \<Rightarrow> int" where
  "scheduler_current_tty s = (if current_task s \<noteq> 0 then t_tty (tasks s (current_task s)) else 0)"

text \<open>The walk of \<^verbatim>\<open>scheduler_find_by_pid\<close> from \<open>t\<close>; 0 when no task has the PID.\<close>

partial_function (option) find_pid_loop :: "(u32 \<Rightarrow> tcb) \<Rightarrow> u32 \<Rightarrow> int \<Rightarrow> u32 \<Rightarrow> u32 option" where
  "find_pid_loop T idle pid t =
     (if sint (t_pid (T t)) = pid then Some t
      else if t_next (T t) \<noteq> idle then find_pid_loop T idle pid (t_next (T t))
      else Some 0)"

definition scheduler_find_by_pid :: "int \<Rightarrow> 'a sched_st_scheme \<Rightarrow> u32 option" where
  "scheduler_find_by_pid pid s =
     (if idle_task s = 0 \<or> pid < 0 then Some 0
      else find_pid_loop (tasks s) (idle_task s) pid (idle_task s))"

text \<open>The \<^verbatim>\<open>do ... while\<close> of \<^verbatim>\<open>scheduler_schedule\<close>.\<close>

partial_function (option) sched_walk :: "(u32 \<Rightarrow> tcb) \<Rightarrow> u32 \<Rightarrow> u32 \<Rightarrow> u32 option" where
  "sched_walk T cur nxt =
     (let n = t_next (T nxt) in
      if n \<noteq> cur \<and> \<not> runnable (t_state (T n)) then sched_walk T cur n else Some n)"

definition scheduler_schedule :: "'a sched_st_scheme \<Rightarrow> 'a sched_st_scheme option" where
  "scheduler_schedule s =
     (if current_task s = 0 then Some s
      else do { n \<leftarrow> sched_walk (tasks s) (current_task s) (current_task s);
                let s1 = (if n \<noteq> current_task s
                          then upd_task n (\<lambda>t. t\<lparr>t_state := TASK_RUNNING\<rparr>) (s\<lparr>current_task := n\<rparr>)
                          else if t_state (tasks s n) = TASK_BLOCKED
                          then upd_task n (\<lambda>t. t\<lparr>t_state := TASK_RUNNING\<rparr>) s
                          else s);
                let dir = t_cr3 (tasks s1 (current_task s1));
                Some (if dir \<noteq> paging_get_directory s1 then paging_switch dir s1 else s1) })"

text \<open>The timer interrupt with the interrupted frame at \<open>r\<close>: the frame to resume.\<close>

definition scheduler_tick :: "u32 \<Rightarrow> 'a sched_st_scheme \<Rightarrow> (u32 \<times> 'a sched_st_scheme) option" where
  "scheduler_tick r s =
     (if current_task s = 0 then Some (r, s)
      else let s1 = upd_task (current_task s) (\<lambda>t. t\<lparr>t_esp := r\<rparr>) s;
               s2 = (if t_state (tasks s1 (current_task s)) = TASK_RUNNING
                     then upd_task (current_task s) (\<lambda>t. t\<lparr>t_state := TASK_READY\<rparr>) s1 else s1)
           in do { s3 \<leftarrow> scheduler_schedule s2;
                   Some (t_esp (tasks s3 (current_task s3)), s3) })"

definition scheduler_perform_switch :: "u32 \<Rightarrow> 'a sched_st_scheme \<Rightarrow> (u32 \<times> 'a sched_st_scheme) option" where
  "scheduler_perform_switch old_esp s =
     do { s1 \<leftarrow> scheduler_schedule (upd_task (current_task s) (\<lambda>t. t\<lparr>t_esp := old_esp\<rparr>) s);
          Some (t_esp (tasks s1 (current_task s1)), s1) }"

text \<open>
  Blocking switches away through \<^verbatim>\<open>scheduler_switch\<close> (assembly), which saves the frame at \<open>esp\<close>
  and calls \<^verbatim>\<open>scheduler_perform_switch\<close>: the result is the state in which the chosen task resumes.
\<close>

definition scheduler_block :: "u32 \<Rightarrow> u32 \<Rightarrow> 'a sched_st_scheme \<Rightarrow> (u32 \<times> 'a sched_st_scheme) option" where
  "scheduler_block wait_obj esp s =
     scheduler_perform_switch esp
       (upd_task (current_task s) (\<lambda>t. t\<lparr>t_wait_obj := wait_obj, t_state := TASK_BLOCKED\<rparr>) s)"

partial_function (option) wake_loop :: "(u32 \<Rightarrow> tcb) \<Rightarrow> u32 \<Rightarrow> u32 \<Rightarrow> u32 \<Rightarrow> (u32 \<Rightarrow> tcb) option" where
  "wake_loop T idle w t =
     (let T1 = (if t_state (T t) = TASK_BLOCKED \<and> t_wait_obj (T t) = w
                then T(t := (T t)\<lparr>t_state := TASK_READY\<rparr>) else T);
          n = t_next (T1 t)
      in if n \<noteq> idle then wake_loop T1 idle w n else Some T1)"

definition scheduler_wake :: "u32 \<Rightarrow> 'a sched_st_scheme \<Rightarrow> 'a sched_st_scheme option" where
  "scheduler_wake wait_obj s =
     (if wait_obj = 0 then Some s
      else do { T \<leftarrow> wake_loop (tasks s) (idle_task s) wait_obj (idle_task s);
                Some (s\<lparr>tasks := T\<rparr>) })"

text \<open>
  \<^verbatim>\<open>scheduler_wait_pid\<close>. When the child still runs the caller blocks; \<open>others\<close> stands for what
  the other tasks do to the state until this task is resumed.
\<close>

definition scheduler_wait_pid ::
    "('a sched_st_scheme \<Rightarrow> 'a sched_st_scheme option) \<Rightarrow> u32 \<Rightarrow> int \<Rightarrow> 'a sched_st_scheme \<Rightarrow>
      (int \<times> 'a sched_st_scheme) option" where
  "scheduler_wait_pid others esp pid s =
     (if pid < 0 then Some (- 1, s)
      else do { child \<leftarrow> scheduler_find_by_pid pid s;
                if child = 0 then Some (- 1, s)
                else if t_state (tasks s child) = TASK_EXITED then Some (t_exit_code (tasks s child), s)
                else do { (_, s1) \<leftarrow> scheduler_block (of_int pid) esp s;
                          s2 \<leftarrow> others s1;
                          child \<leftarrow> scheduler_find_by_pid pid s2;
                          Some (if child = 0 then - 1 else t_exit_code (tasks s2 child), s2) } })"

section \<open>The circular list\<close>

fun chain :: "(u32 \<Rightarrow> tcb) \<Rightarrow> u32 \<Rightarrow> u32 list \<Rightarrow> u32 \<Rightarrow> bool" where
  "chain T a [] b \<longleftrightarrow> t_next (T a) = b"
| "chain T a (c # cs) b \<longleftrightarrow> t_next (T a) = c \<and> chain T c cs b"

text \<open>The tasks reachable from \<open>a\<close> are \<open>a\<close> and \<open>us\<close>, in this order, and back to \<open>a\<close>.\<close>

definition task_ring :: "(u32 \<Rightarrow> tcb) \<Rightarrow> u32 \<Rightarrow> u32 list \<Rightarrow> bool" where
  "task_ring T a us \<longleftrightarrow> chain T a us a \<and> distinct (a # us) \<and> 0 \<notin> set (a # us)"

lemma chain_append: "chain T a (xs @ c # ys) b \<longleftrightarrow> chain T a xs c \<and> chain T c ys b"
  by (induction xs arbitrary: a) auto

lemma chain_cong: "(\<And>t. t \<in> set (a # us) \<Longrightarrow> t_next (T' t) = t_next (T t)) \<Longrightarrow> chain T' a us b = chain T a us b"
  by (induction us arbitrary: a) auto

lemma task_ring_cong:
  "(\<And>t. t_next (T' t) = t_next (T t)) \<Longrightarrow> task_ring T' a us = task_ring T a us"
  using chain_cong [of a us T' T] by (simp add: task_ring_def)

lemma task_ring_rotate: "task_ring T a (xs @ c # ys) \<Longrightarrow> task_ring T c (ys @ a # xs)"
  by (auto simp: task_ring_def chain_append)

definition first_or :: "(u32 \<Rightarrow> bool) \<Rightarrow> u32 list \<Rightarrow> u32 \<Rightarrow> u32" where
  "first_or P us d = (case dropWhile (\<lambda>t. \<not> P t) us of [] \<Rightarrow> d | t # _ \<Rightarrow> t)"

lemma first_or_simps [simp]:
  "first_or P [] d = d" "first_or P (u # us) d = (if P u then u else first_or P us d)"
  by (simp_all add: first_or_def)

lemma sched_walk_eq:
  "chain T a us cur \<Longrightarrow> cur \<notin> set us \<Longrightarrow>
     sched_walk T cur a = Some (first_or (\<lambda>t. runnable (t_state (T t))) us cur)"
  by (induction us arbitrary: a) (auto simp: sched_walk.simps Let_def)

lemma find_pid_loop_eq:
  "chain T a us idle \<Longrightarrow> idle \<notin> set us \<Longrightarrow>
     find_pid_loop T idle pid a = Some (first_or (\<lambda>t. sint (t_pid (T t)) = pid) (a # us) 0)"
  by (induction us arbitrary: a) (auto simp: find_pid_loop.simps)

lemma wake_loop_eq:
  "chain T a us idle \<Longrightarrow> idle \<notin> set us \<Longrightarrow> distinct (a # us) \<Longrightarrow>
     wake_loop T idle w a = Some (\<lambda>t. if t \<in> set (a # us) \<and> t_state (T t) = TASK_BLOCKED \<and> t_wait_obj (T t) = w
       then (T t)\<lparr>t_state := TASK_READY\<rparr> else T t)"
proof (induction us arbitrary: T a)
  case Nil
  then show ?case by (auto simp: wake_loop.simps Let_def fun_eq_iff)
next
  case (Cons c us)
  define T1 where "T1 = (if t_state (T a) = TASK_BLOCKED \<and> t_wait_obj (T a) = w
    then T(a := (T a)\<lparr>t_state := TASK_READY\<rparr>) else T)"
  have nx: "t_next (T1 t) = t_next (T t)" for t
    by (simp add: T1_def)
  then have "chain T1 c us idle"
    using Cons.prems chain_cong [of c us T1 T] by simp
  with Cons have IH: "wake_loop T1 idle w c = Some (\<lambda>t. if t \<in> set (c # us) \<and>
      t_state (T1 t) = TASK_BLOCKED \<and> t_wait_obj (T1 t) = w then (T1 t)\<lparr>t_state := TASK_READY\<rparr> else T1 t)"
    by simp
  have "wake_loop T idle w a = wake_loop T1 idle w c"
    using Cons.prems nx [of a] by (subst wake_loop.simps) (auto simp: T1_def [symmetric] Let_def)
  also note IH
  also have "(\<lambda>t. if t \<in> set (c # us) \<and> t_state (T1 t) = TASK_BLOCKED \<and> t_wait_obj (T1 t) = w
      then (T1 t)\<lparr>t_state := TASK_READY\<rparr> else T1 t) =
    (\<lambda>t. if t \<in> set (a # c # us) \<and> t_state (T t) = TASK_BLOCKED \<and> t_wait_obj (T t) = w
      then (T t)\<lparr>t_state := TASK_READY\<rparr> else T t)"
    using Cons.prems(3) by (auto simp: T1_def fun_eq_iff)
  finally show ?case .
qed

section \<open>Ticks\<close>

definition next_task :: "(u32 \<Rightarrow> tcb) \<Rightarrow> u32 \<Rightarrow> u32 list \<Rightarrow> u32" where
  "next_task T cur us = first_or (\<lambda>t. runnable (t_state (T t))) us cur"

lemma next_task_in: "next_task T cur us \<in> set (cur # us)"
proof -
  have "first_or P us cur \<in> set (cur # us)" for P
    by (induction us) auto
  then show ?thesis by (simp add: next_task_def)
qed

lemma next_task_cong:
  "(\<And>t. t \<in> set us \<Longrightarrow> t_state (T' t) = t_state (T t)) \<Longrightarrow> next_task T' cur us = next_task T cur us"
  unfolding next_task_def by (induction us) auto

lemma schedule_eq:
  assumes ring: "task_ring (tasks s) (current_task s) us"
  defines "n \<equiv> next_task (tasks s) (current_task s) us"
  shows "scheduler_schedule s = Some (s\<lparr>current_task := n, cr3 := t_cr3 (tasks s n),
    tasks := (if n \<noteq> current_task s \<or> t_state (tasks s n) = TASK_BLOCKED
              then (tasks s)(n := (tasks s n)\<lparr>t_state := TASK_RUNNING\<rparr>) else tasks s)\<rparr>)"
proof -
  have c: "current_task s \<noteq> 0" "chain (tasks s) (current_task s) us (current_task s)"
      "current_task s \<notin> set us"
    using ring by (auto simp: task_ring_def)
  have "sched_walk (tasks s) (current_task s) (current_task s) = Some n"
    using sched_walk_eq [OF c(2,3)] by (simp add: n_def next_task_def)
  then show ?thesis
    using c(1) by (auto simp: scheduler_schedule_def Let_def paging_switch_def paging_get_directory_def)
qed

text \<open>The current task as \<^verbatim>\<open>scheduler_tick\<close> leaves it before it looks for the next one.\<close>

definition ticked :: "u32 \<Rightarrow> tcb \<Rightarrow> tcb" where
  "ticked r t = t\<lparr>t_esp := r, t_state := (if t_state t = TASK_RUNNING then TASK_READY else t_state t)\<rparr>"

lemma tick_eq:
  fixes r
  assumes ring: "task_ring (tasks s) (current_task s) us"
  defines "c \<equiv> current_task s" and "T1 \<equiv> (tasks s)(current_task s := ticked r (tasks s (current_task s)))"
  defines "n \<equiv> next_task (tasks s) c us"
  shows "\<exists>s'. scheduler_tick r s = Some (t_esp (T1 n), s') \<and>
    s' = s\<lparr>current_task := n, cr3 := t_cr3 (tasks s n), tasks := tasks s'\<rparr> \<and>
    tasks s' = (if n \<noteq> c \<or> t_state (T1 n) = TASK_BLOCKED then T1(n := (T1 n)\<lparr>t_state := TASK_RUNNING\<rparr>) else T1)"
proof -
  let ?s1 = "s\<lparr>tasks := T1\<rparr>"
  have c: "c \<noteq> 0" "c \<notin> set us"
    using ring by (auto simp: task_ring_def c_def)
  have ring1: "task_ring (tasks ?s1) (current_task ?s1) us"
    using ring by (subst task_ring_cong [of _ "tasks s"]) (auto simp: T1_def ticked_def)
  have n: "next_task (tasks ?s1) (current_task ?s1) us = n"
  proof -
    have "next_task T1 c us = next_task (tasks s) c us"
      by (rule next_task_cong) (use c in \<open>auto simp: T1_def c_def\<close>)
    then show ?thesis by (simp add: n_def c_def)
  qed
  have "t_cr3 (T1 n) = t_cr3 (tasks s n)"
    by (simp add: T1_def ticked_def)
  moreover have "scheduler_tick r s = do { s3 \<leftarrow> scheduler_schedule ?s1; Some (t_esp (tasks s3 (current_task s3)), s3) }"
    using c by (simp add: scheduler_tick_def Let_def T1_def ticked_def c_def fun_upd_def cong: if_cong)
  ultimately show ?thesis
    using schedule_eq [OF ring1] n by (simp add: c_def)
qed


text \<open>A run of timer ticks; \<open>rs\<close> are the frames at which the tasks are interrupted.\<close>

definition run_ticks :: "u32 list \<Rightarrow> 'a sched_st_scheme \<Rightarrow> 'a sched_st_scheme option" where
  "run_ticks rs s = foldM (\<lambda>r s. map_option snd (scheduler_tick r s)) rs s"

lemma first_or_split:
  assumes "P t" "t \<in> set us"
  obtains v x w where "us = v @ x # w" "first_or P us d = x" "P x" "\<And>y. y \<in> set v \<Longrightarrow> \<not> P y"
proof -
  obtain v x w where "us = v @ x # w" "P x" "\<forall>y \<in> set v. \<not> P y"
    using split_list_first_prop [of us P] assms by blast
  moreover have "first_or P us d = x"
    unfolding calculation(1) using calculation(2,3) by (induction v) auto
  ultimately show thesis
    using that by blast
qed

text \<open>A ready task comes closer to the front with every tick.\<close>

lemma tick_progress:
  assumes ring: "task_ring (tasks s) (current_task s) (vs @ t # ws)"
    and ready: "t_state (tasks s t) = TASK_READY"
  obtains e s' where "scheduler_tick r s = Some (e, s')" "current_task s' = t" "t_state (tasks s' t) = TASK_RUNNING"
  | e s' vs' ws' where "scheduler_tick r s = Some (e, s')" "task_ring (tasks s') (current_task s') (vs' @ t # ws')"
      "t_state (tasks s' t) = TASK_READY" "length vs' < length vs"
proof -
  let ?us = "vs @ t # ws" and ?c = "current_task s" and ?P = "\<lambda>t. runnable (t_state (tasks s t))"
  define T1 where "T1 = (tasks s)(?c := ticked r (tasks s ?c))"
  define n where "n = next_task (tasks s) ?c ?us"
  obtain s' where tick: "scheduler_tick r s = Some (t_esp (T1 n), s')"
      and s': "s' = s\<lparr>current_task := n, cr3 := t_cr3 (tasks s n), tasks := tasks s'\<rparr>"
      and T': "tasks s' = (if n \<noteq> ?c \<or> t_state (T1 n) = TASK_BLOCKED
        then T1(n := (T1 n)\<lparr>t_state := TASK_RUNNING\<rparr>) else T1)"
    using tick_eq [OF ring, of r, folded T1_def n_def] by blast
  have dist: "distinct (?c # ?us)" using ring by (simp add: task_ring_def)
  have "?P t" using ready by (simp add: runnable_def)
  then obtain v x w where x: "?us = v @ x # w" "n = x" "?P x" "\<And>y. y \<in> set v \<Longrightarrow> \<not> ?P y"
    using first_or_split [of ?P t ?us ?c] unfolding n_def next_task_def by auto
  have nc: "n \<noteq> ?c" using x dist by auto
  have cur: "current_task s' = n" by (subst s') simp
  have nx: "t_next (tasks s' y) = t_next (tasks s y)" for y
    by (simp add: T' T1_def ticked_def)
  show thesis
  proof (cases "n = t")
    case True
    then show thesis using that(1) [OF tick] cur nc by (simp add: T')
  next
    case False
    have "t \<notin> set v" using x(4) \<open>?P t\<close> by blast
    then obtain v2 where v2: "vs = v @ x # v2"
      using x(1,2) False by (auto simp: append_eq_append_conv2 Cons_eq_append_conv append_eq_Cons_conv)
    have "task_ring (tasks s') ?c (v @ x # v2 @ t # ws)"
      using ring v2 task_ring_cong [of "tasks s'" "tasks s"] nx by simp
    from task_ring_rotate [OF this] have "task_ring (tasks s') (current_task s') (v2 @ t # (ws @ ?c # v))"
      using cur x(2) by simp
    moreover have "t_state (tasks s' t) = TASK_READY"
      using False ready dist nc by (auto simp: T' T1_def)
    ultimately show thesis
      using that(2) [OF tick] v2 by simp
  qed
qed

lemma ticks_reach:
  assumes "task_ring (tasks s) (current_task s) (vs @ t # ws)" "t_state (tasks s t) = TASK_READY"
    and "length vs < length rs"
  shows "\<exists>k \<le> length vs. \<exists>s'. run_ticks (take (Suc k) rs) s = Some s' \<and> current_task s' = t \<and>
    t_state (tasks s' t) = TASK_RUNNING"
  using assms
proof (induction "length vs" arbitrary: s vs ws rs rule: less_induct)
  case less
  from less.prems(3) obtain r rs' where rs: "rs = r # rs'" by (cases rs) auto
  from tick_progress [OF less.prems(1,2), of r] consider
    (now) e s' where "scheduler_tick r s = Some (e, s')" "current_task s' = t" "t_state (tasks s' t) = TASK_RUNNING"
  | (later) e s' vs' ws' where "scheduler_tick r s = Some (e, s')"
      "task_ring (tasks s') (current_task s') (vs' @ t # ws')" "t_state (tasks s' t) = TASK_READY" "length vs' < length vs"
    by metis
  then show ?case
  proof cases
    case now
    then show ?thesis
      by (intro exI [of _ 0]) (simp add: rs run_ticks_def)
  next
    case later
    have "length vs' < length rs'" using later(4) less.prems(3) rs by simp
    from less.hyps [OF later(4,2,3) this] obtain k s2 where "k \<le> length vs'"
      "run_ticks (take (Suc k) rs') s' = Some s2" "current_task s2 = t" "t_state (tasks s2 t) = TASK_RUNNING"
      by blast
    then show ?thesis
      using later(1,4) by (intro exI [of _ "Suc k"]) (simp add: rs run_ticks_def)
  qed
qed


section \<open>Properties\<close>

text \<open>
  C9. No ready task starves: whatever the interrupted frames, a task that is ready when the timer
  starts ticking is the running one after at most as many ticks as there are other tasks on
  the list, as long as nothing but ticks happens. In particular every tick returns.
\<close>

theorem scheduler_no_starvation:
  assumes "task_ring (tasks s) (current_task s) us" and "t \<in> set us" and "t_state (tasks s t) = TASK_READY"
    and "length us \<le> length rs"
  shows "\<exists>k \<le> length us. \<exists>s'. run_ticks (take k rs) s = Some s' \<and> current_task s' = t \<and>
    t_state (tasks s' t) = TASK_RUNNING"
proof -
  obtain vs ws where us: "us = vs @ t # ws"
    using assms(2) by (meson split_list)
  obtain k s' where "k \<le> length vs" "run_ticks (take (Suc k) rs) s = Some s'" "current_task s' = t"
      "t_state (tasks s' t) = TASK_RUNNING"
    using ticks_reach [OF assms(1) [unfolded us] assms(3), of rs] assms(4) us by auto
  then show ?thesis
    using us by (intro exI [of _ "Suc k"]) simp
qed

definition demo_tcb :: "u32 \<Rightarrow> task_state \<Rightarrow> u32 \<Rightarrow> tcb" where
  "demo_tcb pid st nxt = \<lparr>t_esp = 0, t_state = st, t_pid = pid, t_stack_base = 0, t_cr3 = 0, t_tty = 0,
     t_fds = replicate 16 (- 1), t_wait_obj = 0, t_exit_code = 0, t_next = nxt\<rparr>"

definition demo_sched :: sched_st where
  "demo_sched = paging_st.extend demo_paging
     \<lparr>tasks = (\<lambda>_. demo_tcb 0 TASK_EXITED 0)(0x1000 := demo_tcb 0 TASK_RUNNING 0x2000,
        0x2000 := (demo_tcb 1 TASK_BLOCKED 0x3000)\<lparr>t_wait_obj := 0x55\<rparr>, 0x3000 := demo_tcb 2 TASK_READY 0x1000),
      current_task = 0x1000, idle_task = 0x1000, next_pid = 3\<rparr>"

lemma demo_sched_ring: "task_ring (tasks demo_sched) 0x1000 [0x2000, 0x3000]"
  by (simp add: task_ring_def demo_sched_def demo_tcb_def paging_st.defs heap_st.defs)

theorem scheduler_no_starvation_witness:
  "\<exists>k \<le> 2. \<exists>s'. run_ticks (take k [7, 8]) demo_sched = Some s' \<and> current_task s' = 0x3000"
proof -
  have "task_ring (tasks demo_sched) (current_task demo_sched) [0x2000, 0x3000]"
      "t_state (tasks demo_sched 0x3000) = TASK_READY"
    using demo_sched_ring by (simp_all add: demo_sched_def demo_tcb_def paging_st.defs heap_st.defs)
  from scheduler_no_starvation [OF this(1) _ this(2), of "[7, 8]"] show ?thesis
    by (auto simp: numeral_2_eq_2)
qed

text \<open>
  C10. \<^verbatim>\<open>scheduler_wake\<close> on the circular list readies exactly the tasks blocked on the given object
  and changes nothing else; the null object wakes nobody.
\<close>

theorem scheduler_wake_exact:
  assumes "task_ring (tasks s) (idle_task s) us"
  shows "scheduler_wake w s = Some (s\<lparr>tasks := (\<lambda>t.
    if w \<noteq> 0 \<and> t \<in> set (idle_task s # us) \<and> t_state (tasks s t) = TASK_BLOCKED \<and> t_wait_obj (tasks s t) = w
    then (tasks s t)\<lparr>t_state := TASK_READY\<rparr> else tasks s t)\<rparr>)"
proof (cases "w = 0")
  case False
  then show ?thesis
    using assms wake_loop_eq [of "tasks s" "idle_task s" us "idle_task s" w]
    by (simp add: scheduler_wake_def task_ring_def)
qed (simp add: scheduler_wake_def)

theorem scheduler_wake_exact_witness:
  "\<exists>s'. scheduler_wake 0x55 demo_sched = Some s' \<and> t_state (tasks s' 0x2000) = TASK_READY \<and>
     tasks s' 0x3000 = tasks demo_sched 0x3000"
proof -
  have "task_ring (tasks demo_sched) (idle_task demo_sched) [0x2000, 0x3000]"
    using demo_sched_ring by (simp add: demo_sched_def paging_st.defs heap_st.defs)
  from scheduler_wake_exact [OF this, of "0x55"] show ?thesis
    by (simp add: demo_sched_def demo_tcb_def paging_st.defs heap_st.defs)
qed

end
