(* ===== verification/Ring.thy ===== *)
theory Ring
  imports Prelude
begin

text \<open>
  Circular buffers. The terminal input queue and the legacy keyboard buffer share one layout: an
  array of \<open>N\<close> slots with a head and a tail index, one slot always left empty. \<open>ring_contents\<close>
  is the list such a buffer holds. The locale \<open>bounded_fifo\<close> is what the clients rely on; the
  components that own a buffer interpret it.
\<close>

section \<open>Index arithmetic\<close>

definition ring_contents :: "nat \<Rightarrow> 'a list \<Rightarrow> nat \<Rightarrow> nat \<Rightarrow> 'a list" where
  "ring_contents N buf head tail =
     map (\<lambda>i. buf ! ((tail + i) mod N)) [0..<(head + N - tail) mod N]"

definition ring_ok :: "nat \<Rightarrow> 'a list \<Rightarrow> nat \<Rightarrow> nat \<Rightarrow> bool" where
  "ring_ok N buf head tail \<longleftrightarrow> length buf = N \<and> head < N \<and> tail < N"

lemma ring_count:
  fixes head tail N :: nat
  assumes "head < N" "tail < N"
  shows "(head + N - tail) mod N = (if tail \<le> head then head - tail else head + N - tail)"
proof (cases "tail \<le> head")
  case True
  then have "(head + N - tail) mod N = (head - tail + N) mod N"
    by (intro arg_cong2 [where f = "(mod)"]) linarith+
  also have "\<dots> = head - tail"
    using assms by (simp only: mod_add_self2) (simp add: less_imp_diff_less)
  finally show ?thesis using True by simp
next
  case False
  with assms show ?thesis by (auto intro!: mod_less)
qed

lemma ring_step: "(i :: nat) < N \<Longrightarrow> Suc i mod N = (if Suc i = N then 0 else Suc i)"
  by (cases "Suc i = N") auto

lemma ring_index:
  fixes t i N :: nat
  assumes "t < N" "i < N"
  shows "(t + i) mod N = (if t + i < N then t + i else t + i - N)"
proof (cases "t + i < N")
  case False
  then have "(t + i) mod N = (t + i - N) mod N"
    by (intro le_mod_geq) simp
  with False assms show ?thesis by (auto intro!: mod_less)
qed simp

lemma length_ring_contents [simp]: "length (ring_contents N buf head tail) = (head + N - tail) mod N"
  by (simp add: ring_contents_def)

lemma nth_ring_contents:
  "i < (head + N - tail) mod N \<Longrightarrow> ring_contents N buf head tail ! i = buf ! ((tail + i) mod N)"
  by (simp add: ring_contents_def)

lemma ring_contents_empty: "ring_ok N buf head tail \<Longrightarrow> ring_contents N buf head tail = [] \<longleftrightarrow> head = tail"
  by (auto simp: ring_ok_def ring_contents_def ring_count split: if_splits)

lemma ring_full:
  "ring_ok N buf head tail \<Longrightarrow> (head + 1) mod N = tail \<longleftrightarrow> \<not> length (ring_contents N buf head tail) < N - 1"
  unfolding ring_ok_def length_ring_contents by (auto simp: ring_count ring_step split: if_splits)

lemma ring_length: "ring_ok N buf head tail \<Longrightarrow> length (ring_contents N buf head tail) \<le> N - 1"
  unfolding ring_ok_def length_ring_contents by (auto simp: ring_count split: if_splits)

lemma ring_push:
  assumes ok: "ring_ok N buf head tail" and room: "(head + 1) mod N \<noteq> tail"
  shows "ring_contents N (buf[head := x]) ((head + 1) mod N) tail = ring_contents N buf head tail @ [x]"
proof (rule nth_equalityI)
  let ?n = "(head + N - tail) mod N"
  have b: "length buf = N" "head < N" "tail < N"
    using ok by (auto simp: ring_ok_def)
  have n: "?n + 1 < N"
    using ring_full [OF ok] room by simp
  have h': "(head + 1) mod N < N"
    using b by simp
  have len: "((head + 1) mod N + N - tail) mod N = ?n + 1"
    using b room by (auto simp: ring_count [OF h'] ring_count ring_step split: if_splits)
  then show "length (ring_contents N (buf[head := x]) ((head + 1) mod N) tail) =
      length (ring_contents N buf head tail @ [x])"
    by simp
  fix i assume "i < length (ring_contents N (buf[head := x]) ((head + 1) mod N) tail)"
  then have i: "i < ?n + 1" using len by simp
  have "(tail + i) mod N = head \<longleftrightarrow> i = ?n"
    using b i n by (auto simp: ring_index ring_count split: if_splits)
  then show "ring_contents N (buf[head := x]) ((head + 1) mod N) tail ! i =
      (ring_contents N buf head tail @ [x]) ! i"
    using i len b by (auto simp: nth_ring_contents nth_append)
qed

lemma ring_pop:
  assumes ok: "ring_ok N buf head tail" and ne: "head \<noteq> tail"
  shows "ring_contents N buf head tail = buf ! tail # ring_contents N buf head ((tail + 1) mod N)"
proof (rule nth_equalityI)
  let ?t = "(tail + 1) mod N"
  have b: "head < N" "tail < N" "?t < N"
    using ok by (auto simp: ring_ok_def)
  have len: "(head + N - tail) mod N = (head + N - ?t) mod N + 1"
    using b ne by (auto simp: ring_count [OF b(1,3)] ring_count ring_step split: if_splits)
  then show "length (ring_contents N buf head tail) = length (buf ! tail # ring_contents N buf head ?t)"
    by simp
  fix i assume "i < length (ring_contents N buf head tail)"
  then have i: "i < (head + N - tail) mod N" by simp
  have "(tail + Suc j) mod N = (?t + j) mod N" for j
    by (simp add: mod_add_left_eq)
  then show "ring_contents N buf head tail ! i = (buf ! tail # ring_contents N buf head ?t) ! i"
    using i len b by (cases i) (auto simp: nth_ring_contents)
qed

section \<open>The interface\<close>

text \<open>Taking up to \<open>n\<close> elements out of a queue.\<close>

fun drain :: "('s \<Rightarrow> bool) \<Rightarrow> ('s \<Rightarrow> 'a \<times> 's) \<Rightarrow> nat \<Rightarrow> 's \<Rightarrow> 'a list \<times> 's" where
  "drain ne pop 0 s = ([], s)"
| "drain ne pop (Suc n) s =
     (if ne s then case pop s of (x, s') \<Rightarrow> (case drain ne pop n s' of (xs, s'') \<Rightarrow> (x # xs, s''))
      else ([], s))"

text \<open>\<open>valid\<close> restricts the elements a client may push.\<close>

locale bounded_fifo =
  fixes inv :: "'s \<Rightarrow> bool" and valid :: "'a \<Rightarrow> bool" and push :: "'a \<Rightarrow> 's \<Rightarrow> 's" and nonempty :: "'s \<Rightarrow> bool"
    and pop :: "'s \<Rightarrow> 'a \<times> 's" and contents :: "'s \<Rightarrow> 'a list" and cap :: nat
  assumes inv_push: "inv s \<Longrightarrow> valid x \<Longrightarrow> inv (push x s)"
    and contents_push: "inv s \<Longrightarrow> valid x \<Longrightarrow> contents (push x s) =
      (if length (contents s) < cap then contents s @ [x] else contents s)"
    and nonempty_iff: "inv s \<Longrightarrow> nonempty s \<longleftrightarrow> contents s \<noteq> []"
    and inv_pop: "inv s \<Longrightarrow> nonempty s \<Longrightarrow> inv (snd (pop s))"
    and contents_pop: "inv s \<Longrightarrow> nonempty s \<Longrightarrow> contents s = fst (pop s) # contents (snd (pop s))"
    and contents_cap: "inv s \<Longrightarrow> length (contents s) \<le> cap"
begin

lemma inv_push_list: "inv s \<Longrightarrow> list_all valid xs \<Longrightarrow> inv (fold push xs s)"
  by (induction xs arbitrary: s) (auto simp: inv_push)

lemma contents_push_list:
  "inv s \<Longrightarrow> list_all valid xs \<Longrightarrow> contents (fold push xs s) = take cap (contents s @ xs)"
proof (induction xs arbitrary: s)
  case Nil
  then show ?case using contents_cap by simp
next
  case (Cons x xs)
  have "take cap (contents (push x s) @ xs) = take cap (contents s @ x # xs)"
    using contents_push [OF Cons.prems(1), of x] contents_cap [OF Cons.prems(1)] Cons.prems(2)
    by (cases "length (contents s) < cap") (auto simp: take_Cons')
  then show ?case using Cons inv_push by simp
qed

lemma drain_contents:
  "inv s \<Longrightarrow> fst (drain nonempty pop n s) = take n (contents s) \<and>
     inv (snd (drain nonempty pop n s)) \<and> contents (snd (drain nonempty pop n s)) = drop n (contents s)"
proof (induction n arbitrary: s)
  case (Suc n)
  show ?case
  proof (cases "nonempty s")
    case True
    then show ?thesis
      using Suc.IH [OF inv_pop [OF Suc.prems True]] contents_pop [OF Suc.prems True]
      by (simp add: split_beta)
  next
    case False
    then show ?thesis using Suc.prems nonempty_iff by auto
  qed
qed auto

text \<open>What comes out is what went in, in order; what did not fit is lost.\<close>

lemma fifo_order:
  assumes "inv s" "contents s = []" "length xs \<le> n" "list_all valid xs"
  shows "fst (drain nonempty pop n (fold push xs s)) = take cap xs"
  using drain_contents [OF inv_push_list [OF assms(1,4)], of n] contents_push_list [OF assms(1,4)]
    assms(2,3) by (simp add: min_def)

end

end
