(* ===== verification/Tty.thy ===== *)
theory Tty
  imports Sched Ring
begin

text \<open>
  The text screen (\<^verbatim>\<open>stage2/dev/vga.c\<close>) and the virtual terminals (\<^verbatim>\<open>stage2/dev/tty.c\<close>). The screen is the list of its 2000 cells and the cursor register.
  Terminals are values of a map from their addresses, so that the pointer comparison with the
  active terminal and the use of the pointer as a wait object are those of the code. A \<^verbatim>\<open>char\<close> is
  a byte, sign-extended where C widens it. Interrupts arrive between calls.
\<close>

section \<open>VGA text mode\<close>

record vga_st = sched_st +
  vga_cells :: "u16 list"
  vga_cursor :: u16

definition cell_of :: "u8 \<Rightarrow> u16" where
  "cell_of c = scast c OR 0x0F00"

definition blank :: u16 where
  "blank = 0x0F20"

definition cell_idx :: "int \<Rightarrow> int \<Rightarrow> nat" where
  "cell_idx x y = nat (y * 80 + x)"

text \<open>The low byte goes out with register 0x0F and the high byte with 0x0E.\<close>

definition vga_move_cursor :: "int \<Rightarrow> int \<Rightarrow> 'a vga_st_scheme \<Rightarrow> 'a vga_st_scheme" where
  "vga_move_cursor x y s =
     (let pos = of_int (y * 80 + x) :: u16; lo = ucast (pos AND 0xFF) :: u8;
          hi = ucast (drop_bit 8 pos AND 0xFF) :: u8
      in s\<lparr>vga_cursor := push_bit 8 (ucast hi) OR ucast lo\<rparr>)"

definition vga_put_char :: "int \<Rightarrow> int \<Rightarrow> u8 \<Rightarrow> 'a vga_st_scheme \<Rightarrow> 'a vga_st_scheme" where
  "vga_put_char x y c s = s\<lparr>vga_cells := (vga_cells s)[cell_idx x y := cell_of c]\<rparr>"

definition vga_clear_char :: "int \<Rightarrow> int \<Rightarrow> 'a vga_st_scheme \<Rightarrow> 'a vga_st_scheme" where
  "vga_clear_char x y s = s\<lparr>vga_cells := (vga_cells s)[cell_idx x y := blank]\<rparr>"

definition vga_clear_row :: "int \<Rightarrow> 'a vga_st_scheme \<Rightarrow> 'a vga_st_scheme" where
  "vga_clear_row row s =
     s\<lparr>vga_cells := fold (\<lambda>x cs. cs[cell_idx (int x) row := blank]) [0..<80] (vga_cells s)\<rparr>"

definition vga_clear_screen :: "'a vga_st_scheme \<Rightarrow> 'a vga_st_scheme" where
  "vga_clear_screen s = s\<lparr>vga_cells := fold (\<lambda>i cs. cs[i := blank]) [0..<2000] (vga_cells s)\<rparr>"

definition vga_draw_buffer :: "u16 list \<Rightarrow> 'a vga_st_scheme \<Rightarrow> 'a vga_st_scheme" where
  "vga_draw_buffer cs s = s\<lparr>vga_cells := take 2000 cs\<rparr>"

definition vga_get_char :: "int \<Rightarrow> int \<Rightarrow> 'a vga_st_scheme \<Rightarrow> u8" where
  "vga_get_char x y s = ucast (vga_cells s ! cell_idx x y AND 0xFF)"

definition vga_get_entry :: "int \<Rightarrow> int \<Rightarrow> 'a vga_st_scheme \<Rightarrow> u16" where
  "vga_get_entry x y s = vga_cells s ! cell_idx x y"

section \<open>Terminals\<close>

record tty_t =
  cells :: "u16 list"
  cur_x :: int
  cur_y :: int
  tinput :: "u8 list"
  input_head :: nat
  input_tail :: nat
  tline :: "u8 list"
  line_fill :: nat
  line_pos :: nat

record tty_st = vga_st +
  tty_mem :: "u32 \<Rightarrow> tty_t"
  ttys :: "u32 list"
  active_tty :: int
  tty_ready :: bool
  early_x :: int
  early_y :: int

abbreviation upd_tty :: "u32 \<Rightarrow> (tty_t \<Rightarrow> tty_t) \<Rightarrow> 'a tty_st_scheme \<Rightarrow> 'a tty_st_scheme" where
  "upd_tty p f s \<equiv> s\<lparr>tty_mem := (tty_mem s)(p := f (tty_mem s p))\<rparr>"

definition tty_ptr :: "'a tty_st_scheme \<Rightarrow> int \<Rightarrow> u32" where
  "tty_ptr s i = ttys s ! nat i"

definition clear_tty :: "tty_t \<Rightarrow> tty_t" where
  "clear_tty t = t\<lparr>cells := fold (\<lambda>i cs. cs[i := blank]) [0..<2000] (cells t), cur_x := 0, cur_y := 0,
     input_head := 0, input_tail := 0, line_fill := 0, line_pos := 0\<rparr>"

definition tty_clear :: "u32 \<Rightarrow> 'a tty_st_scheme \<Rightarrow> 'a tty_st_scheme" where
  "tty_clear p s = upd_tty p clear_tty s"

definition tty_render :: "int \<Rightarrow> 'a tty_st_scheme \<Rightarrow> 'a tty_st_scheme" where
  "tty_render tty_id s =
     (let p = tty_ptr s tty_id in
      if p = 0 then s
      else vga_move_cursor (cur_x (tty_mem s p)) (cur_y (tty_mem s p))
             (vga_draw_buffer (cells (tty_mem s p)) s))"

definition tty_put_cell :: "u32 \<Rightarrow> int \<Rightarrow> int \<Rightarrow> u8 \<Rightarrow> 'a tty_st_scheme \<Rightarrow> 'a tty_st_scheme" where
  "tty_put_cell p x y c s =
     (let s1 = upd_tty p (\<lambda>t. t\<lparr>cells := (cells t)[cell_idx x y := cell_of c]\<rparr>) s
      in if p = tty_ptr s1 (active_tty s1) then vga_put_char x y c s1 else s1)"

text \<open>Row \<open>y\<close> is copied over the row above it, for every row in turn; the last row is blanked.\<close>

definition copy_row :: "nat \<Rightarrow> u16 list \<Rightarrow> u16 list" where
  "copy_row y cs = take ((y - 1) * 80) cs @ take 80 (drop (y * 80) cs) @ drop (y * 80) cs"

definition scroll_cells :: "u16 list \<Rightarrow> u16 list" where
  "scroll_cells cs = fold (\<lambda>x cs. cs[24 * 80 + x := blank]) [0..<80] (fold copy_row [1..<25] cs)"

definition tty_scroll :: "u32 \<Rightarrow> 'a tty_st_scheme \<Rightarrow> 'a tty_st_scheme" where
  "tty_scroll p s =
     (let s1 = upd_tty p (\<lambda>t. t\<lparr>cells := scroll_cells (cells t), cur_y := 24\<rparr>) s
      in if p = tty_ptr s1 (active_tty s1) then tty_render (active_tty s1) s1 else s1)"

definition early_scroll :: "'a tty_st_scheme \<Rightarrow> 'a tty_st_scheme" where
  "early_scroll s =
     (let s1 = fold (\<lambda>y s. fold (\<lambda>x s. vga_put_char (int x) (int y - 1) (vga_get_char (int x) (int y) s) s)
                 [0..<80] s) [1..<25] s;
          s2 = fold (\<lambda>x. vga_clear_char (int x) 24) [0..<80] s1
      in s2\<lparr>early_y := 24\<rparr>)"

definition tty_early_write :: "u8 \<Rightarrow> 'a tty_st_scheme \<Rightarrow> 'a tty_st_scheme" where
  "tty_early_write c s =
     (let s1 = (if c = 10 then s\<lparr>early_x := 0, early_y := early_y s + 1\<rparr>
                else if c = 13 then s\<lparr>early_x := 0\<rparr>
                else if c = 8
                then if 0 < early_x s
                     then vga_clear_char (early_x s - 1) (early_y s) (s\<lparr>early_x := early_x s - 1\<rparr>) else s
                else if c = 9 then s\<lparr>early_x := (early_x s + 8) AND NOT 7\<rparr>
                else (vga_put_char (early_x s) (early_y s) c s)\<lparr>early_x := early_x s + 1\<rparr>);
          s2 = (if 80 \<le> early_x s1 then s1\<lparr>early_x := 0, early_y := early_y s1 + 1\<rparr> else s1);
          s3 = (if 25 \<le> early_y s2 then early_scroll s2 else s2)
      in vga_move_cursor (early_x s3) (early_y s3) s3)"

section \<open>Input queue\<close>

definition push_input :: "u8 \<Rightarrow> tty_t \<Rightarrow> tty_t" where
  "push_input c t =
     (let next_head = (input_head t + 1) mod 256 in
      if next_head = input_tail t then t
      else t\<lparr>tinput := (tinput t)[input_head t := c], input_head := next_head\<rparr>)"

definition tty_push_input :: "u32 \<Rightarrow> u8 \<Rightarrow> 'a tty_st_scheme \<Rightarrow> 'a tty_st_scheme" where
  "tty_push_input p c s = upd_tty p (push_input c) s"

definition tty_has_input :: "tty_t \<Rightarrow> bool" where
  "tty_has_input t \<longleftrightarrow> input_head t \<noteq> input_tail t"

definition take_input :: "tty_t \<Rightarrow> u8 \<times> tty_t" where
  "take_input t = (tinput t ! input_tail t, t\<lparr>input_tail := (input_tail t + 1) mod 256\<rparr>)"

text \<open>
  Waiting for input. While the queue is empty the task blocks on the terminal; \<open>others\<close> stands for
  what happens until it runs again, \<open>esp\<close> for the frame it is suspended at.
\<close>

partial_function (option) tty_pop_input ::
    "('a tty_st_scheme \<Rightarrow> 'a tty_st_scheme option) \<Rightarrow> u32 \<Rightarrow> u32 \<Rightarrow> 'a tty_st_scheme \<Rightarrow>
      (u8 \<times> 'a tty_st_scheme) option" where
  "tty_pop_input others esp p s =
     (if tty_has_input (tty_mem s p)
      then Some (fst (take_input (tty_mem s p)), upd_tty p (\<lambda>t. snd (take_input t)) s)
      else do { r \<leftarrow> scheduler_block p esp s;
                s2 \<leftarrow> others (snd r);
                tty_pop_input others esp p s2 })"

definition tty_valid :: "int \<Rightarrow> bool" where
  "tty_valid tty \<longleftrightarrow> 0 \<le> tty \<and> tty < 4"

definition tty_current :: "'a tty_st_scheme \<Rightarrow> int" where
  "tty_current s = active_tty s"

text \<open>\<^verbatim>\<open>sizeof(tty_t)\<close> is 4532; the allocation is zeroed and then cleared.\<close>

definition zero_tty :: tty_t where
  "zero_tty = \<lparr>cells = replicate 2000 0, cur_x = 0, cur_y = 0, tinput = replicate 256 0, input_head = 0,
     input_tail = 0, tline = replicate 256 0, line_fill = 0, line_pos = 0\<rparr>"

fun tty_init_from :: "nat \<Rightarrow> nat \<Rightarrow> 'a tty_st_scheme \<Rightarrow> (bool \<times> 'a tty_st_scheme) option" where
  "tty_init_from i 0 s = Some (True, s)"
| "tty_init_from i (Suc k) s =
     do { (p, s) \<leftarrow> kmalloc 4532 s;
          let s = s\<lparr>ttys := (ttys s)[i := p]\<rparr>;
          if p = 0 then Some (False, s)
          else tty_init_from (Suc i) k (tty_clear p (s\<lparr>tty_mem := (tty_mem s)(p := zero_tty)\<rparr>)) }"

definition tty_init :: "'a tty_st_scheme \<Rightarrow> 'a tty_st_scheme option" where
  "tty_init s =
     do { (done, s) \<leftarrow> tty_init_from 0 4 s;
          if \<not> done then Some s
          else Some (tty_render 0 (s\<lparr>active_tty := 0, tty_ready := True, early_x := 0, early_y := 0\<rparr>)) }"

definition tty_switch :: "int \<Rightarrow> 'a tty_st_scheme \<Rightarrow> 'a tty_st_scheme" where
  "tty_switch tty s =
     (if \<not> tty_valid tty \<or> tty = active_tty s then s
      else tty_render tty (s\<lparr>active_tty := tty\<rparr>))"

section \<open>Output\<close>

text \<open>The \<^verbatim>\<open>switch (c)\<close> of \<^verbatim>\<open>tty_write\<close>.\<close>

definition tty_emit :: "int \<Rightarrow> u32 \<Rightarrow> u8 \<Rightarrow> 'a tty_st_scheme \<Rightarrow> 'a tty_st_scheme" where
  "tty_emit tty_id p c s =
     (let t = tty_mem s p in
      if c = 10 then upd_tty p (\<lambda>t. t\<lparr>cur_x := 0, cur_y := cur_y t + 1\<rparr>) s
      else if c = 13 then upd_tty p (\<lambda>t. t\<lparr>cur_x := 0\<rparr>) s
      else if c = 8
      then if 0 < cur_x t
           then tty_put_cell p (cur_x t - 1) (cur_y t) 32 (upd_tty p (\<lambda>t. t\<lparr>cur_x := cur_x t - 1\<rparr>) s)
           else s
      else if c = 9 then upd_tty p (\<lambda>t. t\<lparr>cur_x := (cur_x t + 8) AND NOT 7\<rparr>) s
      else if c = 12
      then let s1 = tty_clear p s in if tty_id = active_tty s1 then tty_render (active_tty s1) s1 else s1
      else upd_tty p (\<lambda>t. t\<lparr>cur_x := cur_x t + 1\<rparr>) (tty_put_cell p (cur_x t) (cur_y t) c s))"

definition tty_write :: "int \<Rightarrow> u8 \<Rightarrow> 'a tty_st_scheme \<Rightarrow> 'a tty_st_scheme" where
  "tty_write tty_id c s =
     (if \<not> tty_ready s \<or> \<not> tty_valid tty_id \<or> tty_ptr s tty_id = 0 then tty_early_write c s
      else let p = tty_ptr s tty_id;
               s1 = tty_emit tty_id p c s;
               s2 = (if 80 \<le> cur_x (tty_mem s1 p)
                     then upd_tty p (\<lambda>t. t\<lparr>cur_x := 0, cur_y := cur_y t + 1\<rparr>) s1 else s1);
               s3 = (if 25 \<le> cur_y (tty_mem s2 p) then tty_scroll p s2 else s2)
           in if tty_id = active_tty s3
              then vga_move_cursor (cur_x (tty_mem s3 p)) (cur_y (tty_mem s3 p)) s3 else s3)"

text \<open>A null buffer is \<open>None\<close>.\<close>

definition tty_write_buf :: "int \<Rightarrow> u8 list option \<Rightarrow> 'a tty_st_scheme \<Rightarrow> int \<times> 'a tty_st_scheme" where
  "tty_write_buf tty buf s =
     (case buf of
        None \<Rightarrow> (- 1, s)
      | Some cs \<Rightarrow> if \<not> tty_valid tty then (- 1, s) else (int (length cs), fold (tty_write tty) cs s))"

section \<open>Line input\<close>

text \<open>One character of the line editor; the flag says whether the line is complete.\<close>

definition tty_edit :: "int \<Rightarrow> u32 \<Rightarrow> u8 \<Rightarrow> 'a tty_st_scheme \<Rightarrow> bool \<times> 'a tty_st_scheme" where
  "tty_edit tty_id p c0 s =
     (let c = (if c0 = 13 then 10 else c0); t = tty_mem s p in
      if c = 8 \<or> c = 0x7F
      then (False, if 0 < line_fill t
                   then tty_write tty_id 8 (tty_write tty_id 32 (tty_write tty_id 8
                          (upd_tty p (\<lambda>t. t\<lparr>line_fill := line_fill t - 1\<rparr>) s)))
                   else s)
      else if c = 10
      then (True, tty_write tty_id 10 (tty_write tty_id 13
                    (if line_fill t < 256
                     then upd_tty p (\<lambda>t. t\<lparr>tline := (tline t)[line_fill t := 10], line_fill := line_fill t + 1\<rparr>) s
                     else s)))
      else if 32 \<le> sint c \<and> sint c < 127
      then (False, if line_fill t < 255
                   then tty_write tty_id c
                          (upd_tty p (\<lambda>t. t\<lparr>tline := (tline t)[line_fill t := c], line_fill := line_fill t + 1\<rparr>) s)
                   else s)
      else (False, s))"

partial_function (option) tty_line_loop ::
    "('a tty_st_scheme \<Rightarrow> 'a tty_st_scheme option) \<Rightarrow> u32 \<Rightarrow> int \<Rightarrow> u32 \<Rightarrow> 'a tty_st_scheme \<Rightarrow>
      'a tty_st_scheme option" where
  "tty_line_loop others esp tty_id p s =
     do { r \<leftarrow> tty_pop_input others esp p s;
          if fst (tty_edit tty_id p (fst r) (snd r)) then Some (snd (tty_edit tty_id p (fst r) (snd r)))
          else tty_line_loop others esp tty_id p (snd (tty_edit tty_id p (fst r) (snd r))) }"

text \<open>The result code, the bytes stored at \<^verbatim>\<open>dst\<close>, and the state; \<open>dst\<close> says whether it is non-null.\<close>

partial_function (option) tty_read ::
    "('a tty_st_scheme \<Rightarrow> 'a tty_st_scheme option) \<Rightarrow> u32 \<Rightarrow> int \<Rightarrow> nat \<Rightarrow> bool \<Rightarrow> 'a tty_st_scheme \<Rightarrow>
      (int \<times> u8 list \<times> 'a tty_st_scheme) option" where
  "tty_read others esp tty_id sz dst s =
     (if \<not> dst \<or> \<not> tty_valid tty_id then Some (- 1, [], s)
      else if tty_ptr s tty_id = 0 then Some (- 1, [], s)
      else let p = tty_ptr s tty_id; t = tty_mem s p in
        if line_pos t < line_fill t
        then let k = (if line_fill t - line_pos t < sz then line_fill t - line_pos t else sz)
             in Some (int k, take k (drop (line_pos t) (tline t)),
                      upd_tty p (\<lambda>t. t\<lparr>line_pos := line_pos t + k\<rparr>) s)
        else do { s1 \<leftarrow> tty_line_loop others esp tty_id p
                          (upd_tty p (\<lambda>t. t\<lparr>line_fill := 0, line_pos := 0\<rparr>) s);
                  tty_read others esp tty_id sz dst s1 })"

definition tty_handle_key :: "u8 \<Rightarrow> u8 \<Rightarrow> 'a tty_st_scheme \<Rightarrow> 'a tty_st_scheme option" where
  "tty_handle_key scancode ascii s =
     (if \<not> tty_ready s then Some s
      else if 0x3B \<le> scancode \<and> scancode \<le> 0x3E then Some (tty_switch (uint scancode - 0x3B) s)
      else if ascii \<noteq> 0
      then scheduler_wake (tty_ptr s (active_tty s)) (tty_push_input (tty_ptr s (active_tty s)) ascii s)
      else Some s)"

section \<open>What a terminal does\<close>

definition blank_cells :: "u16 list" where
  "blank_cells = replicate 2000 blank"

text \<open>Output on one terminal as a function of that terminal, without screen or pointers.\<close>

definition term_emit :: "u8 \<Rightarrow> tty_t \<Rightarrow> tty_t" where
  "term_emit c t =
     (if c = 10 then t\<lparr>cur_x := 0, cur_y := cur_y t + 1\<rparr>
      else if c = 13 then t\<lparr>cur_x := 0\<rparr>
      else if c = 8
      then if 0 < cur_x t
           then t\<lparr>cur_x := cur_x t - 1, cells := (cells t)[cell_idx (cur_x t - 1) (cur_y t) := blank]\<rparr> else t
      else if c = 9 then t\<lparr>cur_x := (cur_x t div 8 + 1) * 8\<rparr>
      else if c = 12
      then t\<lparr>cells := blank_cells, cur_x := 0, cur_y := 0, input_head := 0, input_tail := 0,
             line_fill := 0, line_pos := 0\<rparr>
      else t\<lparr>cells := (cells t)[cell_idx (cur_x t) (cur_y t) := cell_of c], cur_x := cur_x t + 1\<rparr>)"

definition term_wrap :: "tty_t \<Rightarrow> tty_t" where
  "term_wrap t = (if 80 \<le> cur_x t then t\<lparr>cur_x := 0, cur_y := cur_y t + 1\<rparr> else t)"

definition term_scroll :: "tty_t \<Rightarrow> tty_t" where
  "term_scroll t =
     (if 25 \<le> cur_y t then t\<lparr>cells := drop 80 (cells t) @ replicate 80 blank, cur_y := 24\<rparr> else t)"

definition term_write :: "u8 \<Rightarrow> tty_t \<Rightarrow> tty_t" where
  "term_write c t = term_scroll (term_wrap (term_emit c t))"

definition term_ok :: "tty_t \<Rightarrow> bool" where
  "term_ok t \<longleftrightarrow> length (cells t) = 2000 \<and> 0 \<le> cur_x t \<and> cur_x t < 80 \<and> 0 \<le> cur_y t \<and> cur_y t < 25 \<and>
     ring_ok 256 (tinput t) (input_head t) (input_tail t) \<and>
     length (tline t) = 256 \<and> line_pos t \<le> line_fill t \<and> line_fill t \<le> 256"

lemma fold_blank:
  "k + n \<le> length cs \<Longrightarrow> fold (\<lambda>x cs. cs[k + x := v]) [0..<n] cs = take k cs @ replicate n v @ drop (k + n) cs"
proof (induction n)
  case (Suc n)
  then have "drop (k + n) cs = cs ! (k + n) # drop (Suc (k + n)) cs"
    by (simp add: Cons_nth_drop_Suc)
  with Suc show ?case
    by (simp add: list_update_append replicate_append_same [symmetric])
qed simp

lemma copy_rows:
  "length cs = 2000 \<Longrightarrow> k \<le> 24 \<Longrightarrow> fold copy_row [1..<Suc k] cs = take (k * 80) (drop 80 cs) @ drop (k * 80) cs"
proof (induction k)
  case (Suc k)
  then have "fold copy_row [1..<Suc (Suc k)] cs = copy_row (Suc k) (take (k * 80) (drop 80 cs) @ drop (k * 80) cs)"
    by simp
  also have "\<dots> = (take (k * 80) (drop 80 cs) @ take 80 (drop (k * 80 + 80) cs)) @ drop (k * 80 + 80) cs"
    using Suc.prems by (simp add: copy_row_def min_def add.commute)
  also have "take (k * 80) (drop 80 cs) @ take 80 (drop (k * 80 + 80) cs) = take (Suc k * 80) (drop 80 cs)"
    using take_add [of "k * 80" 80 "drop 80 cs"] by (simp add: add.commute)
  finally show ?case by (simp add: add.commute)
qed simp

lemma scroll_cells_eq:
  assumes "length cs = 2000"
  shows "scroll_cells cs = drop 80 cs @ replicate 80 blank"
proof -
  have "fold copy_row [1..<25] cs = take 1920 (drop 80 cs) @ drop 1920 cs"
    using copy_rows [OF assms, of 24] by simp
  then show ?thesis
    using fold_blank [of 1920 80 "take 1920 (drop 80 cs) @ drop 1920 cs" blank] assms
    by (simp add: scroll_cells_def)
qed

lemma tab_stop: "x + 8 AND - 8 = x div 8 * 8 + (8 :: int)"
proof -
  have "(x + 8) AND NOT (mask 3) = push_bit 3 (drop_bit 3 (x + 8))"
    by (auto simp: bit_eq_iff bit_simps)
  moreover have "mask 3 = (7 :: int)" by (simp add: mask_eq_exp_minus_1)
  moreover have "(x + 8) div 8 = x div 8 + 1" by simp
  ultimately show ?thesis by (simp add: push_bit_eq_mult drop_bit_eq_div)
qed

lemma clear_tty_eq:
  "length (cells t) = 2000 \<Longrightarrow> clear_tty t = t\<lparr>cells := blank_cells, cur_x := 0, cur_y := 0,
     input_head := 0, input_tail := 0, line_fill := 0, line_pos := 0\<rparr>"
  using fold_blank [of 0 2000 "cells t" blank] by (simp add: clear_tty_def blank_cells_def)

lemma cell_of_space [simp]: "cell_of 32 = blank"
  by (simp add: cell_of_def blank_def signed_take_bit_eq)

lemma cell_idx_less: "0 \<le> x \<Longrightarrow> x < 80 \<Longrightarrow> 0 \<le> y \<Longrightarrow> y < 25 \<Longrightarrow> cell_idx x y < 2000"
  by (simp add: cell_idx_def)

lemma tab_bounds: "0 \<le> x \<Longrightarrow> x < (80 :: int) \<Longrightarrow> 0 \<le> x div 8 \<and> x div 8 < 10"
  by auto

lemma length_blank_cells [simp]: "length blank_cells = 2000"
  by (simp add: blank_cells_def)

lemma term_write_ok: "term_ok t \<Longrightarrow> term_ok (term_write c t)"
  unfolding term_ok_def term_write_def term_emit_def term_wrap_def term_scroll_def ring_ok_def
  using tab_bounds [of "cur_x t"] by simp


section \<open>The screen shows the active terminal\<close>

definition cursor_of :: "tty_t \<Rightarrow> u16" where
  "cursor_of t = of_int (cur_y t * 80 + cur_x t)"

definition present :: "'a tty_st_scheme \<Rightarrow> 'a tty_st_scheme" where
  "present s = s\<lparr>vga_cells := cells (tty_mem s (tty_ptr s (active_tty s))),
     vga_cursor := cursor_of (tty_mem s (tty_ptr s (active_tty s)))\<rparr>"

definition tty_inv :: "'a tty_st_scheme \<Rightarrow> bool" where
  "tty_inv s \<longleftrightarrow> tty_ready s \<and> length (ttys s) = 4 \<and> distinct (ttys s) \<and> 0 \<notin> set (ttys s) \<and>
     (\<forall>p \<in> set (ttys s). term_ok (tty_mem s p)) \<and> tty_valid (active_tty s) \<and>
     vga_cells s = cells (tty_mem s (tty_ptr s (active_tty s))) \<and>
     vga_cursor s = cursor_of (tty_mem s (tty_ptr s (active_tty s)))"

lemma tty_inv_present: "tty_inv s \<Longrightarrow> present s = s"
  by (simp add: tty_inv_def present_def)

lemma vga_move_cursor_eq: "vga_move_cursor x y s = s\<lparr>vga_cursor := of_int (y * 80 + x)\<rparr>"
proof -
  have "push_bit 8 (ucast (ucast (drop_bit 8 p AND 0xFF) :: u8)) OR ucast (ucast (p AND 0xFF) :: u8) = p" for p :: u16
  proof -
    have m: "(0xFF :: u16) = mask 8" by (simp add: mask_eq_exp_minus_1)
    show ?thesis unfolding m by (rule bit_eqI) (auto simp: bit_simps)
  qed
  then show ?thesis by (simp add: vga_move_cursor_def Let_def)
qed

lemma tty_inv_ptr:
  assumes "tty_inv s" "tty_valid i"
  shows "tty_ptr s i \<in> set (ttys s)" "tty_ptr s i \<noteq> 0" "term_ok (tty_mem s (tty_ptr s i))"
proof -
  show "tty_ptr s i \<in> set (ttys s)"
    using assms by (simp add: tty_inv_def tty_ptr_def tty_valid_def nat_less_iff)
  then show "tty_ptr s i \<noteq> 0" "term_ok (tty_mem s (tty_ptr s i))"
    using assms by (auto simp: tty_inv_def)
qed

lemma tty_ptr_inj:
  "tty_inv s \<Longrightarrow> tty_valid i \<Longrightarrow> tty_valid j \<Longrightarrow> tty_ptr s i = tty_ptr s j \<longleftrightarrow> i = j"
  by (auto simp: tty_inv_def tty_ptr_def tty_valid_def nth_eq_iff_index_eq)

lemma tty_ptr_upd [simp]:
  "tty_ptr (s\<lparr>tty_mem := m\<rparr>) i = tty_ptr s i" "tty_ptr (s\<lparr>vga_cells := cs\<rparr>) i = tty_ptr s i"
  "tty_ptr (s\<lparr>vga_cursor := k\<rparr>) i = tty_ptr s i" "tty_ptr (s\<lparr>active_tty := a\<rparr>) i = tty_ptr s i"
  "tty_ptr (s\<lparr>tasks := T\<rparr>) i = tty_ptr s i"
  by (simp_all add: tty_ptr_def)

lemma put_cell_inactive:
  "p \<noteq> tty_ptr s (active_tty s) \<Longrightarrow>
     tty_put_cell p x y c s = upd_tty p (\<lambda>t. t\<lparr>cells := (cells t)[cell_idx x y := cell_of c]\<rparr>) s"
  by (simp add: tty_put_cell_def)

lemma put_cell_active:
  "p = tty_ptr s (active_tty s) \<Longrightarrow>
     tty_put_cell p x y c s = upd_tty p (\<lambda>t. t\<lparr>cells := (cells t)[cell_idx x y := cell_of c]\<rparr>)
       (s\<lparr>vga_cells := (vga_cells s)[cell_idx x y := cell_of c]\<rparr>)"
  by (simp add: tty_put_cell_def vga_put_char_def)

lemma emit_cases:
  obtains "c = 10" | "c = 13" | "c = 8" | "c = 9" | "c = 12" | "(c :: u8) \<notin> {8, 9, 10, 12, 13}"
  by blast

lemma emit_inactive:
  assumes "tty_id \<noteq> active_tty s" "p \<noteq> tty_ptr s (active_tty s)" "length (cells (tty_mem s p)) = 2000"
  shows "tty_emit tty_id p c s = upd_tty p (term_emit c) s"
proof (cases c rule: emit_cases)
  case 5
  then show ?thesis
    using assms by (simp add: tty_emit_def term_emit_def tty_clear_def clear_tty_eq)
next
  case 6
  then show ?thesis
    using assms by (simp add: tty_emit_def term_emit_def put_cell_inactive Let_def)
qed (use assms in \<open>simp_all add: tty_emit_def term_emit_def put_cell_inactive tab_stop Let_def\<close>)

text \<open>The state in which terminal \<open>p\<close> is \<open>t\<close>, the screen shows it, and the cursor register is \<open>k\<close>.\<close>

abbreviation shown :: "u32 \<Rightarrow> tty_t \<Rightarrow> u16 \<Rightarrow> 'a tty_st_scheme \<Rightarrow> 'a tty_st_scheme" where
  "shown p t k s \<equiv> s\<lparr>vga_cells := cells t, vga_cursor := k, tty_mem := (tty_mem s)(p := t)\<rparr>"

lemma shown_self: "vga_cells s = cells (tty_mem s p) \<Longrightarrow> s = shown p (tty_mem s p) (vga_cursor s) s"
  by simp

lemma render_shown:
  "p \<noteq> 0 \<Longrightarrow> p = tty_ptr s (active_tty s) \<Longrightarrow> length (cells t) = 2000 \<Longrightarrow>
     tty_render (active_tty s) (s\<lparr>tty_mem := (tty_mem s)(p := t)\<rparr>) = shown p t (cursor_of t) s"
  by (simp add: tty_render_def vga_draw_buffer_def vga_move_cursor_eq cursor_of_def)

lemma emit_active:
  assumes "p = tty_ptr s (active_tty s)" "p \<noteq> 0" "length (cells (tty_mem s p)) = 2000"
    and "vga_cells s = cells (tty_mem s p)"
  shows "\<exists>k. tty_emit (active_tty s) p c s = shown p (term_emit c (tty_mem s p)) k s"
proof (cases c rule: emit_cases)
  case 5
  then show ?thesis
    using assms render_shown [OF assms(2,1), of "clear_tty (tty_mem s p)"]
    by (auto simp: tty_emit_def term_emit_def tty_clear_def clear_tty_eq)
next
  case 6
  then show ?thesis
    using assms by (intro exI [of _ "vga_cursor s"])
      (simp add: tty_emit_def term_emit_def put_cell_active Let_def)
next
  case 3
  then show ?thesis
    using assms by (intro exI [of _ "vga_cursor s"])
      (simp add: tty_emit_def term_emit_def put_cell_active Let_def)
qed (use assms in \<open>intro exI [of _ "vga_cursor s"], simp add: tty_emit_def term_emit_def tab_stop\<close>)+

lemma scroll_inactive:
  assumes "p \<noteq> tty_ptr s (active_tty s)" "length (cells (tty_mem s p)) = 2000"
  shows "(if 25 \<le> cur_y (tty_mem s p) then tty_scroll p s else s) = upd_tty p term_scroll s"
  using assms by (simp add: tty_scroll_def term_scroll_def scroll_cells_eq Let_def)

lemma scroll_active:
  assumes "p = tty_ptr s (active_tty s)" "p \<noteq> 0" "length (cells (tty_mem s p)) = 2000" "vga_cells s = cells (tty_mem s p)"
  shows "\<exists>k. (if 25 \<le> cur_y (tty_mem s p) then tty_scroll p s else s) = shown p (term_scroll (tty_mem s p)) k s"
proof (cases "25 \<le> cur_y (tty_mem s p)")
  case True
  then show ?thesis
    using assms render_shown [OF assms(2,1), of "term_scroll (tty_mem s p)"]
    by (auto simp: tty_scroll_def term_scroll_def scroll_cells_eq Let_def)
next
  case False
  then show ?thesis
    using assms by (intro exI [of _ "vga_cursor s"]) (simp add: term_scroll_def)
qed

lemma term_emit_len: "length (cells t) = 2000 \<Longrightarrow> length (cells (term_emit c t)) = 2000"
  by (simp add: term_emit_def)

lemma term_wrap_len [simp]: "cells (term_wrap t) = cells t"
  by (simp add: term_wrap_def)

lemma tty_write_inactive:
  assumes "tty_inv s" "tty_valid i" "i \<noteq> active_tty s"
  shows "tty_write i c s = upd_tty (tty_ptr s i) (term_write c) s"
proof -
  let ?p = "tty_ptr s i"
  have p: "?p \<noteq> tty_ptr s (active_tty s)" "?p \<noteq> 0" "length (cells (tty_mem s ?p)) = 2000"
    using assms tty_ptr_inj [OF assms(1,2)] tty_inv_ptr [OF assms(1,2)] by (auto simp: tty_inv_def term_ok_def)
  let ?s1 = "upd_tty ?p (term_emit c) s"
  let ?s2 = "upd_tty ?p term_wrap ?s1"
  have e2: "(if 80 \<le> cur_x (tty_mem ?s1 ?p)
      then upd_tty ?p (\<lambda>t. t\<lparr>cur_x := 0, cur_y := cur_y t + 1\<rparr>) ?s1 else ?s1) = ?s2"
    by (simp add: term_wrap_def)
  have e3: "(if 25 \<le> cur_y (tty_mem ?s2 ?p) then tty_scroll ?p ?s2 else ?s2) = upd_tty ?p term_scroll ?s2"
    using p by (intro scroll_inactive) (auto simp: term_emit_len)
  have "tty_write i c s = upd_tty ?p term_scroll ?s2"
    unfolding tty_write_def Let_def emit_inactive [OF assms(3) p(1,3)] e2 e3
    using assms p by (simp add: tty_inv_def)
  then show ?thesis by (simp add: term_write_def)
qed

lemma tty_write_active:
  assumes inv: "tty_inv s"
  shows "tty_write (active_tty s) c s =
    (let p = tty_ptr s (active_tty s); t = term_write c (tty_mem s p) in shown p t (cursor_of t) s)"
proof -
  let ?i = "active_tty s" and ?p = "tty_ptr s (active_tty s)"
  have v: "tty_valid ?i" "tty_ready s" and vc: "vga_cells s = cells (tty_mem s ?p)"
    using inv by (auto simp: tty_inv_def)
  have p: "?p \<noteq> 0" "length (cells (tty_mem s ?p)) = 2000"
    using tty_inv_ptr [OF inv v(1)] by (auto simp: term_ok_def)
  obtain k1 where k1: "tty_emit ?i ?p c s = shown ?p (term_emit c (tty_mem s ?p)) k1 s"
    using emit_active [OF refl p vc] by blast
  let ?s1 = "shown ?p (term_emit c (tty_mem s ?p)) k1 s"
  let ?s2 = "upd_tty ?p term_wrap ?s1"
  have e2: "(if 80 \<le> cur_x (tty_mem ?s1 ?p)
      then upd_tty ?p (\<lambda>t. t\<lparr>cur_x := 0, cur_y := cur_y t + 1\<rparr>) ?s1 else ?s1) = ?s2"
    by (simp add: term_wrap_def)
  obtain k3 where e3: "(if 25 \<le> cur_y (tty_mem ?s2 ?p) then tty_scroll ?p ?s2 else ?s2) =
      shown ?p (term_scroll (tty_mem ?s2 ?p)) k3 ?s2"
    using scroll_active [of ?p ?s2] p by (auto simp: term_emit_len)
  show ?thesis
    unfolding tty_write_def Let_def k1 e2 e3
    using v p by (simp add: vga_move_cursor_eq cursor_of_def term_write_def)
qed

lemma present_other:
  assumes "tty_inv s" "p \<noteq> tty_ptr s (active_tty s)"
  shows "present (s\<lparr>tty_mem := (tty_mem s)(p := t)\<rparr>) = s\<lparr>tty_mem := (tty_mem s)(p := t)\<rparr>"
  using assms by (simp add: present_def tty_inv_def)

lemma tty_write_eq:
  assumes "tty_inv s" "tty_valid i"
  shows "tty_write i c s = present (upd_tty (tty_ptr s i) (term_write c) s)"
proof (cases "i = active_tty s")
  case True
  then show ?thesis using tty_write_active [OF assms(1)] by (simp add: present_def Let_def)
next
  case False
  then have "tty_ptr s i \<noteq> tty_ptr s (active_tty s)"
    using assms tty_ptr_inj [OF assms] by (auto simp: tty_inv_def)
  then show ?thesis
    using False assms tty_write_inactive [OF assms False] present_other [of s "tty_ptr s i"]
    by simp
qed

lemma present_upd_inv:
  assumes "tty_inv s" "term_ok t"
  shows "tty_inv (present (s\<lparr>tty_mem := (tty_mem s)(p := t)\<rparr>))"
  using assms by (auto simp: tty_inv_def present_def tty_ptr_def)

lemma tty_write_inv: "tty_inv s \<Longrightarrow> tty_valid i \<Longrightarrow> tty_inv (tty_write i c s)"
  by (simp add: tty_write_eq present_upd_inv term_write_ok tty_inv_ptr)

lemma tty_switch_eq:
  assumes "tty_inv s"
  shows "tty_switch i s = (if tty_valid i then present (s\<lparr>active_tty := i\<rparr>) else s)"
proof (cases "tty_valid i \<and> i \<noteq> active_tty s")
  case True
  then show ?thesis
    using tty_inv_ptr [OF assms, of i]
    by (simp add: tty_switch_def tty_render_def vga_draw_buffer_def vga_move_cursor_eq present_def cursor_of_def
        term_ok_def Let_def)
next
  case False
  have "present (s\<lparr>active_tty := active_tty s\<rparr>) = s"
    using tty_inv_present [OF assms] by simp
  then show ?thesis using False by (auto simp: tty_switch_def)
qed

lemma tty_switch_inv: "tty_inv s \<Longrightarrow> tty_inv (tty_switch i s)"
  by (auto simp: tty_switch_eq) (auto simp: tty_inv_def present_def tty_ptr_def)

section \<open>The input queue is a bounded FIFO\<close>

definition input_of :: "tty_t \<Rightarrow> u8 list" where
  "input_of t = ring_contents 256 (tinput t) (input_head t) (input_tail t)"

definition input_ok :: "tty_t \<Rightarrow> bool" where
  "input_ok t \<longleftrightarrow> ring_ok 256 (tinput t) (input_head t) (input_tail t)"

interpretation tty_queue: bounded_fifo input_ok "\<lambda>_. True" push_input tty_has_input take_input input_of 255
proof unfold_locales
  fix t :: tty_t and x :: u8
  assume t: "input_ok t"
  note ok = t [unfolded input_ok_def]
  show "input_ok (push_input x t)"
    using t by (simp add: input_ok_def ring_ok_def push_input_def Let_def)
  show "input_of (push_input x t) = (if length (input_of t) < 255 then input_of t @ [x] else input_of t)"
    using ring_push [OF ok] ring_full [OF ok]
    by (simp add: input_of_def push_input_def Let_def del: length_ring_contents)
  show "tty_has_input t \<longleftrightarrow> input_of t \<noteq> []"
    using ring_contents_empty [OF ok] by (simp add: tty_has_input_def input_of_def)
  show "length (input_of t) \<le> 255"
    using ring_length [OF ok] by (simp add: input_of_def del: length_ring_contents)
  assume ne: "tty_has_input t"
  show "input_ok (snd (take_input t))"
    using t by (simp add: input_ok_def ring_ok_def take_input_def)
  show "input_of t = fst (take_input t) # input_of (snd (take_input t))"
    using ring_pop [OF ok] ne by (simp add: input_of_def take_input_def tty_has_input_def)
qed

lemma term_ok_input: "term_ok t \<Longrightarrow> input_ok t"
  by (simp add: term_ok_def input_ok_def)

lemma push_input_ok: "term_ok t \<Longrightarrow> term_ok (push_input c t)"
  using tty_queue.inv_push [of t c] by (auto simp: term_ok_def input_ok_def push_input_def Let_def)

text \<open>A change of a terminal that leaves its picture alone leaves the screen alone.\<close>

lemma tty_inv_upd:
  assumes "tty_inv s" "term_ok t" "cells t = cells (tty_mem s p)" "cursor_of t = cursor_of (tty_mem s p)"
  shows "tty_inv (s\<lparr>tty_mem := (tty_mem s)(p := t)\<rparr>)"
  using assms by (auto simp: tty_inv_def)

lemma tty_inv_tasks: "tty_inv s \<Longrightarrow> tty_inv (s\<lparr>tasks := T\<rparr>)"
  by (simp add: tty_inv_def)

lemma push_input_picture [simp]: "cells (push_input c t) = cells t" "cursor_of (push_input c t) = cursor_of t"
  by (simp_all add: push_input_def cursor_of_def Let_def)

lemma tty_push_input_inv:
  "tty_inv s \<Longrightarrow> tty_valid i \<Longrightarrow> tty_inv (tty_push_input (tty_ptr s i) c s)"
  unfolding tty_push_input_def by (intro tty_inv_upd push_input_ok) (auto simp: tty_inv_ptr)

lemma tty_inv_valid: "tty_inv s \<Longrightarrow> tty_valid (active_tty s)"
  by (simp add: tty_inv_def)

lemma tty_handle_key_inv: "tty_inv s \<Longrightarrow> tty_handle_key sc ascii s = Some s' \<Longrightarrow> tty_inv s'"
  using tty_push_input_inv [of s "active_tty s" ascii] tty_inv_valid [of s]
  by (auto simp: tty_handle_key_def scheduler_wake_def tty_switch_inv tty_inv_tasks
      bind_eq_Some_conv split: if_splits)

section \<open>Line editing\<close>

text \<open>The line being typed, as the characters typed so far make it.\<close>

definition edit_char :: "u8 \<Rightarrow> u8 list \<Rightarrow> u8 list" where
  "edit_char c l =
     (if c = 8 \<or> c = 0x7F then butlast l
      else if 32 \<le> sint c \<and> sint c < 127 \<and> length l < 255 then l @ [c] else l)"

definition line_of :: "tty_t \<Rightarrow> u8 list" where
  "line_of t = take (line_fill t) (tline t)"

definition io_of :: "tty_t \<Rightarrow> u8 list \<times> nat \<times> nat \<times> u8 list \<times> nat \<times> nat" where
  "io_of t = (tinput t, input_head t, input_tail t, tline t, line_fill t, line_pos t)"

lemma term_write_io: "c \<noteq> 12 \<Longrightarrow> io_of (term_write c t) = io_of t"
  by (simp add: io_of_def term_write_def term_emit_def term_wrap_def term_scroll_def)

lemma tty_write_mem:
  "tty_inv s \<Longrightarrow> tty_valid i \<Longrightarrow> tty_mem (tty_write i c s) = (tty_mem s)(tty_ptr s i := term_write c (tty_mem s (tty_ptr s i)))"
  by (simp add: tty_write_eq present_def)

lemma tty_write_ptr: "tty_inv s \<Longrightarrow> tty_valid i \<Longrightarrow> tty_ptr (tty_write i c s) j = tty_ptr s j"
  by (simp add: tty_write_eq present_def)

text \<open>\<open>editing\<close> relates a state to the line typed at terminal \<open>i\<close> and the input still queued there.\<close>

definition editing :: "int \<Rightarrow> u32 \<Rightarrow> u8 list \<Rightarrow> u8 list \<Rightarrow> 'a tty_st_scheme \<Rightarrow> bool" where
  "editing i p l q s \<longleftrightarrow> tty_inv s \<and> tty_valid i \<and> tty_ptr s i = p \<and> line_pos (tty_mem s p) = 0 \<and>
     line_of (tty_mem s p) = l \<and> input_of (tty_mem s p) = q"

lemma editing_write: "editing i p l q s \<Longrightarrow> c \<noteq> 12 \<Longrightarrow> editing i p l q (tty_write i c s)"
  using term_write_io [of c "tty_mem s p"]
  by (auto simp: editing_def tty_write_inv tty_write_ptr tty_write_mem io_of_def line_of_def input_of_def)

lemma editing_len: "editing i p l q s \<Longrightarrow> length l = line_fill (tty_mem s p)"
  using tty_inv_ptr(3) [of s i] by (auto simp: editing_def line_of_def term_ok_def)

lemma editing_upd:
  assumes "editing i p l q s" "term_ok t" "cells t = cells (tty_mem s p)" "cur_x t = cur_x (tty_mem s p)"
    "cur_y t = cur_y (tty_mem s p)" "line_pos t = 0" "line_of t = l'" "input_of t = q'"
  shows "editing i p l' q' (s\<lparr>tty_mem := (tty_mem s)(p := t)\<rparr>)"
  using assms tty_inv_upd [of s t p] by (simp add: editing_def cursor_of_def)

lemma editing_erase:
  assumes e: "editing i p l q s" and "0 < line_fill (tty_mem s p)"
  shows "editing i p (butlast l) q (upd_tty p (\<lambda>t. t\<lparr>line_fill := line_fill t - 1\<rparr>) s)"
  using e assms(2) tty_inv_ptr(3) [of s i]
  by (intro editing_upd [OF e]) (auto simp: editing_def term_ok_def line_of_def input_of_def butlast_take)

lemma editing_append:
  assumes e: "editing i p l q s" and "line_fill (tty_mem s p) < 256"
  shows "editing i p (l @ [c]) q
    (upd_tty p (\<lambda>t. t\<lparr>tline := (tline t)[line_fill t := c], line_fill := line_fill t + 1\<rparr>) s)"
  using e assms(2) tty_inv_ptr(3) [of s i]
  by (intro editing_upd [OF e]) (auto simp: editing_def term_ok_def line_of_def input_of_def take_Suc_conv_app_nth)

lemma edit_step:
  assumes e: "editing i p l q s" and c: "c \<noteq> 10" "c \<noteq> 13"
  shows "\<not> fst (tty_edit i p c s)" "editing i p (edit_char c l) q (snd (tty_edit i p c s))"
proof -
  let ?n = "line_fill (tty_mem s p)"
  show "\<not> fst (tty_edit i p c s)"
    using c by (simp add: tty_edit_def Let_def)
  consider "c = 8 \<or> c = 127" "0 < ?n" | "c = 8 \<or> c = 127" "?n = 0"
    | "c \<noteq> 8" "c \<noteq> 127" "32 \<le> sint c" "sint c < 127" "?n < 255"
    | "c \<noteq> 8" "c \<noteq> 127" "\<not> (32 \<le> sint c \<and> sint c < 127 \<and> ?n < 255)"
    by blast
  then show "editing i p (edit_char c l) q (snd (tty_edit i p c s))"
  proof cases
    case 1
    note w = editing_write [OF editing_write [OF editing_write [OF editing_erase [OF e 1(2)]]]]
    show ?thesis using w [of 8 32 8] 1 c by (auto simp: tty_edit_def edit_char_def Let_def)
  next
    case 2
    then show ?thesis using editing_len [OF e] e c by (auto simp: tty_edit_def edit_char_def Let_def)
  next
    case 3
    then have "c \<noteq> 12" by auto
    then show ?thesis
      using editing_write [OF editing_append [OF e, of c], of c] 3 editing_len [OF e] c
      by (simp add: tty_edit_def edit_char_def Let_def)
  next
    case 4
    then show ?thesis using editing_len [OF e] e c by (auto simp: tty_edit_def edit_char_def Let_def)
  qed
qed

lemma edit_end:
  assumes e: "editing i p l q s" and c: "c = 10 \<or> c = 13" and l: "length l \<le> 255"
  shows "fst (tty_edit i p c s)" "editing i p (l @ [10]) q (snd (tty_edit i p c s))"
proof -
  have f: "line_fill (tty_mem s p) < 256" using editing_len [OF e] l by simp
  have "tty_edit i p c s = (True, tty_write i 10 (tty_write i 13
      (upd_tty p (\<lambda>t. t\<lparr>tline := (tline t)[line_fill t := 10], line_fill := line_fill t + 1\<rparr>) s)))"
    using c f by (auto simp: tty_edit_def Let_def)
  then show "fst (tty_edit i p c s)" "editing i p (l @ [10]) q (snd (tty_edit i p c s))"
    using editing_write [OF editing_write [OF editing_append [OF e f]]] by simp_all
qed

lemma edit_char_len: "length l \<le> 255 \<Longrightarrow> length (edit_char c l) \<le> 255"
  by (auto simp: edit_char_def)

lemma editing_pop:
  assumes e: "editing i p l (c # q) s"
  shows "\<exists>s'. tty_pop_input others esp p s = Some (c, s') \<and> editing i p l q s'"
proof -
  let ?t = "tty_mem s p"
  have ok: "term_ok ?t" "input_ok ?t" and q: "input_of ?t = c # q"
    using e tty_inv_ptr(3) [of s i] by (auto simp: editing_def term_ok_input)
  have ne: "tty_has_input ?t"
    using tty_queue.nonempty_iff [OF ok(2)] q by simp
  have "fst (take_input ?t) = c" "input_of (snd (take_input ?t)) = q" "input_ok (snd (take_input ?t))"
    using tty_queue.contents_pop [OF ok(2) ne] tty_queue.inv_pop [OF ok(2) ne] q by auto
  moreover have "term_ok (snd (take_input ?t))"
    using ok(1) by (simp add: term_ok_def take_input_def ring_ok_def)
  moreover have "line_pos ?t = 0" "line_of ?t = l" using e by (simp_all add: editing_def)
  ultimately have "editing i p l q (upd_tty p (\<lambda>t. snd (take_input t)) s)" "fst (take_input ?t) = c"
    by (simp_all add: editing_upd [OF e] take_input_def line_of_def)
  then show ?thesis
    using ne by (simp add: tty_pop_input.simps)
qed

lemma line_loop_spec:
  assumes "editing i p l (cs @ nl # rest) s" "nl = 10 \<or> nl = 13" "10 \<notin> set cs" "13 \<notin> set cs" "length l \<le> 255"
  shows "\<exists>s'. tty_line_loop others esp i p s = Some s' \<and> editing i p (fold edit_char cs l @ [10]) rest s' \<and>
    length (fold edit_char cs l) \<le> 255"
  using assms
proof (induction cs arbitrary: l s)
  case Nil
  obtain s1 where s1: "tty_pop_input others esp p s = Some (nl, s1)" "editing i p l rest s1"
    using editing_pop Nil.prems(1) by force
  then show ?case
    using edit_end [OF s1(2) Nil.prems(2,5)] Nil.prems(5) by (simp add: tty_line_loop.simps)
next
  case (Cons c cs)
  obtain s1 where s1: "tty_pop_input others esp p s = Some (c, s1)" "editing i p l (cs @ nl # rest) s1"
    using editing_pop Cons.prems(1) by force
  have c: "c \<noteq> 10" "c \<noteq> 13" using Cons.prems by auto
  note st = edit_step [OF s1(2) c]
  obtain s' where "tty_line_loop others esp i p (snd (tty_edit i p c s1)) = Some s'"
      "editing i p (fold edit_char cs (edit_char c l) @ [10]) rest s'"
      "length (fold edit_char cs (edit_char c l)) \<le> 255"
    using Cons.IH [OF st(2)] Cons.prems edit_char_len by auto
  then show ?case using s1(1) st(1) by (simp add: tty_line_loop.simps)
qed

lemma editing_start:
  assumes "tty_inv s" "tty_valid i"
  shows "editing i (tty_ptr s i) [] (input_of (tty_mem s (tty_ptr s i)))
    (upd_tty (tty_ptr s i) (\<lambda>t. t\<lparr>line_fill := 0, line_pos := 0\<rparr>) s)"
proof -
  let ?t = "(tty_mem s (tty_ptr s i))\<lparr>line_fill := 0, line_pos := 0\<rparr>"
  have "term_ok ?t" using tty_inv_ptr(3) [OF assms] by (simp add: term_ok_def)
  then have "tty_inv (s\<lparr>tty_mem := (tty_mem s)(tty_ptr s i := ?t)\<rparr>)"
    by (intro tty_inv_upd assms) (simp_all add: cursor_of_def)
  then show ?thesis
    using assms(2) by (simp add: editing_def line_of_def input_of_def)
qed

lemma read_buffered:
  assumes e: "editing i p l q s" and l: "l \<noteq> []"
  shows "\<exists>s'. tty_read others esp i sz True s = Some (int (min sz (length l)), take sz l, s') \<and> tty_inv s' \<and>
    input_of (tty_mem s' p) = q"
proof -
  let ?t = "tty_mem s p"
  let ?t' = "?t\<lparr>line_pos := min sz (length l)\<rparr>"
  have inv: "tty_inv s" "tty_valid i" "tty_ptr s i = p" "line_pos ?t = 0" "line_of ?t = l" "input_of ?t = q"
    using e by (simp_all add: editing_def)
  have ok: "term_ok ?t" "p \<noteq> 0" using tty_inv_ptr(2,3) [OF inv(1,2)] inv(3) by auto
  have len: "line_fill ?t = length l" using editing_len [OF e] by simp
  have tk: "take (min sz (length l)) (tline ?t) = take sz l"
    using arg_cong [OF inv(5), of "take sz"] len by (simp add: line_of_def)
  have "term_ok ?t'" using ok len by (simp add: term_ok_def)
  then have "tty_inv (s\<lparr>tty_mem := (tty_mem s)(p := ?t')\<rparr>)"
    by (intro tty_inv_upd inv) (simp_all add: cursor_of_def)
  moreover have "(if length l < sz then length l else sz) = min sz (length l)" by simp
  ultimately show ?thesis
    using inv len l tk ok(2) by (auto simp: tty_read.simps [of _ _ i] Let_def input_of_def simp del: min.cobounded1)
qed

lemma line_read:
  assumes inv: "tty_inv s" "tty_valid i" and t: "t = tty_mem s (tty_ptr s i)" "line_pos t = line_fill t"
    and q: "input_of t = cs @ nl # rest" "nl = 10 \<or> nl = 13" "10 \<notin> set cs" "13 \<notin> set cs"
    and l: "l = fold edit_char cs [] @ [10]"
  shows "\<exists>s'. tty_read others esp i sz True s = Some (int (min sz (length l)), take sz l, s') \<and>
    length l \<le> 256 \<and> input_of (tty_mem s' (tty_ptr s i)) = rest \<and> tty_inv s'"
proof -
  let ?p = "tty_ptr s i"
  let ?s0 = "upd_tty ?p (\<lambda>t. t\<lparr>line_fill := 0, line_pos := 0\<rparr>) s"
  have e: "editing i ?p [] (cs @ nl # rest) ?s0"
    using editing_start [OF inv] q(1) t(1) by simp
  obtain s1 where s1: "tty_line_loop others esp i ?p ?s0 = Some s1" "editing i ?p l rest s1" "length l \<le> 256"
    using line_loop_spec [OF e q(2-4)] l by auto
  obtain s' where "tty_read others esp i sz True s1 = Some (int (min sz (length l)), take sz l, s')"
    "tty_inv s'" "input_of (tty_mem s' ?p) = rest"
    using read_buffered [OF s1(2)] l by blast
  then show ?thesis
    using s1 t inv(2) tty_inv_ptr(2) [OF inv] by (simp add: tty_read.simps [of _ _ i _ _ s] Let_def)
qed

text \<open>
  C18. Reading a line. When the characters queued at a terminal are \<open>cs\<close>, a newline (or carriage return)
  and \<open>rest\<close>, and no part of an earlier line is left, a read returns without blocking, whatever
  the rest of the system would do: its result is the first \<open>sz\<close> bytes of the line that the
  editing keys in \<open>cs\<close> leave, with a newline, of at most 256 bytes; \<open>rest\<close> stays queued and the
  screen still shows the active terminal.
\<close>

theorem tty_read_line:
  assumes inv: "tty_inv s" "tty_valid i" and t: "t = tty_mem s (tty_ptr s i)" "line_pos t = line_fill t"
    and q: "input_of t = cs @ nl # rest" "nl = 10 \<or> nl = 13" "10 \<notin> set cs" "13 \<notin> set cs"
    and l: "l = fold edit_char cs [] @ [10]"
  shows "\<exists>s'. tty_read others esp i sz True s = Some (int (min sz (length l)), take sz l, s') \<and>
    length l \<le> 256 \<and> input_of (tty_mem s' (tty_ptr s i)) = rest \<and> tty_inv s'"
  by (rule line_read [OF assms])

section \<open>Starting the terminals\<close>

lemma more_tty:
  assumes "heap_st.more s' = heap_st.more (s :: 'a tty_st_scheme)"
  shows "ttys s' = ttys s" "tty_mem s' = tty_mem s"
  using assms by (cases s; cases s'; simp)+

definition boot_term :: tty_t where
  "boot_term = zero_tty\<lparr>cells := blank_cells\<rparr>"

lemma boot_term: "clear_tty zero_tty = boot_term" "term_ok boot_term" "input_of boot_term = []" "line_fill boot_term = 0"
proof -
  show "clear_tty zero_tty = boot_term"
    using clear_tty_eq [of zero_tty] by (simp add: boot_term_def zero_tty_def)
  show "term_ok boot_term" "input_of boot_term = []" "line_fill boot_term = 0"
    by (simp_all add: boot_term_def zero_tty_def term_ok_def ring_ok_def input_of_def ring_contents_def)
qed

definition started :: "nat \<Rightarrow> u32 set \<Rightarrow> 'a tty_st_scheme \<Rightarrow> bool" where
  "started i L s \<longleftrightarrow> length (ttys s) = 4 \<and> distinct (take i (ttys s)) \<and>
     (\<forall>p \<in> set (take i (ttys s)). p \<noteq> 0 \<and> p \<in> L \<and> tty_mem s p = boot_term)"

lemma tty_init_from_spec:
  assumes "owned s L" "k * 4560 \<le> heap_room s" "started i L s" "i + k = 4"
  shows "\<exists>s' L'. tty_init_from i k s = Some (True, s') \<and> owned s' L' \<and> L \<subseteq> L' \<and> started 4 L' s'"
  using assms
proof (induction k arbitrary: i s L)
  case (Suc k)
  obtain p s1 where p: "kmalloc 4532 s = Some (p, s1)" "p \<noteq> 0" "p \<notin> L" "owned s1 (insert p L)"
      "heap_st.more s1 = heap_st.more s" "heap_room s \<le> heap_room s1 + 4560"
    using kheap.alloc_fresh [OF Suc.prems(1), of 4532] Suc.prems(2) by auto
  define s2 where "s2 = tty_clear p (s1\<lparr>ttys := (ttys s1)[i := p], tty_mem := (tty_mem s1)(p := zero_tty)\<rparr>)"
  have s2: "ttys s2 = (ttys s)[i := p]" "tty_mem s2 = (tty_mem s)(p := boot_term)" "heap_room s2 = heap_room s1"
    using more_tty [OF p(5)] by (simp_all add: s2_def tty_clear_def boot_term heap_room_def)
  have "i < length (ttys s)" using Suc.prems(3,4) by (simp add: started_def)
  then have t: "take (Suc i) (ttys s2) = take i (ttys s) @ [p]"
    by (simp add: s2 take_Suc_conv_app_nth)
  have "started (Suc i) (insert p L) s2"
    using Suc.prems(3) p unfolding started_def t by (auto simp: s2)
  moreover have "owned s2 (insert p L)"
    using p(4) by (simp add: s2_def tty_clear_def owned_def heap_inv_def)
  ultimately obtain s' L' where "tty_init_from (Suc i) k s2 = Some (True, s')" "owned s' L'" "insert p L \<subseteq> L'"
      "started 4 L' s'"
    using Suc.IH [of s2 "insert p L" "Suc i"] Suc.prems(2,4) p(6) s2(3) by auto
  moreover have "tty_init_from i (Suc k) s = tty_init_from (Suc i) k s2"
    using p(1,2) by (simp add: s2_def)
  ultimately show ?case by auto
qed auto

lemma started_inv:
  assumes "started 4 L s"
  shows "tty_inv (tty_render 0 (s\<lparr>active_tty := 0, tty_ready := True, early_x := 0, early_y := 0\<rparr>))"
proof -
  have ts: "length (ttys s) = 4" "distinct (ttys s)" "0 \<notin> set (ttys s)"
      "\<forall>p \<in> set (ttys s). tty_mem s p = boot_term"
    using assms by (auto simp: started_def)
  moreover have "ttys s ! 0 \<in> set (ttys s)" using ts(1) by simp
  moreover have "ttys s ! 0 \<noteq> 0" using calculation by metis
  ultimately show ?thesis
    using boot_term(2)
    by (simp add: tty_inv_def tty_render_def tty_ptr_def vga_draw_buffer_def vga_move_cursor_eq present_def
        cursor_of_def tty_valid_def Let_def boot_term_def zero_tty_def)
qed


section \<open>Properties\<close>

text \<open>
  C19. Start-up. With room in the heap for four terminals, \<^verbatim>\<open>tty_init\<close> returns; it allocates what it
  keeps, the heap stays sound, the terminals are distinct, empty and blank, terminal 0 is
  active and the screen shows it.
\<close>

theorem tty_init_ready:
  assumes "owned s L" "18240 \<le> heap_room s" "length (ttys s) = 4"
  shows "\<exists>s' L'. tty_init s = Some s' \<and> owned s' L' \<and> L \<subseteq> L' \<and> set (ttys s') \<subseteq> L' \<and> tty_inv s' \<and>
    active_tty s' = 0 \<and> (\<forall>p \<in> set (ttys s'). tty_mem s' p = boot_term)"
proof -
  have "started 0 L s" using assms(3) by (simp add: started_def)
  then obtain s1 L' where s1: "tty_init_from 0 4 s = Some (True, s1)" "owned s1 L'" "L \<subseteq> L'" "started 4 L' s1"
    using tty_init_from_spec [OF assms(1), of 4 0] assms(2) by auto
  let ?s = "tty_render 0 (s1\<lparr>active_tty := 0, tty_ready := True, early_x := 0, early_y := 0\<rparr>)"
  have "tty_init s = Some ?s" using s1(1) by (simp add: tty_init_def)
  moreover have "owned ?s L'" "ttys ?s = ttys s1" "tty_mem ?s = tty_mem s1" "active_tty ?s = 0"
    using s1(2) by (simp_all add: tty_render_def vga_draw_buffer_def vga_move_cursor_eq owned_def heap_inv_def Let_def)
  ultimately show ?thesis
    using s1(3,4) started_inv [OF s1(4)] by (intro exI [of _ ?s] exI [of _ L']) (auto simp: started_def)
qed

definition demo_tty :: tty_st where
  "demo_tty = sched_st.extend demo_sched
     \<lparr>vga_cells = blank_cells, vga_cursor = 0, tty_mem = (\<lambda>_. boot_term), ttys = [0, 0, 0, 0], active_tty = 0,
      tty_ready = False, early_x = 0, early_y = 0\<rparr>"

theorem tty_init_ready_witness:
  "\<exists>s L. tty_init demo_tty = Some s \<and> owned s L \<and> set (ttys s) \<subseteq> L \<and> tty_inv s"
proof -
  have "owned demo_tty {}" "18240 \<le> heap_room demo_tty" "length (ttys demo_tty) = 4"
    using demo_heap_inv
    by (auto simp: owned_def heap_room_def heap_inv_def demo_tty_def demo_sched_def demo_paging_def demo_heap_def
        live_def heap_st.defs paging_st.defs sched_st.defs)
  from tty_init_ready [OF this] show ?thesis by blast
qed

text \<open>
  C16. Output. Writing a byte to a terminal changes that terminal as \<open>term_write\<close> says (control
  characters, wrapping at column 80, scrolling past row 25) and no other; afterwards the screen
  shows the active terminal, whether or not it is the one written to.
\<close>

theorem tty_write_refines:
  assumes "tty_inv s" "tty_valid i"
  shows "tty_write i c s = present (upd_tty (tty_ptr s i) (term_write c) s) \<and> tty_inv (tty_write i c s) \<and>
    (\<forall>j. tty_valid j \<longrightarrow> j \<noteq> i \<longrightarrow>
      tty_mem (tty_write i c s) (tty_ptr s j) = tty_mem s (tty_ptr s j))"
  using tty_write_eq [OF assms] tty_write_inv [OF assms] tty_ptr_inj [OF assms(1) _ assms(2)]
  by (simp add: present_def)

definition demo_terms :: "tty_t \<Rightarrow> tty_st" where
  "demo_terms t = demo_tty\<lparr>ttys := [0x1000, 0x3000, 0x5000, 0x7000], tty_mem := (\<lambda>_. boot_term)(0x1000 := t),
     tty_ready := True\<rparr>"

lemma demo_terms_inv:
  assumes "term_ok t" "cells t = blank_cells" "cur_x t = 0" "cur_y t = 0"
  shows "tty_inv (demo_terms t)" "tty_ptr (demo_terms t) 0 = 0x1000" "tty_mem (demo_terms t) 0x1000 = t"
  using assms boot_term(2)
  by (simp_all add: tty_inv_def demo_terms_def demo_tty_def present_def tty_ptr_def tty_valid_def cursor_of_def
      demo_sched_def demo_paging_def demo_heap_def heap_st.defs paging_st.defs sched_st.defs)

theorem tty_write_refines_witness:
  "\<exists>s :: tty_st. tty_inv s \<and> vga_cells (tty_write 0 0x41 s) ! 0 = 0x0F41"
proof -
  have b: "cells boot_term = blank_cells" "cur_x boot_term = 0" "cur_y boot_term = 0"
    by (simp_all add: boot_term_def zero_tty_def)
  let ?s = "demo_terms boot_term"
  note d = demo_terms_inv [OF boot_term(2) b]
  have a: "active_tty ?s = 0" by (simp add: demo_terms_def demo_tty_def sched_st.defs demo_sched_def
    demo_paging_def demo_heap_def heap_st.defs paging_st.defs)
  have "tty_valid 0" by (simp add: tty_valid_def)
  from tty_write_refines [OF d(1) this, of "0x41"]
  have "vga_cells (tty_write 0 0x41 ?s) = cells (term_write 0x41 boot_term)"
    using a d(2,3) by (simp add: present_def)
  moreover have "cells (term_write 0x41 boot_term) ! 0 = 0x0F41"
    using b by (simp add: term_write_def term_emit_def term_wrap_def term_scroll_def cell_idx_def cell_of_def
        signed_take_bit_eq)
  ultimately show ?thesis using d(1) by metis
qed

text \<open>What the kernel does to the terminals between two reads.\<close>

inductive tty_run :: "'a tty_st_scheme \<Rightarrow> 'a tty_st_scheme \<Rightarrow> bool" where
  start: "tty_run s s"
| emit: "tty_run s0 s \<Longrightarrow> tty_valid i \<Longrightarrow> tty_run s0 (tty_write i c s)"
| switch: "tty_run s0 s \<Longrightarrow> tty_run s0 (tty_switch i s)"
| key: "tty_run s0 s \<Longrightarrow> tty_handle_key sc ascii s = Some s' \<Longrightarrow> tty_run s0 s'"

lemma tty_run_inv: "tty_run s0 s \<Longrightarrow> tty_inv s0 \<Longrightarrow> tty_inv s"
  by (induction rule: tty_run.induct) (auto simp: tty_write_inv tty_switch_inv tty_handle_key_inv)

text \<open>
  C17. Screen integrity. Starting from sound terminals, after any sequence of writes to terminals,
  terminal switches and key presses the screen memory is exactly the active terminal's buffer,
  the hardware cursor is at its cursor, and every cursor is inside the 80 x 25 screen and every position in
  the queues of typed characters inside the queue, so no write leaves the buffers.
\<close>

theorem tty_screen_integrity:
  assumes "tty_run s0 s" "tty_inv s0"
  shows "vga_cells s = cells (tty_mem s (tty_ptr s (active_tty s))) \<and>
    vga_cursor s = cursor_of (tty_mem s (tty_ptr s (active_tty s))) \<and>
    (\<forall>p \<in> set (ttys s). cell_idx (cur_x (tty_mem s p)) (cur_y (tty_mem s p)) < length (cells (tty_mem s p)) \<and>
      length (cells (tty_mem s p)) = 2000 \<and> input_head (tty_mem s p) < 256 \<and> input_tail (tty_mem s p) < 256 \<and> line_fill (tty_mem s p) \<le> 256)"
proof -
  have inv: "tty_inv s" by (rule tty_run_inv [OF assms])
  then have "\<forall>p \<in> set (ttys s). term_ok (tty_mem s p)" by (simp add: tty_inv_def)
  then show ?thesis
    using inv by (auto simp: tty_inv_def term_ok_def ring_ok_def cell_idx_less)
qed

lemma boot_term_picture: "cells boot_term = blank_cells" "cur_x boot_term = 0" "cur_y boot_term = 0"
  by (simp_all add: boot_term_def zero_tty_def)

lemmas demo_boot = demo_terms_inv [OF boot_term(2) boot_term_picture]

theorem tty_screen_integrity_witness:
  "\<exists>s :: tty_st. s = tty_switch 1 (tty_write 0 0x41 (demo_terms boot_term)) \<and>
     vga_cells s = cells (tty_mem s (tty_ptr s (active_tty s)))"
proof -
  have "tty_run (demo_terms boot_term) (tty_switch 1 (tty_write 0 0x41 (demo_terms boot_term)))"
    by (intro tty_run.intros) (simp add: tty_valid_def)
  from tty_screen_integrity [OF this demo_boot(1)] show ?thesis by blast
qed

definition demo_typed :: tty_t where
  "demo_typed = boot_term\<lparr>tinput := [0x6C, 0x78, 8, 0x73, 13] @ replicate 251 0, input_head := 5\<rparr>"

theorem tty_read_line_witness:
  "\<exists>s'. tty_read (\<lambda>_. None) 0 0 80 True (demo_terms demo_typed) = Some (3, [0x6C, 0x73, 10], s') \<and> tty_inv s'"
proof -
  let ?s = "demo_terms demo_typed"
  have ok: "term_ok demo_typed" "cells demo_typed = blank_cells" "cur_x demo_typed = 0" "cur_y demo_typed = 0"
    "line_pos demo_typed = line_fill demo_typed"
    by (simp_all add: term_ok_def ring_ok_def demo_typed_def boot_term_def zero_tty_def)
  note d = demo_terms_inv [OF ok(1-4)]
  have v: "tty_valid 0" by (simp add: tty_valid_def)
  have "[0..<5] = [0, 1, 2, 3, 4 :: nat]" by (simp add: upt_rec)
  then have q: "input_of demo_typed = [0x6C, 0x78, 8, 0x73] @ 13 # []"
    by (simp add: input_of_def ring_contents_def demo_typed_def boot_term_def zero_tty_def nth_Cons')
  have l: "[0x6C, 0x73, 10] = fold edit_char [0x6C, 0x78, 8, 0x73] [] @ [10]"
    by (simp add: edit_char_def signed_take_bit_eq)
  from tty_read_line [OF d(1) v _ _ q _ _ _ l, where others = "\<lambda>_. None" and esp = 0 and sz = 80] d ok(5)
  show ?thesis by auto
qed

lemma bit_7: "bit (c :: u8) 7 \<longleftrightarrow> 0x80 \<le> c"
proof -
  have "bit c 7 \<longleftrightarrow> bit (unat c) 7" by (simp add: bit_unsigned_iff)
  then have "bit c 7 \<longleftrightarrow> odd (unat c div 128)" by (simp add: bit_iff_odd)
  moreover have u: "unat c < 256" by (rule order_less_le_trans [OF unsigned_less]) simp
  moreover have "unat c div 128 < 2" using u by (simp add: less_mult_imp_div_less)
  ultimately have "bit c 7 \<longleftrightarrow> unat c div 128 = 1" by (auto elim!: oddE)
  moreover have "unat c div 128 = 1 \<longleftrightarrow> 128 \<le> unat c" using u by linarith
  ultimately show ?thesis by (simp add: word_le_nat_alt)
qed

lemma bit_attr_consts: "bit (15 :: int) n \<longleftrightarrow> n < 4" "bit (255 :: int) n \<longleftrightarrow> n < 8"
  "bit (3840 :: int) n \<longleftrightarrow> 8 \<le> n \<and> n < 12"
proof -
  have m: "(15 :: int) = mask 4" "(255 :: int) = mask 8" "(3840 :: int) = push_bit 8 (mask 4)"
    by (simp_all add: mask_eq_exp_minus_1 push_bit_eq_mult)
  show "bit (15 :: int) n \<longleftrightarrow> n < 4" "bit (255 :: int) n \<longleftrightarrow> n < 8" "bit (3840 :: int) n \<longleftrightarrow> 8 \<le> n \<and> n < 12"
    unfolding m by (auto simp: bit_simps)
qed

lemma bit_u8: "bit (c :: u8) n \<Longrightarrow> n < 8"
  by (simp add: bit_word_def)

lemma cell_attribute_bits:
  "drop_bit 8 (cell_of c) = (if c < 0x80 then 0x0F else 0xFF)" "cell_of c AND 0xFF = ucast c"
proof -
  show "drop_bit 8 (cell_of c) = (if c < 0x80 then 0x0F else 0xFF)"
    by (rule bit_eqI) (auto simp: cell_of_def bit_simps bit_attr_consts bit_7 min_def split: if_splits)
  have "bit c n \<Longrightarrow> min 7 n = n" for n using bit_u8 [of c n] by simp
  then show "cell_of c AND 0xFF = ucast c"
    by (intro bit_eqI) (auto simp: cell_of_def bit_simps bit_attr_consts dest: bit_u8)
qed

text \<open>
  C20. The attribute byte. A cell gets the white-on-black attribute exactly for 7-bit characters: a
  byte from 0x80 up is sign-extended by the conversion to \<^verbatim>\<open>uint16_t\<close> and its attribute byte becomes
  0xFF instead of 0x0F.
\<close>

theorem cell_attribute:
  "drop_bit 8 (cell_of c) = (if c < 0x80 then 0x0F else 0xFF) \<and> cell_of c AND 0xFF = ucast c"
  using cell_attribute_bits by simp

end
