(* ===== verification/Keyboard.thy ===== *)
theory Keyboard
  imports Tty
begin

text \<open>
  The keyboard driver \<^verbatim>\<open>stage2/dev/keyboard.c\<close>: decoding of set-1 scancodes with the Shift and Alt
  state, delivery to the active terminal and the legacy key buffer. The translation tables have
  90 entries; a make code from 90 to 127 makes the code read past them, and \<open>past\<close> stands for
  whatever byte is found there (its arguments: the Shift state and the scancode).
\<close>

record kbd_st = tty_st +
  shifted :: bool
  alt_down :: bool
  keyboard_buffer :: "u8 list"
  keyboard_buffer_head :: nat
  keyboard_buffer_tail :: nat

definition scancode_map :: "u8 list" where
  "scancode_map =
    [0, 27, 49, 50, 51, 52, 53, 54, 55, 56, 57, 48, 39, 94, 8,
     9, 113, 119, 101, 114, 116, 122, 117, 105, 111, 112, 117, 101, 10, 0,
     97, 115, 100, 102, 103, 104, 106, 107, 108, 111, 97, 36, 0, 60, 121,
     120, 99, 118, 98, 110, 109, 44, 46, 45, 0, 42, 0, 32, 0, 0,
     0, 0, 0, 0, 0, 0, 0, 0, 0, 0, 0, 0, 0, 0, 45,
     0, 0, 0, 43, 0, 0, 0, 0, 0, 0, 0, 0, 0, 0, 0]"

definition shift_scancode_map :: "u8 list" where
  "shift_scancode_map =
    [0, 27, 43, 34, 42, 36, 37, 38, 47, 40, 41, 61, 63, 96, 8,
     9, 81, 87, 69, 82, 84, 90, 85, 73, 79, 80, 69, 33, 10, 0,
     65, 83, 68, 70, 71, 72, 74, 75, 76, 79, 65, 94, 0, 62, 89,
     88, 67, 86, 66, 78, 77, 59, 58, 95, 0, 42, 0, 32, 0, 0,
     0, 0, 0, 0, 0, 0, 0, 0, 0, 0, 0, 0, 0, 0, 45,
     0, 0, 0, 43, 0, 0, 0, 0, 0, 0, 0, 0, 0, 0, 0]"

definition map_char :: "(bool \<Rightarrow> u8 \<Rightarrow> u8) \<Rightarrow> bool \<Rightarrow> u8 \<Rightarrow> u8" where
  "map_char past sh sc =
     (if unat sc < 90 then (if sh then shift_scancode_map else scancode_map) ! unat sc else past sh sc)"

definition keyboard_has_key :: "'a kbd_st_scheme \<Rightarrow> bool" where
  "keyboard_has_key s \<longleftrightarrow> keyboard_buffer_head s \<noteq> keyboard_buffer_tail s"

definition keyboard_take :: "'a kbd_st_scheme \<Rightarrow> u8 \<times> 'a kbd_st_scheme" where
  "keyboard_take s = (keyboard_buffer s ! keyboard_buffer_tail s,
     s\<lparr>keyboard_buffer_tail := (keyboard_buffer_tail s + 1) mod 256\<rparr>)"

text \<open>The wait spins; \<open>irq\<close> is what interrupts do meanwhile.\<close>

partial_function (option) keyboard_read_key ::
    "('a kbd_st_scheme \<Rightarrow> 'a kbd_st_scheme option) \<Rightarrow> 'a kbd_st_scheme \<Rightarrow> (u8 \<times> 'a kbd_st_scheme) option" where
  "keyboard_read_key irq s =
     (if keyboard_has_key s then Some (keyboard_take s)
      else do { s1 \<leftarrow> irq s; keyboard_read_key irq s1 })"

definition keyboard_put :: "u8 \<Rightarrow> 'a kbd_st_scheme \<Rightarrow> 'a kbd_st_scheme" where
  "keyboard_put c s =
     (let next_head = (keyboard_buffer_head s + 1) mod 256 in
      if next_head \<noteq> keyboard_buffer_tail s
      then s\<lparr>keyboard_buffer := (keyboard_buffer s)[keyboard_buffer_head s := c], keyboard_buffer_head := next_head\<rparr>
      else s)"

definition keyboard_handler ::
    "(bool \<Rightarrow> u8 \<Rightarrow> u8) \<Rightarrow> u8 \<Rightarrow> 'a kbd_st_scheme \<Rightarrow> 'a kbd_st_scheme option" where
  "keyboard_handler past scancode s =
     (if scancode = 0x2A \<or> scancode = 0x36 then Some (s\<lparr>shifted := True\<rparr>)
      else if scancode = 0xAA \<or> scancode = 0xB6 then Some (s\<lparr>shifted := False\<rparr>)
      else if scancode = 0x38 then Some (s\<lparr>alt_down := True\<rparr>)
      else if scancode = 0xB8 then Some (s\<lparr>alt_down := False\<rparr>)
      else if scancode AND 0x80 \<noteq> 0 then Some s
      else if alt_down s \<and> 0x3B \<le> scancode \<and> scancode \<le> 0x3E then tty_handle_key scancode 0 s
      else let ascii_char = map_char past (shifted s) scancode in
        if ascii_char \<noteq> 0
        then do { s1 \<leftarrow> tty_handle_key scancode ascii_char s; Some (keyboard_put ascii_char s1) }
        else Some s)"

section \<open>The legacy buffer is a bounded FIFO\<close>

definition keys_of :: "'a kbd_st_scheme \<Rightarrow> u8 list" where
  "keys_of s = ring_contents 256 (keyboard_buffer s) (keyboard_buffer_head s) (keyboard_buffer_tail s)"

definition keys_ok :: "'a kbd_st_scheme \<Rightarrow> bool" where
  "keys_ok s \<longleftrightarrow> ring_ok 256 (keyboard_buffer s) (keyboard_buffer_head s) (keyboard_buffer_tail s)"

interpretation key_queue: bounded_fifo keys_ok "\<lambda>_. True" keyboard_put keyboard_has_key keyboard_take keys_of 255
proof unfold_locales
  fix s :: "'a kbd_st_scheme" and x :: u8
  assume s: "keys_ok s"
  note ok = s [unfolded keys_ok_def]
  show "keys_ok (keyboard_put x s)"
    using s by (simp add: keys_ok_def ring_ok_def keyboard_put_def Let_def)
  show "keys_of (keyboard_put x s) = (if length (keys_of s) < 255 then keys_of s @ [x] else keys_of s)"
    using ring_push [OF ok] ring_full [OF ok]
    by (simp add: keys_of_def keyboard_put_def Let_def del: length_ring_contents)
  show "keyboard_has_key s \<longleftrightarrow> keys_of s \<noteq> []"
    using ring_contents_empty [OF ok] by (simp add: keyboard_has_key_def keys_of_def)
  show "length (keys_of s) \<le> 255"
    using ring_length [OF ok] by (simp add: keys_of_def del: length_ring_contents)
  assume ne: "keyboard_has_key s"
  show "keys_ok (snd (keyboard_take s))"
    using s by (simp add: keys_ok_def ring_ok_def keyboard_take_def)
  show "keys_of s = fst (keyboard_take s) # keys_of (snd (keyboard_take s))"
    using ring_pop [OF ok] ne by (simp add: keys_of_def keyboard_take_def keyboard_has_key_def)
qed

section \<open>Typing\<close>

text \<open>The keys that make a character have a table entry, and none of them is a modifier or function key.\<close>

definition char_key :: "bool \<Rightarrow> u8 \<Rightarrow> bool" where
  "char_key sh sc \<longleftrightarrow> unat sc < 90 \<and> (if sh then shift_scancode_map else scancode_map) ! unat sc \<noteq> 0"

lemma special_keys:
  "\<forall>k \<in> {0x2A, 0x36, 0x38, 0x3B, 0x3C, 0x3D, 0x3E}. scancode_map ! k = 0 \<and> shift_scancode_map ! k = 0"
  by (simp add: scancode_map_def shift_scancode_map_def)

lemma scancode_no_cr: "13 \<notin> set scancode_map \<and> 13 \<notin> set shift_scancode_map"
  by (simp add: scancode_map_def shift_scancode_map_def)

lemma char_key_cr: "char_key sh sc \<Longrightarrow> map_char past sh sc \<noteq> 13"
proof
  assume "char_key sh sc" "map_char past sh sc = 13"
  then have "unat sc < 90" "(if sh then shift_scancode_map else scancode_map) ! unat sc = 13"
    by (simp_all add: char_key_def map_char_def)
  moreover have "length scancode_map = 90" "length shift_scancode_map = 90"
    by (simp_all add: scancode_map_def shift_scancode_map_def)
  ultimately show False using scancode_no_cr by (metis nth_mem)
qed

lemma char_keyD:
  assumes "char_key sh sc"
  shows "sc \<notin> {0x2A, 0x36, 0xAA, 0xB6, 0x38, 0xB8}" "\<not> (0x3B \<le> sc \<and> sc \<le> 0x3E)" "sc AND 0x80 = 0"
    "map_char past sh sc \<noteq> 0"
proof -
  have k: "unat sc < 90" "unat sc \<notin> {0x2A, 0x36, 0x38, 0x3B, 0x3C, 0x3D, 0x3E}"
    using assms special_keys by (auto simp: char_key_def split: if_splits)
  show "sc \<notin> {0x2A, 0x36, 0xAA, 0xB6, 0x38, 0xB8}" using k by auto
  show "\<not> (0x3B \<le> sc \<and> sc \<le> 0x3E)" using k(2) by (auto simp: word_le_nat_alt)
  have "\<not> bit sc 7" using k(1) by (simp add: bit_7 word_le_nat_alt)
  then show "sc AND 0x80 = 0"
    using and_exp_eq_0_iff_not_bit [of sc 7] by simp
  show "map_char past sh sc \<noteq> 0" using assms by (simp add: char_key_def map_char_def)
qed

definition kbd_inv :: "u32 list \<Rightarrow> 'a kbd_st_scheme \<Rightarrow> bool" where
  "kbd_inv us s \<longleftrightarrow> tty_inv s \<and> keys_ok s \<and> task_ring (tasks s) (idle_task s) us"

abbreviation active_term :: "'a tty_st_scheme \<Rightarrow> tty_t" where
  "active_term s \<equiv> tty_mem s (tty_ptr s (active_tty s))"

lemma wake_returns:
  assumes "task_ring (tasks s) (idle_task s) us"
  shows "\<exists>T. scheduler_wake w s = Some (s\<lparr>tasks := T\<rparr>) \<and> (\<forall>t. t_next (T t) = t_next (tasks s t))"
proof (cases "w = 0")
  case False
  have "\<exists>T. wake_loop (tasks s) (idle_task s) w (idle_task s) = Some T \<and> (\<forall>t. t_next (T t) = t_next (tasks s t))"
    using assms wake_loop_eq [of "tasks s" "idle_task s" us "idle_task s" w] by (simp add: task_ring_def)
  with False show ?thesis by (auto simp: scheduler_wake_def)
next
  case True
  then show ?thesis by (auto simp: scheduler_wake_def intro!: exI [of _ "tasks s"])
qed

lemma handle_key_char:
  assumes "tty_inv s" "task_ring (tasks s) (idle_task s) us" "\<not> (0x3B \<le> sc \<and> sc \<le> 0x3E)" "c \<noteq> 0"
  shows "\<exists>T. tty_handle_key sc c s = Some ((tty_push_input (tty_ptr s (active_tty s)) c s)\<lparr>tasks := T\<rparr>) \<and>
    task_ring T (idle_task s) us"
proof -
  let ?s = "tty_push_input (tty_ptr s (active_tty s)) c s"
  have "tasks ?s = tasks s" "idle_task ?s = idle_task s" by (simp_all add: tty_push_input_def)
  then obtain T where "scheduler_wake (tty_ptr s (active_tty s)) ?s = Some (?s\<lparr>tasks := T\<rparr>)"
      "\<forall>t. t_next (T t) = t_next (tasks s t)"
    using wake_returns [of ?s us] assms(2) by auto
  then show ?thesis
    using assms task_ring_cong [of T "tasks s"] by (auto simp: tty_handle_key_def tty_inv_def)
qed

lemma keyboard_char:
  fixes s :: "'a kbd_st_scheme"
  assumes inv: "kbd_inv us s" and k: "char_key (shifted s) sc" and c: "c = map_char past (shifted s) sc"
  shows "\<exists>s'. keyboard_handler past sc s = Some s' \<and> kbd_inv us s' \<and> shifted s' = shifted s \<and>
    active_tty s' = active_tty s \<and> active_term s' = push_input c (active_term s) \<and> keys_of s' = keys_of (keyboard_put c s)"
proof -
  have i: "tty_inv s" "keys_ok s" "task_ring (tasks s) (idle_task s) us" using inv by (simp_all add: kbd_inv_def)
  note d = char_keyD [OF k]
  let ?s = "tty_push_input (tty_ptr s (active_tty s)) c s"
  obtain T where T: "tty_handle_key sc c s = Some (?s\<lparr>tasks := T\<rparr>)" "task_ring T (idle_task s) us"
    using handle_key_char [OF i(1,3) d(2), of c] d(4) c by auto
  have "tty_inv (?s\<lparr>tasks := T\<rparr>)"
    by (intro tty_inv_tasks tty_push_input_inv i tty_inv_valid)
  then have t: "tty_inv (keyboard_put c (?s\<lparr>tasks := T\<rparr>))"
    by (simp add: keyboard_put_def tty_inv_def present_def tty_ptr_def Let_def)
  have q: "keys_ok (?s\<lparr>tasks := T\<rparr>)" "keys_of (keyboard_put c (?s\<lparr>tasks := T\<rparr>)) = keys_of (keyboard_put c s)"
    using i(2) by (simp_all add: keys_ok_def keys_of_def tty_push_input_def keyboard_put_def Let_def)
  have "keyboard_handler past sc s = Some (keyboard_put c (?s\<lparr>tasks := T\<rparr>))"
    using d T(1) c by (auto simp: keyboard_handler_def Let_def)
  moreover have "kbd_inv us (keyboard_put c (?s\<lparr>tasks := T\<rparr>))"
    using t key_queue.inv_push [OF q(1)] T(2)
    by (simp add: kbd_inv_def) (simp add: keyboard_put_def tty_push_input_def Let_def)
  ultimately show ?thesis
    using q(2) by (simp add: keyboard_put_def tty_push_input_def tty_ptr_def Let_def)
qed

lemma keyboard_chars:
  fixes s :: "'a kbd_st_scheme"
  assumes "kbd_inv us s" "\<forall>k \<in> set ks. char_key (shifted s) k" "cs = map (map_char past (shifted s)) ks"
  shows "\<exists>s'. foldM (keyboard_handler past) ks s = Some s' \<and> kbd_inv us s' \<and> active_tty s' = active_tty s \<and>
    active_term s' = fold push_input cs (active_term s)"
  using assms
proof (induction ks arbitrary: s cs)
  case (Cons k ks)
  obtain s1 where s1: "keyboard_handler past k s = Some s1" "kbd_inv us s1" "shifted s1 = shifted s"
      "active_tty s1 = active_tty s" "active_term s1 = push_input (map_char past (shifted s) k) (active_term s)"
    using keyboard_char [OF Cons.prems(1) _ refl, of k past] Cons.prems(2) by auto
  then show ?case
    using Cons.IH [OF s1(2), of "map (map_char past (shifted s)) ks"] Cons.prems(2,3) by auto
qed auto

text \<open>
  C15. From keys to \<^verbatim>\<open>read\<close>. Press character keys \<open>ks\<close> and then Enter on an idle active terminal, at
  most 254 keys: each interrupt returns, and a following read of the terminal returns the edited
  line, in the case the Shift state selects, without blocking.
\<close>

theorem keyboard_to_read:
  fixes s :: "'a kbd_st_scheme"
  assumes inv: "kbd_inv us s" and idle: "input_of (active_term s) = []"
      "line_pos (active_term s) = line_fill (active_term s)"
    and ks: "\<forall>k \<in> set ks. char_key (shifted s) k \<and> map_char past (shifted s) k \<noteq> 10" "length ks \<le> 254"
    and l: "l = fold edit_char (map (map_char past (shifted s)) ks) [] @ [10]"
  shows "\<exists>s' s''. foldM (keyboard_handler past) (ks @ [0x1C]) s = Some s' \<and>
    tty_read others esp (active_tty s) sz True s' = Some (int (min sz (length l)), take sz l, s'') \<and>
    input_of (tty_mem s'' (tty_ptr s' (active_tty s))) = [] \<and> tty_inv s''"
proof -
  let ?cs = "map (map_char past (shifted s)) ks"
  have e: "char_key (shifted s) 0x1C" "map_char past (shifted s) 0x1C = 10"
    by (simp_all add: char_key_def map_char_def scancode_map_def shift_scancode_map_def)
  then obtain s' where s': "foldM (keyboard_handler past) (ks @ [0x1C]) s = Some s'" "kbd_inv us s'"
      "active_tty s' = active_tty s" "active_term s' = fold push_input (?cs @ [10]) (active_term s)"
    using keyboard_chars [OF inv _ refl, of "ks @ [0x1C]" past] ks(1) by auto
  have i: "tty_inv s" "tty_inv s'" using inv s'(2) by (simp_all add: kbd_inv_def)
  have "input_ok (active_term s)" by (intro term_ok_input tty_inv_ptr i tty_inv_valid)
  then have q: "input_of (active_term s') = ?cs @ 10 # []"
    using tty_queue.contents_push_list [of "active_term s" "?cs @ [10]"] idle(1) ks(2) s'(4) by (simp add: list.pred_True)
  have "line_pos (push_input c t) = line_pos t \<and> line_fill (push_input c t) = line_fill t" for c t
    by (simp add: push_input_def Let_def)
  then have "line_pos (fold push_input xs t) = line_pos t \<and> line_fill (fold push_input xs t) = line_fill t" for xs t
    by (induction xs arbitrary: t) auto
  then have lp: "line_pos (active_term s') = line_fill (active_term s')" using idle(2) by (simp only: s'(4))
  have "13 \<notin> set ?cs" "10 \<notin> set ?cs" using ks(1) char_key_cr by (auto simp: image_iff)
  then obtain s'' where "tty_read others esp (active_tty s') sz True s' = Some (int (min sz (length l)), take sz l, s'')"
     "input_of (tty_mem s'' (tty_ptr s' (active_tty s'))) = []" "tty_inv s''"
    using line_read [OF i(2) tty_inv_valid [OF i(2)] refl lp q _ _ _ l, where others = others and esp = esp and sz = sz] by auto
  then show ?thesis using s' by auto
qed

definition demo_kbd :: kbd_st where
  "demo_kbd = tty_st.extend (demo_terms boot_term)
     \<lparr>shifted = True, alt_down = False, keyboard_buffer = replicate 256 0, keyboard_buffer_head = 0,
      keyboard_buffer_tail = 0\<rparr>"

lemma demo_kbd_fields:
  "shifted demo_kbd" "active_tty demo_kbd = 0" "active_term demo_kbd = boot_term" "kbd_inv [0x2000, 0x3000] demo_kbd"
proof -
  have x: "tty_mem demo_kbd = tty_mem (demo_terms boot_term)" "tty_ptr demo_kbd i = tty_ptr (demo_terms boot_term) i"
      "tasks demo_kbd = tasks demo_sched" "idle_task demo_kbd = idle_task demo_sched" "keys_ok demo_kbd"
      "tty_inv demo_kbd = tty_inv (demo_terms boot_term)" for i
    by (simp_all add: demo_kbd_def tty_st.defs demo_terms_def demo_tty_def sched_st.defs tty_ptr_def keys_ok_def
        ring_ok_def tty_inv_def)
  show a: "shifted demo_kbd" "active_tty demo_kbd = 0"
    by (simp_all add: demo_kbd_def tty_st.defs demo_terms_def demo_tty_def sched_st.defs)
  show "active_term demo_kbd = boot_term"
    using demo_boot(2,3) by (simp add: x a)
  have "idle_task demo_sched = 0x1000" by (simp add: demo_sched_def paging_st.defs)
  then show "kbd_inv [0x2000, 0x3000] demo_kbd"
    using demo_boot(1) demo_sched_ring by (simp add: kbd_inv_def x)
qed

theorem keyboard_to_read_witness:
  "\<exists>s' s''. foldM (keyboard_handler (\<lambda>_ _. 0)) [0x1E, 0x30, 0x0E, 0x1C] demo_kbd = Some s' \<and>
     tty_read (\<lambda>_. None) 0 0 80 True s' = Some (2, [0x41, 10], s'')"
proof -
  have sh: "shifted demo_kbd" "active_tty demo_kbd = 0" "input_of (active_term demo_kbd) = []"
      "line_pos (active_term demo_kbd) = line_fill (active_term demo_kbd)"
    unfolding demo_kbd_fields(3) using demo_kbd_fields(1,2) boot_term(3)
    by (simp_all add: boot_term_def zero_tty_def)
  note inv = demo_kbd_fields(4)
  have ks: "\<forall>k \<in> set [0x1E, 0x30, 0x0E]. char_key (shifted demo_kbd) k \<and> map_char (\<lambda>_ _. 0) (shifted demo_kbd) k \<noteq> 10"
    using sh(1) by (simp add: char_key_def map_char_def shift_scancode_map_def)
  have l: "[0x41, 10] = fold edit_char (map (map_char (\<lambda>_ _. 0) (shifted demo_kbd)) [0x1E, 0x30, 0x0E]) [] @ [10]"
    using sh(1) by (simp add: map_char_def shift_scancode_map_def edit_char_def signed_take_bit_eq)
  from keyboard_to_read [OF inv sh(3,4) ks _ l, where others = "\<lambda>_. None" and esp = 0 and sz = 80] sh(2)
  show ?thesis by auto
qed

end
