(* ===== verification/Utils.thy ===== *)
theory Utils
  imports Prelude "HOL-Library.Sublist"
begin

text \<open>
  The freestanding helpers of \<^verbatim>\<open>stage2/utils.c\<close> and the byte-order macros of \<^verbatim>\<open>inc/utils.h\<close>. A
  \<^verbatim>\<open>char *\<close> argument is the sequence of bytes found from that address on; \<open>cstr_of\<close> is the
  sequence a C string literal has, ended by NUL. Lengths and comparison results are \<open>int\<close>.
\<close>

section \<open>Strings\<close>

type_synonym cstr = "nat \<Rightarrow> u8"

definition cstr_of :: "u8 list \<Rightarrow> cstr" where
  "cstr_of xs i = (if i < length xs then xs ! i else 0)"

fun strncmp_loop :: "cstr \<Rightarrow> cstr \<Rightarrow> nat \<Rightarrow> nat \<Rightarrow> bool" where
  "strncmp_loop a b i 0 = True"
| "strncmp_loop a b i (Suc k) = (if a i \<noteq> b i then False else strncmp_loop a b (Suc i) k)"

definition strncmp :: "cstr \<Rightarrow> cstr \<Rightarrow> nat \<Rightarrow> bool" where
  "strncmp a b n = strncmp_loop a b 0 n"

partial_function (option) strlen_loop :: "cstr \<Rightarrow> nat \<Rightarrow> nat option" where
  "strlen_loop s i = (if s i \<noteq> 0 then strlen_loop s (Suc i) else Some i)"

definition strlen :: "cstr \<Rightarrow> nat option" where
  "strlen s = strlen_loop s 0"

definition strcmp :: "cstr \<Rightarrow> cstr \<Rightarrow> bool option" where
  "strcmp a b = do { n \<leftarrow> strlen a; Some (strncmp a b n) }"

definition tolower :: "int \<Rightarrow> int" where
  "tolower c = (if 65 \<le> c \<and> c \<le> 90 then c + (97 - 65) else c)"

definition lower :: "u8 \<Rightarrow> u8" where
  "lower c = of_int (tolower (uint c))"

partial_function (option) strcasecmp_loop :: "cstr \<Rightarrow> cstr \<Rightarrow> nat \<Rightarrow> int option" where
  "strcasecmp_loop s1 s2 i =
     (if s1 i \<noteq> 0 \<and> s2 i \<noteq> 0
      then if lower (s1 i) \<noteq> lower (s2 i) then Some (uint (lower (s1 i)) - uint (lower (s2 i)))
           else strcasecmp_loop s1 s2 (Suc i)
      else Some (uint (s1 i) - uint (s2 i)))"

text \<open>A null pointer is \<open>None\<close>.\<close>

definition strcasecmp :: "cstr option \<Rightarrow> cstr option \<Rightarrow> int option" where
  "strcasecmp s1 s2 =
     (case (s1, s2) of
        (Some a, Some b) \<Rightarrow> strcasecmp_loop a b 0
      | (None, None) \<Rightarrow> Some 0
      | (Some _, None) \<Rightarrow> Some 1
      | (None, Some _) \<Rightarrow> Some (- 1))"

section \<open>Bytes\<close>

definition bcd_to_bin :: "u8 \<Rightarrow> u8" where
  "bcd_to_bin val = (val AND 0x0F) + (val div 16) * 10"

text \<open>
  \<^verbatim>\<open>htons\<close> for an operand of type \<^verbatim>\<open>uint16_t\<close>: the promoted value has no bits above 15, and the result is
  stored to a field of 16 bits.
\<close>

definition htons :: "u16 \<Rightarrow> u16" where
  "htons x = push_bit 8 (x AND 0xFF) OR drop_bit 8 x"

definition htonl :: "u32 \<Rightarrow> u32" where
  "htonl x = push_bit 24 (x AND 0x000000FF) OR push_bit 8 (x AND 0x0000FF00) OR
     drop_bit 8 (x AND 0x00FF0000) OR drop_bit 24 (x AND 0xFF000000)"

section \<open>Facts\<close>

lemma strncmp_loop_iff: "strncmp_loop a b i k \<longleftrightarrow> (\<forall>j < k. a (i + j) = b (i + j))"
proof (induction k arbitrary: i)
  case (Suc k)
  then show ?case by (simp add: All_less_Suc2)
qed simp

lemma strncmp_iff: "strncmp a b n \<longleftrightarrow> (\<forall>j < n. a j = b j)"
  by (simp add: strncmp_def strncmp_loop_iff)

lemma strlen_loop_cstr:
  assumes "0 \<notin> set xs"
  shows "i \<le> length xs \<Longrightarrow> strlen_loop (cstr_of xs) i = Some (length xs)"
proof (induction "length xs - i" arbitrary: i)
  case 0
  then show ?case by (subst strlen_loop.simps) (simp add: cstr_of_def)
next
  case (Suc k)
  then have i: "i < length xs" by simp
  then have "xs ! i \<noteq> 0"
    using assms by (metis nth_mem)
  then show ?case
    using Suc i by (subst strlen_loop.simps) (simp add: cstr_of_def)
qed

lemma strlen_cstr: "0 \<notin> set xs \<Longrightarrow> strlen (cstr_of xs) = Some (length xs)"
  by (simp add: strlen_def strlen_loop_cstr)

lemma cstr_eq_prefix:
  assumes "0 \<notin> set xs"
  shows "(\<forall>j < length xs. cstr_of xs j = cstr_of ys j) \<longleftrightarrow> prefix xs ys"
proof
  assume eq: "\<forall>j < length xs. cstr_of xs j = cstr_of ys j"
  have len: "length xs \<le> length ys"
  proof (rule ccontr)
    assume "\<not> length xs \<le> length ys"
    then have l: "length ys < length xs" by simp
    with eq have "xs ! length ys = 0" by (auto simp: cstr_of_def)
    with l assms show False by (metis nth_mem)
  qed
  then have "xs = take (length xs) ys"
    using eq by (intro nth_equalityI) (auto simp: cstr_of_def)
  then show "prefix xs ys"
    by (metis take_is_prefix)
next
  assume "prefix xs ys"
  then show "\<forall>j < length xs. cstr_of xs j = cstr_of ys j"
    by (auto simp: prefix_def cstr_of_def nth_append)
qed

lemma lower_zero [simp]: "lower c = 0 \<longleftrightarrow> c = 0"
proof -
  have u: "0 \<le> uint c" "uint c < 256"
    using uint_range_size [of c] by (simp_all add: word_size)
  have "lower c = 0 \<longleftrightarrow> tolower (uint c) mod 256 = 0"
    unfolding lower_def by (simp add: word_eq_iff_unsigned [where 'a = int] uint_word_of_int)
  also have "\<dots> \<longleftrightarrow> uint c = 0"
    using u by (auto simp: tolower_def)
  finally show ?thesis by (simp add: unsigned_eq_0_iff)
qed

lemma cstr_of_drop: "cstr_of xs (i + j) = cstr_of (drop i xs) j"
  by (auto simp: cstr_of_def)

lemma uint_diff_zero: "uint a = uint b \<longleftrightarrow> a = (b :: u8)"
  by (simp add: word_eq_iff_unsigned [where 'a = int])

lemma strcasecmp_loop_zero:
  assumes "0 \<notin> set xs" "0 \<notin> set ys"
  shows "\<exists>r. strcasecmp_loop (cstr_of xs) (cstr_of ys) i = Some r \<and>
    (r = 0 \<longleftrightarrow> map lower (drop i xs) = map lower (drop i ys))"
proof (induction "length xs - i" arbitrary: i)
  case 0
  then have "cstr_of xs i = 0" "drop i xs = []"
    by (simp_all add: cstr_of_def)
  moreover have "cstr_of ys i = 0 \<longleftrightarrow> drop i ys = []"
    using assms(2) by (auto simp: cstr_of_def) (metis nth_mem not_less)
  ultimately show ?case
    by (subst strcasecmp_loop.simps) (auto simp: unsigned_eq_0_iff)
next
  case (Suc k)
  then have i: "i < length xs" by simp
  then have x: "drop i xs = xs ! i # drop (Suc i) xs" "xs ! i \<noteq> 0" "cstr_of xs i = xs ! i"
    using assms(1) by (auto simp: Cons_nth_drop_Suc cstr_of_def) (metis nth_mem)
  have "k = length xs - Suc i" using Suc(2) by simp
  from Suc(1) [OF this] obtain r where IH: "strcasecmp_loop (cstr_of xs) (cstr_of ys) (Suc i) = Some r"
      "r = 0 \<longleftrightarrow> map lower (drop (Suc i) xs) = map lower (drop (Suc i) ys)"
    by blast
  show ?case
  proof (cases "i < length ys")
    case True
    then have "drop i ys = ys ! i # drop (Suc i) ys" "ys ! i \<noteq> 0" "cstr_of ys i = ys ! i"
      using assms(2) by (auto simp: Cons_nth_drop_Suc cstr_of_def) (metis nth_mem)
    then show ?thesis
      using x IH by (subst strcasecmp_loop.simps) (auto simp: uint_diff_zero)
  next
    case False
    then show ?thesis
      using x by (subst strcasecmp_loop.simps) (auto simp: cstr_of_def unsigned_eq_0_iff)
  qed
qed

text \<open>Equality up to ASCII case: the letters A to Z are 65 to 90, and a to z come 32 after them.\<close>

definition case_equal :: "u8 \<Rightarrow> u8 \<Rightarrow> bool" where
  "case_equal a b \<longleftrightarrow> a = b \<or> 65 \<le> unat a \<and> unat a \<le> 90 \<and> unat b = unat a + 32 \<or>
     65 \<le> unat b \<and> unat b \<le> 90 \<and> unat a = unat b + 32"

lemma unat_lower: "unat (lower c) = (if 65 \<le> unat c \<and> unat c \<le> 90 then unat c + 32 else unat c)"
proof -
  have c: "unat c < 256" using unsigned_less [of c] by simp
  have "lower c = of_nat (if 65 \<le> unat c \<and> unat c \<le> 90 then unat c + 32 else unat c)"
  proof -
    have "65 \<le> uint c \<longleftrightarrow> 65 \<le> unat c" "uint c \<le> 90 \<longleftrightarrow> unat c \<le> 90"
      using uint_nat [of c] by linarith+
    then show ?thesis unfolding lower_def tolower_def by simp
  qed
  then show ?thesis using c by (simp add: unsigned_of_nat take_bit_eq_mod)
qed

lemma lower_eq_iff: "lower a = lower b \<longleftrightarrow> case_equal a b"
  unfolding word_unat_eq_iff [of "lower a"] unat_lower case_equal_def word_unat_eq_iff [of a b] by auto

lemma map_lower_eq_iff: "map lower xs = map lower ys \<longleftrightarrow> list_all2 case_equal xs ys"
  by (induction xs arbitrary: ys) (auto simp: Cons_eq_map_conv lower_eq_iff list_all2_Cons1)

lemma network_order:
  "map (store16 m a (htons x)) [a, a + 1] = [ucast (drop_bit 8 x), ucast x]"
  "map (store32 m a (htonl y)) [a, a + 1, a + 2, a + 3] =
     [ucast (drop_bit 24 y), ucast (drop_bit 16 y), ucast (drop_bit 8 y), ucast y]"
proof -
  have e: "(0xFF :: u16) = mask 8" "(0x000000FF :: u32) = mask 8" "(0x0000FF00 :: u32) = push_bit 8 (mask 8)"
      "(0x00FF0000 :: u32) = push_bit 16 (mask 8)" "(0xFF000000 :: u32) = push_bit 24 (mask 8)"
    by (simp_all add: mask_eq_exp_minus_1)
  have "ucast (htons x) = (ucast (drop_bit 8 x) :: u8)" "ucast (drop_bit 8 (htons x)) = (ucast x :: u8)"
    unfolding htons_def e by (auto intro!: bit_word_eqI simp: bit_simps)
  then show "map (store16 m a (htons x)) [a, a + 1] = [ucast (drop_bit 8 x), ucast x]"
    by (simp add: store16_def)
  have "ucast (htonl y) = (ucast (drop_bit 24 y) :: u8)" "ucast (drop_bit 8 (htonl y)) = (ucast (drop_bit 16 y) :: u8)"
    "ucast (drop_bit 16 (htonl y)) = (ucast (drop_bit 8 y) :: u8)" "ucast (drop_bit 24 (htonl y)) = (ucast y :: u8)"
    unfolding htonl_def e by (auto intro!: bit_word_eqI simp: bit_simps)
  then show "map (store32 m a (htonl y)) [a, a + 1, a + 2, a + 3] =
     [ucast (drop_bit 24 y), ucast (drop_bit 16 y), ucast (drop_bit 8 y), ucast y]"
    by (simp add: store32_def)
qed

lemma htons_involutive: "htons (htons x) = x"
proof -
  have e: "(0xFF :: u16) = mask 8" by (simp add: mask_eq_exp_minus_1)
  show ?thesis
    unfolding htons_def e by (rule bit_word_eqI) (auto simp: bit_simps)
qed

lemma htonl_involutive: "htonl (htonl x) = x"
proof -
  have e: "(0x000000FF :: u32) = mask 8" "(0x0000FF00 :: u32) = push_bit 8 (mask 8)"
      "(0x00FF0000 :: u32) = push_bit 16 (mask 8)" "(0xFF000000 :: u32) = push_bit 24 (mask 8)"
    by (simp_all add: mask_eq_exp_minus_1)
  show ?thesis
  proof (rule bit_word_eqI)
    fix n assume "n < LENGTH(32)"
    then consider "n < 8" | "8 \<le> n" "n < 16" | "16 \<le> n" "n < 24" | "24 \<le> n" "n < 32"
      by (cases "n < 8"; cases "n < 16"; cases "n < 24") auto
    then show "bit (htonl (htonl x)) n = bit x n"
      unfolding htonl_def e by cases (auto simp: bit_simps)
  qed
qed

section \<open>Properties\<close>

text \<open>
  C11. Byte order. A 16-bit or 32-bit value converted by \<^verbatim>\<open>htons\<close> or \<^verbatim>\<open>htonl\<close> and stored to (little-endian)
  memory lies there in network order, the most significant byte first. The conversions undo themselves, so
  \<^verbatim>\<open>ntohs\<close> and \<^verbatim>\<open>ntohl\<close> (the same macros) read back what was written.
\<close>

theorem byte_order_roundtrip:
  "map (store16 m a (htons x)) [a, a + 1] = [ucast (drop_bit 8 x), ucast x] \<and>
   map (store32 m a (htonl y)) [a, a + 1, a + 2, a + 3] =
     [ucast (drop_bit 24 y), ucast (drop_bit 16 y), ucast (drop_bit 8 y), ucast y] \<and>
   htons (htons x) = x \<and> htonl (htonl y) = y"
  by (intro conjI network_order htons_involutive htonl_involutive)

text \<open>
  C12. The kernel's \<^verbatim>\<open>strcmp(a, b)\<close>, a macro over \<^verbatim>\<open>strncmp(a, b, strlen(a))\<close>, returns for every pair of
  C strings, and it answers true exactly when \<open>a\<close> is a prefix of \<open>b\<close>: it is not an equality test.
\<close>

theorem strcmp_is_prefix:
  assumes "0 \<notin> set xs"
  shows "strcmp (cstr_of xs) (cstr_of ys) = Some (prefix xs ys)"
  using assms by (simp add: strcmp_def strlen_cstr strncmp_iff cstr_eq_prefix)

theorem strcmp_is_prefix_witness: "strcmp (cstr_of [97, 98]) (cstr_of [97, 98, 99]) = Some True"
  using strcmp_is_prefix [of "[97, 98]" "[97, 98, 99]"] by simp

text \<open>
  C13. \<^verbatim>\<open>strcasecmp\<close> returns for every pair of C strings, and returns 0 exactly when they are equal up
  to the case of ASCII letters.
\<close>

theorem strcasecmp_equal:
  assumes "0 \<notin> set xs" and "0 \<notin> set ys"
  shows "\<exists>r. strcasecmp (Some (cstr_of xs)) (Some (cstr_of ys)) = Some r \<and>
    (r = 0 \<longleftrightarrow> list_all2 case_equal xs ys)"
  using strcasecmp_loop_zero [OF assms, of 0] by (simp add: strcasecmp_def map_lower_eq_iff)

theorem strcasecmp_equal_witness:
  "\<exists>r. strcasecmp (Some (cstr_of [65, 98])) (Some (cstr_of [97, 66])) = Some r \<and> r = 0"
  using strcasecmp_equal [of "[65, 98]" "[97, 66]"] by (simp add: case_equal_def)

text \<open>
  C14. \<^verbatim>\<open>bcd_to_bin\<close> decodes the packed BCD of every number below 100.
\<close>

theorem bcd_roundtrip:
  assumes "n < 100"
  shows "bcd_to_bin (of_nat (n div 10 * 16 + n mod 10)) = of_nat n"
proof -
  have "n \<in> set [0..<100]" using assms by simp
  moreover have "list_all (\<lambda>n. bcd_to_bin (of_nat (n div 10 * 16 + n mod 10)) = of_nat n) [0..<100]"
    by code_simp
  ultimately show ?thesis
    by (auto simp: list_all_iff)
qed

theorem bcd_roundtrip_witness: "bcd_to_bin 0x59 = 59"
  using bcd_roundtrip [of 59] by simp

end
