(* ===== verification/Bus.thy ===== *)
theory Bus
  imports Keyboard Utils "HOL-Library.Countable"
begin

text \<open>
  Port input and output, memory-mapped registers, and the small devices behind them: \<^verbatim>\<open>io.c\<close>, the
  interrupt controllers (\<^verbatim>\<open>cpu/pic\<close>), the timer (\<^verbatim>\<open>cpu/pit\<close>), the clock (\<^verbatim>\<open>dev/rtc.c\<close>) and PCI
  configuration space (\<^verbatim>\<open>dev/pci.c\<close>). The hardware itself is a parameter: a \<open>device\<close> says what
  each access returns and how it changes the hidden hardware state \<open>hw\<close> (a natural number, so any
  countable state space can be encoded). Log output is not part of the state.
\<close>

section \<open>Accesses\<close>

datatype width = W8 | W16 | W32

record device =
  dev_in :: "width \<Rightarrow> u16 \<Rightarrow> nat \<Rightarrow> u32 \<times> nat"
  dev_out :: "width \<Rightarrow> u16 \<Rightarrow> u32 \<Rightarrow> nat \<Rightarrow> nat"
  dev_rd :: "u32 \<Rightarrow> nat \<Rightarrow> u32 \<times> nat"
  dev_wr :: "u32 \<Rightarrow> u32 \<Rightarrow> nat \<Rightarrow> nat"

record bus_st = kbd_st +
  hw :: nat

definition outb :: "device \<Rightarrow> u16 \<Rightarrow> u8 \<Rightarrow> 'a bus_st_scheme \<Rightarrow> 'a bus_st_scheme" where
  "outb D port v s = s\<lparr>hw := dev_out D W8 port (ucast v) (hw s)\<rparr>"

definition inb :: "device \<Rightarrow> u16 \<Rightarrow> 'a bus_st_scheme \<Rightarrow> u8 \<times> 'a bus_st_scheme" where
  "inb D port s = (ucast (fst (dev_in D W8 port (hw s))), s\<lparr>hw := snd (dev_in D W8 port (hw s))\<rparr>)"

definition outl :: "device \<Rightarrow> u16 \<Rightarrow> u32 \<Rightarrow> 'a bus_st_scheme \<Rightarrow> 'a bus_st_scheme" where
  "outl D port v s = s\<lparr>hw := dev_out D W32 port v (hw s)\<rparr>"

definition inl :: "device \<Rightarrow> u16 \<Rightarrow> 'a bus_st_scheme \<Rightarrow> u32 \<times> 'a bus_st_scheme" where
  "inl D port s = (fst (dev_in D W32 port (hw s)), s\<lparr>hw := snd (dev_in D W32 port (hw s))\<rparr>)"

text \<open>\<^verbatim>\<open>rep insw\<close>: \<open>count\<close> words, each stored little-endian.\<close>

fun insw :: "device \<Rightarrow> u16 \<Rightarrow> nat \<Rightarrow> 'a bus_st_scheme \<Rightarrow> u8 list \<times> 'a bus_st_scheme" where
  "insw D port 0 s = ([], s)"
| "insw D port (Suc count) s =
     (let w = fst (dev_in D W16 port (hw s)); s1 = s\<lparr>hw := snd (dev_in D W16 port (hw s))\<rparr>
      in apfst (\<lambda>bs. ucast w # ucast (drop_bit 8 w) # bs) (insw D port count s1))"

section \<open>Interrupt controllers and timer\<close>

definition pic_port :: "nat \<Rightarrow> u16" where
  "pic_port i = (if i < 8 then 0x21 else 0xA1)"

definition pic_bit :: "nat \<Rightarrow> u8" where
  "pic_bit i = ucast (push_bit (if i < 8 then i else i - 8) (1 :: u32))"

definition pic_clear_mask :: "device \<Rightarrow> nat \<Rightarrow> 'a bus_st_scheme \<Rightarrow> 'a bus_st_scheme" where
  "pic_clear_mask D i s =
     (let (m, s) = inb D (pic_port i) s;
          s = outb D (pic_port i) (m AND NOT (pic_bit i)) s
      in if 8 \<le> i
         then let (master, s) = inb D 0x21 s in outb D 0x21 (master AND NOT 4) s
         else s)"

definition pic_set_mask :: "device \<Rightarrow> nat \<Rightarrow> 'a bus_st_scheme \<Rightarrow> 'a bus_st_scheme" where
  "pic_set_mask D i s = (let (m, s) = inb D (pic_port i) s in outb D (pic_port i) (m OR pic_bit i) s)"

definition pic_check_mask :: "device \<Rightarrow> nat \<Rightarrow> 'a bus_st_scheme \<Rightarrow> bool \<times> 'a bus_st_scheme" where
  "pic_check_mask D i s = (let (m, s) = inb D (pic_port i) s in (m AND pic_bit i \<noteq> 0, s))"

definition pic_remap :: "device \<Rightarrow> 'a bus_st_scheme \<Rightarrow> 'a bus_st_scheme" where
  "pic_remap D s =
     (let (mask1, s) = inb D 0x21 s;
          (mask2, s) = inb D 0xA1 s;
          s = outb D 0x20 0x11 s;
          s = outb D 0xA0 0x11 s;
          s = outb D 0x21 0x20 s;
          s = outb D 0xA1 0x28 s;
          s = outb D 0x21 0x04 s;
          s = outb D 0xA1 0x02 s;
          s = outb D 0x21 0x01 s;
          s = outb D 0xA1 0x01 s;
          s = outb D 0x21 mask1 s
      in outb D 0xA1 mask2 s)"

definition pic_send_eoi :: "device \<Rightarrow> nat \<Rightarrow> 'a bus_st_scheme \<Rightarrow> 'a bus_st_scheme" where
  "pic_send_eoi D i s = outb D 0x20 0x20 (if 8 \<le> i then outb D 0xA0 0x20 s else s)"

definition pit_init :: "device \<Rightarrow> 'a bus_st_scheme \<Rightarrow> 'a bus_st_scheme" where
  "pit_init D s =
     (let divisor = 1193 :: u16;
          s = outb D 0x43 0x36 s;
          s = outb D 0x40 (ucast (divisor AND 0xFF)) s
      in outb D 0x40 (ucast (drop_bit 8 divisor AND 0xFF)) s)"

section \<open>Clock\<close>

record rtc_time_t =
  rt_second :: u8
  rt_minute :: u8
  rt_hour :: u8
  rt_day :: u8
  rt_month :: u8
  rt_year :: u32

definition get_rtc_register :: "device \<Rightarrow> u8 \<Rightarrow> 'a bus_st_scheme \<Rightarrow> u8 \<times> 'a bus_st_scheme" where
  "get_rtc_register D reg s = inb D 0x71 (outb D 0x70 reg s)"

text \<open>The digits written by \<^verbatim>\<open>itoa_time\<close>, most significant first; the terminator follows them.\<close>

fun itoa_time :: "u32 \<Rightarrow> nat \<Rightarrow> u8 list" where
  "itoa_time v 0 = []"
| "itoa_time v (Suc digits) = itoa_time (v div 10) digits @ [48 + ucast (v mod 10)]"

definition rtc_time :: "device \<Rightarrow> 'a bus_st_scheme \<Rightarrow> rtc_time_t \<times> 'a bus_st_scheme" where
  "rtc_time D s =
     (let (second, s) = get_rtc_register D 0x00 s;
          (minute, s) = get_rtc_register D 0x02 s;
          (hour, s) = get_rtc_register D 0x04 s;
          (day, s) = get_rtc_register D 0x07 s;
          (month, s) = get_rtc_register D 0x08 s;
          (year, s) = get_rtc_register D 0x09 s
      in (\<lparr>rt_second = bcd_to_bin second, rt_minute = bcd_to_bin minute, rt_hour = bcd_to_bin hour,
           rt_day = bcd_to_bin day, rt_month = bcd_to_bin month, rt_year = 2000 + ucast (bcd_to_bin year)\<rparr>, s))"

text \<open>The text \<^verbatim>\<open>fetch_rtc\<close> leaves in its buffer (without the terminator).\<close>

definition rtc_text :: "rtc_time_t \<Rightarrow> u8 list" where
  "rtc_text t =
     itoa_time (rt_year t) 4 @ [45] @ itoa_time (ucast (rt_month t)) 2 @ [45] @
     itoa_time (ucast (rt_day t)) 2 @ [32] @ itoa_time (ucast (rt_hour t)) 2 @ [58] @
     itoa_time (ucast (rt_minute t)) 2 @ [58] @ itoa_time (ucast (rt_second t)) 2"

definition fetch_rtc :: "device \<Rightarrow> u32 \<Rightarrow> 'a bus_st_scheme \<Rightarrow> (u32 \<times> u8 list \<times> 'a bus_st_scheme) option" where
  "fetch_rtc D time_str s =
     do { (p, s) \<leftarrow> (if time_str = 0 then kmalloc 32 s else Some (time_str, s));
          let (t, s) = rtc_time D s;
          Some (p, rtc_text t, s) }"

section \<open>PCI configuration space\<close>

record pci_device_desc_t =
  pd_vendor :: u16
  pd_device_id :: u16
  pd_bus :: u8
  pd_device :: u8
  pd_function :: u8
  pd_bar :: "u32 list"
  pd_io_base :: u32
  pd_irq :: u8
  pd_enabled :: bool

definition pci_address :: "u8 \<Rightarrow> u8 \<Rightarrow> u8 \<Rightarrow> u8 \<Rightarrow> u32" where
  "pci_address bus slot func offset =
     push_bit 31 1 OR push_bit 16 (ucast bus) OR push_bit 11 (ucast slot) OR push_bit 8 (ucast func) OR
     ucast (offset AND 0xFC)"

definition pci_config_read_raw ::
    "device \<Rightarrow> u8 \<Rightarrow> u8 \<Rightarrow> u8 \<Rightarrow> u8 \<Rightarrow> 'a bus_st_scheme \<Rightarrow> u32 \<times> 'a bus_st_scheme" where
  "pci_config_read_raw D bus slot func offset s = inl D 0xCFC (outl D 0xCF8 (pci_address bus slot func offset) s)"

definition pci_config_read_word_raw ::
    "device \<Rightarrow> u8 \<Rightarrow> u8 \<Rightarrow> u8 \<Rightarrow> u8 \<Rightarrow> 'a bus_st_scheme \<Rightarrow> u16 \<times> 'a bus_st_scheme" where
  "pci_config_read_word_raw D bus dev func offset s =
     (let (data, s) = pci_config_read_raw D bus dev func (offset AND 0xFC) s
      in (ucast (drop_bit (unat (offset AND 2) * 8) data AND 0xFFFF), s))"

definition pci_config_write_word_raw ::
    "device \<Rightarrow> u8 \<Rightarrow> u8 \<Rightarrow> u8 \<Rightarrow> u8 \<Rightarrow> u16 \<Rightarrow> 'a bus_st_scheme \<Rightarrow> 'a bus_st_scheme" where
  "pci_config_write_word_raw D bus dev func offset v s =
     (let address = pci_address bus dev func offset;
          (data, s) = inl D 0xCFC (outl D 0xCF8 address s);
          data = (if offset AND 2 = 0 then (data AND 0xFFFF0000) OR ucast v
                  else (data AND 0x0000FFFF) OR push_bit 16 (ucast v))
      in outl D 0xCFC data (outl D 0xCF8 address s))"

definition pci_config_read :: "device \<Rightarrow> pci_device_desc_t \<Rightarrow> u8 \<Rightarrow> 'a bus_st_scheme \<Rightarrow> u32 \<times> 'a bus_st_scheme" where
  "pci_config_read D d offset = pci_config_read_raw D (pd_bus d) (pd_device d) (pd_function d) offset"

definition pci_config_read_word ::
    "device \<Rightarrow> pci_device_desc_t \<Rightarrow> u8 \<Rightarrow> 'a bus_st_scheme \<Rightarrow> u16 \<times> 'a bus_st_scheme" where
  "pci_config_read_word D d offset = pci_config_read_word_raw D (pd_bus d) (pd_device d) (pd_function d) offset"

definition pci_config_write_word ::
    "device \<Rightarrow> pci_device_desc_t \<Rightarrow> u8 \<Rightarrow> u16 \<Rightarrow> 'a bus_st_scheme \<Rightarrow> 'a bus_st_scheme" where
  "pci_config_write_word D d offset v = pci_config_write_word_raw D (pd_bus d) (pd_device d) (pd_function d) offset v"

definition pci_enable_busmaster :: "device \<Rightarrow> u8 \<Rightarrow> u8 \<Rightarrow> u8 \<Rightarrow> 'a bus_st_scheme \<Rightarrow> 'a bus_st_scheme" where
  "pci_enable_busmaster D bus dev func s =
     (let (cmd, s) = pci_config_read_word_raw D bus dev func 0x04 s;
          cmd = cmd OR 4
      in outl D 0xCFC (ucast cmd OR push_bit 16 (ucast cmd)) (outl D 0xCF8 (pci_address bus dev func 0x04) s))"

fun pci_read_bars :: "device \<Rightarrow> pci_device_desc_t \<Rightarrow> u8 list \<Rightarrow> 'a bus_st_scheme \<Rightarrow> u32 list \<times> 'a bus_st_scheme" where
  "pci_read_bars D d [] s = ([], s)"
| "pci_read_bars D d (off # offs) s =
     (let (v, s) = pci_config_read_raw D (pd_bus d) (pd_device d) (pd_function d) off s
      in apfst ((#) v) (pci_read_bars D d offs s))"

text \<open>The first I/O BAR, with the descriptor that records it.\<close>

definition pci_detect_iobase :: "pci_device_desc_t \<Rightarrow> u32 \<times> pci_device_desc_t" where
  "pci_detect_iobase d =
     (case dropWhile (\<lambda>b. b = 0 \<or> b AND 1 = 0) (pd_bar d) of
        [] \<Rightarrow> (0, d)
      | b # _ \<Rightarrow> (b AND NOT 3, d\<lparr>pd_io_base := b AND NOT 3\<rparr>))"

definition pci_detect_irq :: "device \<Rightarrow> pci_device_desc_t \<Rightarrow> 'a bus_st_scheme \<Rightarrow> u8 \<times> 'a bus_st_scheme" where
  "pci_detect_irq D d s =
     (let (v, s) = pci_config_read_word_raw D (pd_bus d) (pd_device d) (pd_function d) 0x3C s
      in (ucast (v AND 0xFF), s))"

definition pci_lookup_device :: "u16 \<Rightarrow> u16 \<Rightarrow> string option" where
  "pci_lookup_device vendor device_id =
     map_of [((0x8086, 0x100E), ''E1000 - NIC''), ((0x8086, 0x1237), ''Intel 82440FX - Host Bridge''),
             ((0x8086, 0x7000), ''Intel 82371SB - ISA Bridge'')] (vendor, device_id)"

section \<open>Writing one field of a configuration word\<close>

text \<open>
  The bits of a configuration register: read-only, read/write, or cleared by writing a one to them (as
  the error bits of the status register). What a register holds after a write follows bit by bit.
\<close>

datatype pci_bit = RO | RW | RW1C

definition pci_written :: "(nat \<Rightarrow> pci_bit) \<Rightarrow> u32 \<Rightarrow> u32 \<Rightarrow> u32" where
  "pci_written kind old v = horner_sum of_bool 2 (map (\<lambda>n. case kind n of
     RO \<Rightarrow> bit old n | RW \<Rightarrow> bit v n | RW1C \<Rightarrow> bit old n \<and> \<not> bit v n) [0..<32])"

text \<open>
  Configuration mechanism 1. The address port holds the selected register, of which the bits 24 to 30, 0 and 1
  are reserved; with the enable bit set the data port reads and writes that register of \<open>cfg\<close>.
\<close>

definition pci_mechanism_1 ::
    "device \<Rightarrow> (nat \<Rightarrow> u32) \<Rightarrow> (nat \<Rightarrow> u32 \<Rightarrow> u32) \<Rightarrow> (u32 \<Rightarrow> nat \<Rightarrow> pci_bit) \<Rightarrow> bool" where
  "pci_mechanism_1 D sel cfg kind \<longleftrightarrow>
     (\<forall>v h. cfg (dev_out D W32 0xCF8 v h) = cfg h \<and> (v AND 0x7F000003 = 0 \<longrightarrow> sel (dev_out D W32 0xCF8 v h) = v)) \<and>
     (\<forall>h. bit (sel h) 31 \<longrightarrow> fst (dev_in D W32 0xCFC h) = cfg h (sel h) \<and>
        sel (snd (dev_in D W32 0xCFC h)) = sel h \<and> cfg (snd (dev_in D W32 0xCFC h)) = cfg h) \<and>
     (\<forall>v h. bit (sel h) 31 \<longrightarrow>
        cfg (dev_out D W32 0xCFC v h) = (cfg h)(sel h := pci_written (kind (sel h)) (cfg h (sel h)) v))"

lemma bit_pci_written:
  "n < 32 \<Longrightarrow> bit (pci_written kind old v) n =
     (case kind n of RO \<Rightarrow> bit old n | RW \<Rightarrow> bit v n | RW1C \<Rightarrow> bit old n \<and> \<not> bit v n)"
  unfolding pci_written_def by (cases "kind n") (simp_all add: bit_horner_sum_bit_iff nth_upt del: upt_rec_numeral)

lemma pci_address_bits: "bit (pci_address bus dev func off) 31" "pci_address bus dev func off AND 0x7F000003 = 0"
proof -
  have e: "(0x7F000003 :: u32) = push_bit 24 (mask 7) OR mask 2" "(0xFC :: u8) = push_bit 2 (mask 6)"
    by (simp_all add: mask_eq_exp_minus_1)
  show "bit (pci_address bus dev func off) 31" by (simp add: pci_address_def bit_simps)
  show "pci_address bus dev func off AND 0x7F000003 = 0"
    unfolding pci_address_def e by (rule bit_eqI) (auto simp: bit_push_bit_iff [of 31 1] bit_simps simp del: push_bit_of_1 dest: bit_imp_le_length)
qed

lemma and_fc: "(off AND 0xFC) AND 0xFC = (off AND 0xFC :: u8)"
  by (simp add: and.assoc)

lemma merged_bits:
  fixes x :: u32 and v :: u16
  shows "n < 32 \<Longrightarrow> bit ((x AND 0xFFFF0000) OR ucast v) n = (if n < 16 then bit v n else bit x n)"
    "n < 32 \<Longrightarrow> bit ((x AND 0x0000FFFF) OR push_bit 16 (ucast v)) n = (if n < 16 then bit x n else bit v (n - 16))"
proof -
  have e: "(0xFFFF :: u32) = mask 16" "(0xFFFF0000 :: u32) = NOT (mask 16)" by (simp_all add: mask_eq_exp_minus_1)
  show "n < 32 \<Longrightarrow> bit ((x AND 0xFFFF0000) OR ucast v) n = (if n < 16 then bit v n else bit x n)"
    "n < 32 \<Longrightarrow> bit ((x AND 0x0000FFFF) OR push_bit 16 (ucast v)) n = (if n < 16 then bit x n else bit v (n - 16))"
    unfolding e by (auto simp: bit_simps dest: bit_imp_le_length)
qed

lemma offset_bit: "(off :: u8) AND 2 = 0 \<or> off AND 2 = 2"
proof -
  have "off AND 2 = (if bit off 1 then 2 else 0)"
    by (rule bit_eqI) (auto simp: bit_and_iff bit_2_iff)
  then show ?thesis by auto
qed

text \<open>
  C28. Writing a 16-bit field of PCI configuration space, on hardware with configuration mechanism 1 whose registers
  have read-only, read/write and write-one-to-clear bits. No other register of any device changes. The bits
  of the field become what the device makes of the value. In the other half of the 32-bit register the
  read-only and read/write bits stay, but every write-one-to-clear bit is cleared, because the code writes
  back the ones it has read. A field of read/write bits reads back as written.
\<close>

theorem pci_write_word_field:
  fixes s :: "'a bus_st_scheme"
  assumes "pci_mechanism_1 D sel cfg kind" "s' = pci_config_write_word_raw D bus dev func off v s"
    and "a = pci_address bus dev func off" "k = unat (off AND 2) * 8"
  shows "(\<forall>r. r \<noteq> a \<longrightarrow> cfg (hw s') r = cfg (hw s) r) \<and>
    (\<forall>n < 16. bit (cfg (hw s') a) (k + n) = (case kind a (k + n) of RO \<Rightarrow> bit (cfg (hw s) a) (k + n) | RW \<Rightarrow> bit v n
       | RW1C \<Rightarrow> bit (cfg (hw s) a) (k + n) \<and> \<not> bit v n)) \<and>
    (\<forall>n < 32. \<not> (k \<le> n \<and> n < k + 16) \<longrightarrow> bit (cfg (hw s') a) n = (kind a n \<noteq> RW1C \<and> bit (cfg (hw s) a) n)) \<and>
    ((\<forall>n < 16. kind a (k + n) = RW) \<longrightarrow> fst (pci_config_read_word_raw D bus dev func off s') = v)"
proof -
  let ?x = "cfg (hw s) a"
  define d where "d = (if off AND 2 = 0 then (?x AND 0xFFFF0000) OR ucast v else (?x AND 0x0000FFFF) OR push_bit 16 (ucast v))"
  have k: "k = 0 \<and> off AND 2 = 0 \<or> k = 16 \<and> off AND 2 \<noteq> 0"
    using offset_bit [of off] assms(4) by auto
  note b = pci_address_bits [of bus dev func off, folded assms(3)]
  have p: "cfg (dev_out D W32 0xCF8 y h) = cfg h" "sel (dev_out D W32 0xCF8 a h) = a"
      "sel h = a \<Longrightarrow> fst (dev_in D W32 0xCFC h) = cfg h a" "sel h = a \<Longrightarrow> sel (snd (dev_in D W32 0xCFC h)) = a"
      "sel h = a \<Longrightarrow> cfg (snd (dev_in D W32 0xCFC h)) = cfg h"
      "sel h = a \<Longrightarrow> cfg (dev_out D W32 0xCFC y h) = (cfg h)(a := pci_written (kind a) (cfg h a) y)" for y h
    using assms(1) b unfolding pci_mechanism_1_def by blast+
  have c: "cfg (hw s') = (cfg (hw s))(a := pci_written (kind a) ?x d)"
    by (simp add: assms(2) assms(3) [symmetric] pci_config_write_word_raw_def inl_def outl_def Let_def p d_def)
  have d: "n < 32 \<Longrightarrow> bit d n = (if k \<le> n \<and> n < k + 16 then bit v (n - k) else bit ?x n)" for n
    using k merged_bits [of n ?x v] by (auto simp: d_def)
  have B: "n < 32 \<Longrightarrow> bit (cfg (hw s') a) n = (case kind a n of RO \<Rightarrow> bit ?x n | RW \<Rightarrow> bit d n | RW1C \<Rightarrow> bit ?x n \<and> \<not> bit d n)" for n
    by (simp add: c bit_pci_written)
  have k16: "k + n < 32" if "n < 16" for n using k that by auto
  have "fst (pci_config_read_word_raw D bus dev func off s') = ucast (drop_bit k (cfg (hw s') a) AND 0xFFFF)"
  proof -
    have "pci_address bus dev func (off AND 0xFC) = a" by (simp add: pci_address_def and_fc assms(3))
    then show ?thesis by (simp add: pci_config_read_word_raw_def pci_config_read_raw_def inl_def outl_def Let_def p assms(4))
  qed
  moreover have "ucast (drop_bit k (cfg (hw s') a) AND 0xFFFF) = v" if "\<forall>n < 16. kind a (k + n) = RW"
  proof (rule bit_word_eqI)
    fix n assume "n < LENGTH(16)"
    moreover have e: "bit (0xFFFF :: u32) n \<longleftrightarrow> n < 16"
      using bit_mask_iff [of 16 n, where 'a = u32] by (auto simp: mask_eq_exp_minus_1)
    ultimately show "bit (ucast (drop_bit k (cfg (hw s') a) AND 0xFFFF) :: u16) n = bit v n"
      using that B [OF k16, of n] d [OF k16, of n] k e by (auto simp: bit_simps)
  qed
  ultimately show ?thesis
    using B d k k16 by (auto simp: c split: pci_bit.splits)
qed

text \<open>A bridge in whose registers the low half is read/write and the high half is cleared by ones.\<close>

definition demo_kind :: "u32 \<Rightarrow> nat \<Rightarrow> pci_bit" where
  "demo_kind a n = (if n < 16 then RW else RW1C)"

definition demo_bridge :: device where
  "demo_bridge = \<lparr>
     dev_in = (\<lambda>w p h. (let (a, c) = from_nat h :: u32 \<times> (u32 \<Rightarrow> u32) in (c a, h))),
     dev_out = (\<lambda>w p v h. (let (a, c) = from_nat h :: u32 \<times> (u32 \<Rightarrow> u32)
        in if p = 0xCF8 then to_nat (v, c) else to_nat (a, c(a := pci_written (demo_kind a) (c a) v)))),
     dev_rd = (\<lambda>a h. (0, h)), dev_wr = (\<lambda>a v h. h)\<rparr>"

theorem pci_write_word_field_witness:
  "fst (pci_config_read_word_raw demo_bridge 0 3 0 4
      (pci_config_write_word_raw demo_bridge 0 3 0 4 7 (kbd_st.extend demo_kbd \<lparr>hw = 0\<rparr>))) = 7"
proof -
  have "pci_mechanism_1 demo_bridge (\<lambda>h. fst (from_nat h :: u32 \<times> (u32 \<Rightarrow> u32))) (\<lambda>h. snd (from_nat h :: u32 \<times> (u32 \<Rightarrow> u32))) demo_kind"
    by (simp add: pci_mechanism_1_def demo_bridge_def case_prod_unfold Let_def)
  from pci_write_word_field [OF this refl refl refl, where bus = 0 and dev = 3 and func = 0 and off = 4 and v = 7
      and s = "kbd_st.extend demo_kbd \<lparr>hw = 0\<rparr>"] show ?thesis
    by (simp add: demo_kind_def)
qed

end
