(* ===== verification/Inet.thy ===== *)
theory Inet
  imports Utils
begin

text \<open>
  Byte layouts and checksums of the network stack: the Internet checksum of
  \<^verbatim>\<open>stage2/net/ipv4.c\<close> and \<^verbatim>\<open>stage2/net/udp.c\<close>, and the packed headers of \<^verbatim>\<open>inc/net\<close> as byte
  lists. A \<^verbatim>\<open>uint16_t\<close> field is stored little-endian, so that \<^verbatim>\<open>htons\<close> makes the wire order.
  The checksum is related to the arithmetic sum of the big-endian words modulo 65535.
\<close>

section \<open>Fields\<close>

definition bytes16 :: "u16 \<Rightarrow> u8 list" where
  "bytes16 v = [ucast v, ucast (drop_bit 8 v)]"

definition get16 :: "u8 list \<Rightarrow> nat \<Rightarrow> u16" where
  "get16 bs i = ucast (bs ! i) OR push_bit 8 (ucast (bs ! (i + 1)))"

definition slice :: "u8 list \<Rightarrow> nat \<Rightarrow> nat \<Rightarrow> u8 list" where
  "slice bs i n = take n (drop i bs)"

text \<open>The macro \<^verbatim>\<open>htons\<close> applied to a 32-bit value and stored to a 16-bit field.\<close>

definition htons_wide :: "u32 \<Rightarrow> u16" where
  "htons_wide x = ucast (push_bit 8 (x AND 0xFF) OR drop_bit 8 x)"

section \<open>The Internet checksum\<close>

text \<open>The two accumulation loops: pairs of bytes, and an odd last byte padded with zero.\<close>

fun cksum_add :: "u8 list \<Rightarrow> u32 \<Rightarrow> u32" where
  "cksum_add (a # b # bs) s = cksum_add bs (s + (push_bit 8 (ucast a) OR ucast b))"
| "cksum_add [a] s = s + push_bit 8 (ucast a)"
| "cksum_add [] s = s"

lemma unat_high: "unat (drop_bit 16 s) = unat (s :: u32) div 65536"
  by (simp only: unsigned_drop_bit_eq) (simp add: drop_bit_eq_div take_bit_eq_mod)

lemma fold_carry_less:
  assumes "drop_bit 16 s \<noteq> (0 :: u32)"
  shows "unat ((s AND 0xFFFF) + drop_bit 16 s) = unat s mod 65536 + unat s div 65536"
    "unat s mod 65536 + unat s div 65536 < unat s"
proof -
  have e: "(0xFFFF :: u32) = mask 16" by (simp add: mask_eq_exp_minus_1)
  have m: "unat (s AND 0xFFFF) = unat s mod 65536"
    unfolding e by (simp only: unsigned_take_bit_eq flip: take_bit_eq_mask) (simp add: take_bit_eq_mod)
  have d: "unat (drop_bit 16 s) = unat s div 65536" by (rule unat_high)
  have q: "unat s div 65536 < 65536" using unat_bound_u32 [of s] by (simp add: less_mult_imp_div_less)
  have r: "unat s mod 65536 < 65536" by simp
  show "unat ((s AND 0xFFFF) + drop_bit 16 s) = unat s mod 65536 + unat s div 65536"
    using q r by (subst unat_add_u32) (simp_all add: m d)
  have "unat (drop_bit 16 s) \<noteq> 0" using assms by (simp add: unsigned_eq_0_iff)
  then have "0 < unat s div 65536" by (simp add: d)
  moreover have "unat s = unat s div 65536 * 65536 + unat s mod 65536" by simp
  ultimately show "unat s mod 65536 + unat s div 65536 < unat s" by linarith
qed

function fold_carry :: "u32 \<Rightarrow> u32" where
  "fold_carry s = (if drop_bit 16 s \<noteq> 0 then fold_carry ((s AND 0xFFFF) + drop_bit 16 s) else s)"
  by auto
termination
  by (relation "measure unat") (auto simp: fold_carry_less)

declare fold_carry.simps [simp del]

definition ipv4_checksum :: "u8 list \<Rightarrow> u16" where
  "ipv4_checksum bs = ucast (NOT (fold_carry (cksum_add bs 0)))"

definition udp_checksum :: "u8 list \<Rightarrow> u8 list \<Rightarrow> u8 list \<Rightarrow> u16" where
  "udp_checksum src_ip dst_ip segment =
     (let pair = (\<lambda>a b. push_bit 8 (ucast a) OR ucast b :: u32);
          sum = pair (src_ip ! 0) (src_ip ! 1);
          sum = sum + pair (src_ip ! 2) (src_ip ! 3);
          sum = sum + pair (dst_ip ! 0) (dst_ip ! 1);
          sum = sum + pair (dst_ip ! 2) (dst_ip ! 3);
          sum = sum + 17;
          sum = sum + of_nat (length segment)
      in ucast (NOT (fold_carry (cksum_add segment sum))))"

definition udp_checksum_valid :: "u8 list \<Rightarrow> u8 list \<Rightarrow> u8 list \<Rightarrow> bool" where
  "udp_checksum_valid src_ip dst_ip segment \<longleftrightarrow> udp_checksum src_ip dst_ip segment = 0"

section \<open>What the checksum computes\<close>

fun be_sum :: "u8 list \<Rightarrow> nat" where
  "be_sum (a # b # bs) = unat a * 256 + unat b + be_sum bs"
| "be_sum [a] = unat a * 256"
| "be_sum [] = 0"

text \<open>The representative of \<open>n\<close> modulo 65535 in \<open>1..65535\<close>, and 0 for 0.\<close>

definition ones :: "nat \<Rightarrow> nat" where
  "ones n = (if n = 0 then 0 else (n - 1) mod 65535 + 1)"

lemma be_sum_bound: "be_sum bs \<le> 65535 * ((length bs + 1) div 2)"
proof (induction bs rule: be_sum.induct)
  case (1 a b bs)
  have "unat a * 256 + unat b \<le> 65535" using unat_bound_u8 [of a] unat_bound_u8 [of b] by linarith
  with 1 show ?case by simp
next
  case (2 a)
  have "unat a * 256 \<le> 65535" using unat_bound_u8 [of a] by linarith
  then show ?case by simp
qed simp

lemma u8_mod_u32: "unat (a :: u8) mod 4294967296 = unat a" "unat a * 256 mod 4294967296 = unat a * 256"
proof -
  have "unat a < 256" by simp
  then show "unat a mod 4294967296 = unat a" "unat a * 256 mod 4294967296 = unat a * 256"
    by (intro mod_less; linarith)+
qed

lemma byte_unat: "unat (push_bit 8 (ucast a) :: u32) = unat (a :: u8) * 256"
  by (simp only: unsigned_push_bit_eq unsigned_ucast_eq) (simp add: push_bit_eq_mult take_bit_eq_mod u8_mod_u32)

lemma pair_unat: "unat (push_bit 8 (ucast a) OR ucast (b :: u8) :: u32) = unat (a :: u8) * 256 + unat b"
proof -
  have "push_bit 8 (ucast a) AND ucast b = (0 :: u32)"
    by (rule bit_eqI) (auto simp: bit_simps dest: bit_imp_le_length)
  then have "push_bit 8 (ucast a) OR ucast b = push_bit 8 (ucast a) + (ucast b :: u32)"
    by (simp add: disjunctive_add_eq_or)
  moreover have "unat (ucast b :: u32) = unat b"
    by (simp add: unsigned_ucast_eq take_bit_eq_mod u8_mod_u32)
  moreover have "unat a * 256 + unat b < 4294967296"
    using unat_bound_u8 [of a] unat_bound_u8 [of b] by linarith
  ultimately show ?thesis by (simp add: byte_unat)
qed

lemma cksum_add_unat: "unat s + be_sum bs < 4294967296 \<Longrightarrow> unat (cksum_add bs s) = unat s + be_sum bs"
proof (induction bs s rule: cksum_add.induct)
  case (1 a b bs s)
  have "unat (s + (push_bit 8 (ucast a) OR ucast b)) = unat s + (unat a * 256 + unat b)"
    using 1(2) by (subst unat_add_u32) (simp_all add: pair_unat)
  with 1 show ?case by simp
next
  case (2 a s)
  then show ?case by (simp add: byte_unat)
qed simp

lemma ones_fold: "0 < n div 65536 \<Longrightarrow> ones (n mod 65536 + n div 65536) = ones n"
proof -
  assume d: "0 < n div 65536"
  then have "n = (n mod 65536 + n div 65536) + 65535 * (n div 65536)" by simp
  then have "n - 1 = (n mod 65536 + n div 65536 - 1) + 65535 * (n div 65536)" using d by linarith
  then have "(n - 1) mod 65535 = (n mod 65536 + n div 65536 - 1) mod 65535" by (metis mod_mult_self2)
  then show ?thesis using d by (auto simp: ones_def)
qed

lemma ones_small: "n \<le> 65535 \<Longrightarrow> ones n = n"
  by (simp add: ones_def)

lemma fold_carry_unat: "unat (fold_carry s) = ones (unat s)"
proof (induction s rule: fold_carry.induct)
  case (1 s)
  have d: "unat (drop_bit 16 s) = unat s div 65536" by (rule unat_high)
  show ?case
  proof (cases "drop_bit 16 s = 0")
    case True
    then have "unat s div 65536 = 0" using d by simp
    then have "unat s \<le> 65535" by linarith
    then show ?thesis using True by (subst fold_carry.simps) (simp add: ones_small)
  next
    case False
    have "0 < unat s div 65536" using False d by (metis gr0I unsigned_eq_0_iff)
    then show ?thesis
      using 1 [OF False] False fold_carry_less(1) [OF False] by (subst fold_carry.simps) (simp add: ones_fold)
  qed
qed

lemma ones_le: "ones n \<le> 65535"
  by (simp add: ones_def less_Suc_eq_le [symmetric])

lemma not_carry_unat: "unat (ucast (NOT (fold_carry s)) :: u16) = 65535 - ones (unat s)"
proof -
  have "ucast (NOT (fold_carry s)) = NOT (ucast (fold_carry s) :: u16)"
    by (rule bit_eqI) (auto simp: bit_simps)
  moreover have "unat (ucast (fold_carry s) :: u16) = ones (unat s)"
    using ones_le [of "unat s"] by (simp add: unsigned_ucast_eq take_bit_eq_mod fold_carry_unat)
  moreover have "unat (NOT w) = 65535 - unat w" for w :: u16
  proof -
    have "w + NOT w = - 1" by (simp add: not_eq_complement)
    moreover have "NOT w = - 1 - w" by (simp add: not_eq_complement)
    ultimately show ?thesis using unat_sub [of w "- 1 :: u16"] by (simp add: unsigned_minus_1_eq_mask mask_eq_exp_minus_1)
  qed
  ultimately show ?thesis by simp
qed

lemma ipv4_checksum_unat:
  assumes "length bs \<le> 100000"
  shows "unat (ipv4_checksum bs) = 65535 - ones (be_sum bs)"
proof -
  have "be_sum bs < 4294967296"
    using be_sum_bound [of bs] assms by (auto intro: le_less_trans)
  then show ?thesis
    using cksum_add_unat [of 0 bs] not_carry_unat [of "cksum_add bs 0"] by (simp add: ipv4_checksum_def)
qed

section \<open>Inserting and checking\<close>

lemma be_sum_append: "even (length xs) \<Longrightarrow> be_sum (xs @ ys) = be_sum xs + be_sum ys"
  by (induction xs rule: be_sum.induct) auto

lemma u16_split: "unat (v :: u16) = unat (ucast (drop_bit 8 v) :: u8) * 256 + unat (ucast v :: u8)"
proof -
  have "unat (ucast v :: u8) = unat v mod 256"
    by (simp add: unsigned_ucast_eq take_bit_eq_mod)
  moreover have "unat (drop_bit 8 v) = unat v div 256"
    by (simp only: unsigned_drop_bit_eq) (simp add: drop_bit_eq_div take_bit_eq_mod)
  then have "unat (ucast (drop_bit 8 v) :: u8) = unat v div 256"
    using unat_bound_u16 [of v] by (simp add: unsigned_ucast_eq take_bit_eq_mod less_mult_imp_div_less)
  ultimately show ?thesis by simp
qed

lemma wire16: "bytes16 (htons v) = [ucast (drop_bit 8 v), ucast v]"
proof -
  have e: "(0xFF :: u16) = mask 8" by (simp add: mask_eq_exp_minus_1)
  show ?thesis unfolding bytes16_def htons_def e by (auto intro!: bit_eqI simp: bit_simps)
qed

lemma be_sum_wire16: "be_sum (bytes16 (htons v)) = unat v"
  using u16_split [of v] by (simp add: wire16)

lemma length_bytes16 [simp]: "length (bytes16 v) = 2"
  by (simp add: bytes16_def)

lemma ones_complement: "ones (n + (65535 - ones n)) = 65535"
proof (cases "n = 0")
  case False
  define k where "k = (n - 1) mod 65535"
  have k: "k < 65535" "ones n = k + 1" using False by (simp_all add: ones_def k_def)
  have "n - 1 = (n - 1) div 65535 * 65535 + k" by (simp add: k_def)
  then have "n + (65535 - ones n) - 1 = (n - 1) div 65535 * 65535 + 65534" using k False by linarith
  then show ?thesis using False by (simp add: ones_def)
qed (simp add: ones_def)

lemma ones_add_cong: "ones (a + n) = ones (b + n) \<Longrightarrow> a mod 65535 = b mod 65535"
proof -
  assume e: "ones (a + n) = ones (b + n)"
  have z: "m mod 65535 = ones m mod 65535" for m
  proof (cases "m = 0")
    case False
    then have "m = (m - 1) + 1" by simp
    then show ?thesis using False by (metis mod_add_left_eq ones_def)
  qed (simp add: ones_def)
  have "(a + n) mod 65535 = (b + n) mod 65535" using z e by metis
  then have "int ((a + n) mod 65535) = int ((b + n) mod 65535)" by simp
  then have "int (a + n) mod 65535 = int (b + n) mod 65535" by (simp only: zmod_int of_nat_numeral)
  then have "(int (a + n) - int n) mod 65535 = (int (b + n) - int n) mod 65535" by (rule mod_diff_cong) simp
  then have "int (a mod 65535) = int (b mod 65535)" by (simp add: of_nat_mod)
  then show ?thesis by simp
qed

lemma checksum_inserted:
  assumes "even (length pre)" "length pre + length post \<le> 65535"
  shows "ipv4_checksum (pre @ bytes16 (htons (ipv4_checksum (pre @ [0, 0] @ post))) @ post) = 0"
proof -
  define ck where "ck = ipv4_checksum (pre @ [0, 0] @ post)"
  have "unat ck = 65535 - ones (be_sum (pre @ [0, 0] @ post))"
    using assms(2) unfolding ck_def by (intro ipv4_checksum_unat) simp
  then have c: "unat ck = 65535 - ones (be_sum pre + be_sum post)"
    using assms(1) by (simp add: be_sum_append)
  have "unat (ipv4_checksum (pre @ bytes16 (htons ck) @ post)) = 65535 - ones (be_sum (pre @ bytes16 (htons ck) @ post))"
    using assms(2) by (intro ipv4_checksum_unat) simp
  also have "be_sum (pre @ bytes16 (htons ck) @ post) = be_sum pre + be_sum post + unat ck"
    using assms(1) by (simp add: be_sum_append be_sum_wire16)
  finally show ?thesis unfolding c ones_complement ck_def [symmetric] by (simp add: unsigned_eq_0_iff)
qed

text \<open>The sum over the pseudo-header, in the order the code adds it.\<close>

lemma list4: "length xs = 4 \<Longrightarrow> xs = [xs ! 0, xs ! 1, xs ! 2, xs ! 3]"
  by (rule nth_equalityI) (auto simp: less_Suc_eq numeral_eq_Suc)

lemma be_sum4: "length xs = 4 \<Longrightarrow> be_sum xs = unat (xs ! 0) * 256 + unat (xs ! 1) + (unat (xs ! 2) * 256 + unat (xs ! 3))"
  using arg_cong [OF list4 [of xs], of be_sum] by simp

lemma udp_checksum_unat:
  assumes "length src = 4" "length dst = 4" "length seg \<le> 65535"
  shows "unat (udp_checksum src dst seg) = 65535 - ones (be_sum src + be_sum dst + 17 + length seg + be_sum seg)"
proof -
  let ?p = "\<lambda>a b. push_bit 8 (ucast (a :: u8)) OR ucast (b :: u8) :: u32"
  define s where "s = ?p (src ! 0) (src ! 1) + ?p (src ! 2) (src ! 3) + ?p (dst ! 0) (dst ! 1) +
    ?p (dst ! 2) (dst ! 3) + 17 + of_nat (length seg)"
  have p: "unat (?p a b) < 65536" for a b
    unfolding pair_unat using unat_bound_u8 [of a] unat_bound_u8 [of b] by linarith
  have l: "unat (of_nat (length seg) :: u32) = length seg"
    using assms(3) by (simp add: unsigned_of_nat take_bit_eq_mod)
  have n: "unat s = be_sum src + be_sum dst + 17 + length seg"
    using p [of "src ! 0" "src ! 1"] p [of "src ! 2" "src ! 3"] p [of "dst ! 0" "dst ! 1"] p [of "dst ! 2" "dst ! 3"]
      assms l unfolding s_def by (simp add: be_sum4 flip: pair_unat)
  have "length seg + 1 \<le> 2 * 32768" using assms(3) by simp
  then have "(length seg + 1) div 2 \<le> 32768" by linarith
  then have "be_sum seg \<le> 65535 * 32768"
    using be_sum_bound [of seg] by (meson le_trans mult_le_mono2)
  moreover have "be_sum src + be_sum dst \<le> 4 * 65535"
    using be_sum_bound [of src] be_sum_bound [of dst] assms(1,2) by simp
  ultimately have "unat (cksum_add seg s) = unat s + be_sum seg"
    using n assms(3) by (intro cksum_add_unat) linarith
  then show ?thesis
    using not_carry_unat [of "cksum_add seg s"] n by (simp add: udp_checksum_def s_def Let_def)
qed

lemma ones_complement': "ones (n + (if ones n = 65535 then 65535 else 65535 - ones n)) = 65535"
proof (cases "ones n = 65535")
  case True
  then have "n \<noteq> 0" by (cases n) (auto simp: ones_def)
  then have "(n + 65535 - 1) mod 65535 = (n - 1) mod 65535"
    using mod_add_self2 [of "n - 1" 65535] by (simp add: add.commute)
  then show ?thesis using True \<open>n \<noteq> 0\<close> by (simp add: ones_def)
qed (simp add: ones_complement)

lemma udp_checksum_inserted:
  assumes "length src = 4" "length dst = 4" "even (length pre)" "length pre + length post + 2 \<le> 65535"
    and "ck = udp_checksum src dst (pre @ [0, 0] @ post)"
  shows "udp_checksum_valid src dst (pre @ bytes16 (htons (if ck = 0 then 0xFFFF else ck)) @ post)"
proof -
  let ?S = "be_sum src + be_sum dst + 17 + (length pre + 2 + length post) + (be_sum pre + be_sum post)"
  let ?v = "if ck = 0 then 0xFFFF else ck :: u16"
  have "unat ck = 65535 - ones ?S"
    using assms udp_checksum_unat [of src dst "pre @ [0, 0] @ post"] by (simp add: be_sum_append add_ac)
  then have v: "unat ?v = (if ones ?S = 65535 then 65535 else 65535 - ones ?S)"
    using ones_le [of ?S] unsigned_eq_0_iff [of ck] by (auto simp del: unsigned_eq_0_iff)
  have "unat (udp_checksum src dst (pre @ bytes16 (htons ?v) @ post)) = 65535 - ones (?S + unat ?v)"
    using assms udp_checksum_unat [of src dst "pre @ bytes16 (htons ?v) @ post"]
    by (simp add: be_sum_append be_sum_wire16 add_ac)
  moreover have "ones (?S + unat ?v) = 65535" unfolding v by (rule ones_complement')
  ultimately show ?thesis by (simp add: udp_checksum_valid_def unsigned_eq_0_iff)
qed

text \<open>
  C27. What the checksum detects. Two messages that differ only in one 16-bit field at an even offset have
  different checksums, unless the field is all zeros in one and all ones in the other, the two
  representations of zero in ones' complement.
\<close>

theorem checksum_detects:
  assumes "even (length pre)" "length pre + length post \<le> 65535"
    and "ipv4_checksum (pre @ bytes16 (htons v) @ post) = ipv4_checksum (pre @ bytes16 (htons w) @ post)"
  shows "v = w \<or> {v, w} = {0, 0xFFFF}"
proof -
  have r: "unat x mod 65535 = (if unat x = 65535 then 0 else unat x)" for x :: u16
  proof (cases "unat x = 65535")
    case False
    have "unat x < 65536" by (rule unat_bound_u16)
    with False have "unat x < 65535" by linarith
    then show ?thesis by simp
  qed simp
  have all_ones: "unat x = 65535 \<longleftrightarrow> x = 0xFFFF" for x :: u16
    using word_unat_eq_iff [of x "0xFFFF"] by simp
  let ?m = "\<lambda>v. pre @ bytes16 (htons v) @ post"
  have s: "be_sum (?m x) = unat x + (be_sum pre + be_sum post)" for x
    using assms(1) by (simp add: be_sum_append be_sum_wire16)
  have "65535 - ones (be_sum (?m v)) = 65535 - ones (be_sum (?m w))"
    using arg_cong [OF assms(3), of unat] assms(2) by (simp add: ipv4_checksum_unat)
  then have "ones (be_sum (?m v)) = ones (be_sum (?m w))"
    using ones_le [of "be_sum (?m v)"] ones_le [of "be_sum (?m w)"] by linarith
  then have "unat v mod 65535 = unat w mod 65535"
    unfolding s by (rule ones_add_cong)
  then have "(if unat v = 65535 then 0 else unat v) = (if unat w = 65535 then 0 else unat w)"
    by (simp only: r)
  then have "unat v = unat w \<or> unat v = 65535 \<and> unat w = 0 \<or> unat v = 0 \<and> unat w = 65535"
    by (metis (full_types))
  then have "v = w \<or> v = 0xFFFF \<and> w = 0 \<or> v = 0 \<and> w = 0xFFFF"
    by (simp only: all_ones unsigned_eq_0_iff word_unat_eq_iff)
  then show ?thesis by blast
qed

theorem checksum_detects_witness: "ipv4_checksum [0x45, 0, 0x00, 0x54] \<noteq> ipv4_checksum [0x45, 0, 0x00, 0x55]"
proof
  assume "ipv4_checksum [0x45, 0, 0x00, 0x54] = ipv4_checksum [0x45, 0, 0x00, 0x55]"
  then have "ipv4_checksum ([0x45, 0] @ bytes16 (htons 0x54) @ []) = ipv4_checksum ([0x45, 0] @ bytes16 (htons 0x55) @ [])"
    by (simp add: wire16)
  from checksum_detects [OF _ _ this] show False by (auto simp: doubleton_eq_iff)
qed

end
