(* ===== verification/E1k.thy ===== *)
theory E1k
  imports Bus Inet
begin

text \<open>
  The driver of the Intel 8254x network card, \<^verbatim>\<open>stage2/dev/e1k.c\<close>. The descriptor rings and packet
  buffers are lists inside the record \<open>nic_t\<close>; the card works on them by DMA. A \<open>card\<close> adds to the
  register accesses of a \<open>device\<close> what the card does to the rings between two looks of the driver.
  Register constants are those of \<^verbatim>\<open>inc/dev/e1k.h\<close>. The receive path calls the Ethernet layer; it is
  an argument of \<open>e1k_drain_rx\<close> and instantiated in the theory of the protocol stack.
\<close>

section \<open>State\<close>

record tx_desc =
  td_addr :: u64
  td_length :: u16
  td_cmd :: u8
  td_status :: u8

record rx_desc =
  rd_addr :: u64
  rd_length :: u16
  rd_status :: u8
  rd_errors :: u8

record nic_t =
  nic_desc :: pci_device_desc_t
  nic_mac :: "u8 list"
  tx_ring_addr :: u32
  tx_bufs_addr :: u32
  tx_ring :: "tx_desc list"
  tx_bufs :: "u8 list list"
  tx_tail :: u32
  rx_ring_addr :: u32
  rx_bufs_addr :: u32
  rx_ring :: "rx_desc list"
  rx_bufs :: "u8 list list"
  rx_tail :: u32

record card = device +
  dma :: "nic_t \<Rightarrow> nat \<Rightarrow> nic_t \<times> nat"

record nic_st = bus_st +
  nic :: nic_t

abbreviation upd_nic :: "(nic_t \<Rightarrow> nic_t) \<Rightarrow> 'a nic_st_scheme \<Rightarrow> 'a nic_st_scheme" where
  "upd_nic f s \<equiv> s\<lparr>nic := f (nic s)\<rparr>"

abbreviation bus_of :: "card \<Rightarrow> device" where
  "bus_of C \<equiv> device.truncate C"

text \<open>The card's turn.\<close>

definition nic_dma :: "card \<Rightarrow> 'a nic_st_scheme \<Rightarrow> 'a nic_st_scheme" where
  "nic_dma C s = s\<lparr>nic := fst (dma C (nic s) (hw s)), hw := snd (dma C (nic s) (hw s))\<rparr>"

section \<open>Registers\<close>

definition e1k_is_mmio :: "'a nic_st_scheme \<Rightarrow> bool" where
  "e1k_is_mmio s \<longleftrightarrow> pd_bar (nic_desc (nic s)) ! 0 AND 1 = 0"

definition e1k_write :: "card \<Rightarrow> u32 \<Rightarrow> u32 \<Rightarrow> 'a nic_st_scheme \<Rightarrow> 'a nic_st_scheme" where
  "e1k_write C reg val s =
     (let a = pd_io_base (nic_desc (nic s)) + reg in
      if e1k_is_mmio s then s\<lparr>hw := dev_wr C a val (hw s)\<rparr>
      else outl (bus_of C) (ucast a) val s)"

definition e1k_read :: "card \<Rightarrow> u32 \<Rightarrow> 'a nic_st_scheme \<Rightarrow> u32 \<times> 'a nic_st_scheme" where
  "e1k_read C reg s =
     (let a = pd_io_base (nic_desc (nic s)) + reg in
      if e1k_is_mmio s then (fst (dev_rd C a (hw s)), s\<lparr>hw := snd (dev_rd C a (hw s))\<rparr>)
      else inl (bus_of C) (ucast a) s)"

definition e1k_get_mac :: "'a nic_st_scheme \<Rightarrow> u8 list" where
  "e1k_get_mac s = take 6 (nic_mac (nic s))"

text \<open>At most \<open>n\<close> reads of a register until a bit of \<open>msk\<close> is as wanted; whether it came.\<close>

fun e1k_poll :: "card \<Rightarrow> u32 \<Rightarrow> u32 \<Rightarrow> bool \<Rightarrow> nat \<Rightarrow> 'a nic_st_scheme \<Rightarrow> bool \<times> 'a nic_st_scheme" where
  "e1k_poll C reg msk want 0 s = (False, s)"
| "e1k_poll C reg msk want (Suc n) s =
     (let (v, s) = e1k_read C reg s
      in if (v AND msk \<noteq> 0) = want then (True, s) else e1k_poll C reg msk want n s)"

definition e1k_detect_eeprom :: "card \<Rightarrow> 'a nic_st_scheme \<Rightarrow> bool \<times> 'a nic_st_scheme" where
  "e1k_detect_eeprom C s = e1k_poll C 0x10 0x100 True 1000 s"

definition e1k_read_eeprom :: "card \<Rightarrow> u16 \<Rightarrow> 'a nic_st_scheme \<Rightarrow> u16 \<times> 'a nic_st_scheme" where
  "e1k_read_eeprom C addr s =
     (let s = e1k_write C 0x14 (push_bit 8 (ucast addr) OR 1) s;
          (ok, s) = e1k_poll C 0x14 0x10 True 100001 s
      in if ok then let (v, s) = e1k_read C 0x14 s in (ucast (drop_bit 16 v), s) else (0xFFFF, s))"

definition e1k_read_mac_word :: "card \<Rightarrow> nat \<Rightarrow> 'a nic_st_scheme \<Rightarrow> 'a nic_st_scheme" where
  "e1k_read_mac_word C i s =
     (let (w, s) = e1k_read_eeprom C (of_nat i) s
      in if w = 0xFFFF then s
         else upd_nic (\<lambda>n. n\<lparr>nic_mac := (nic_mac n)[i * 2 := ucast (w AND 0xFF),
                                 i * 2 + 1 := ucast (drop_bit 8 w AND 0xFF)]\<rparr>) s)"

definition e1k_read_mac :: "card \<Rightarrow> 'a nic_st_scheme \<Rightarrow> 'a nic_st_scheme" where
  "e1k_read_mac C s = fold (e1k_read_mac_word C) [0..<3] s"

definition e1k_program_mac :: "card \<Rightarrow> 'a nic_st_scheme \<Rightarrow> 'a nic_st_scheme" where
  "e1k_program_mac C s =
     (let m = (\<lambda>i. ucast (nic_mac (nic s) ! i) :: u32);
          ral = m 0 OR push_bit 8 (m 1) OR push_bit 16 (m 2) OR push_bit 24 (m 3);
          rah = m 4 OR push_bit 8 (m 5) OR push_bit 31 1
      in e1k_write C 0x5404 rah (e1k_write C 0x5400 ral s))"

definition e1k_mmio_post :: "card \<Rightarrow> 'a nic_st_scheme \<Rightarrow> 'a nic_st_scheme" where
  "e1k_mmio_post C s = snd (e1k_read C 0x3818 s)"

section \<open>Rings\<close>

definition buf_addr :: "u32 \<Rightarrow> nat \<Rightarrow> u64" where
  "buf_addr base i = ucast (base + of_nat (i * 2048))"

definition e1k_tx_init :: "card \<Rightarrow> 'a nic_st_scheme \<Rightarrow> 'a nic_st_scheme option" where
  "e1k_tx_init C s =
     do { (ring_addr, s) \<leftarrow> kmalloc (16 * 8 + 128) s;
          let ring = align_up_uintptr ring_addr 128;
          (bufs, s) \<leftarrow> kmalloc (8 * 2048) s;
          let s = s\<lparr>ram := memset (ram s) ring 0 (16 * 8)\<rparr>;
          let s = upd_nic (\<lambda>n. n\<lparr>tx_ring_addr := ring, tx_bufs_addr := bufs,
                    tx_bufs := replicate 8 (replicate 2048 0),
                    tx_ring := map (\<lambda>i. \<lparr>td_addr = buf_addr bufs i, td_length = 0, td_cmd = 0, td_status = 1\<rparr>) [0..<8]\<rparr>) s;
          let s = e1k_write C 0x3800 ring s;
          let s = e1k_write C 0x3804 0 s;
          let s = e1k_write C 0x3808 (8 * 16) s;
          let s = e1k_write C 0x3810 0 s;
          let s = e1k_write C 0x3818 0 s;
          let s = e1k_mmio_post C s;
          let s = upd_nic (\<lambda>n. n\<lparr>tx_tail := 0\<rparr>) s;
          let s = e1k_write C 0x400 (2 OR 8 OR push_bit 4 0x10 OR push_bit 12 0x40) s;
          Some (e1k_write C 0x410 0x0060200A s) }"

definition e1k_rctl :: u32 where
  "e1k_rctl = 4 OR 8 OR 0x10 OR 0 OR 0 OR push_bit 12 3 OR push_bit 15 1 OR push_bit 26 1"

definition e1k_rx_init :: "card \<Rightarrow> 'a nic_st_scheme \<Rightarrow> 'a nic_st_scheme option" where
  "e1k_rx_init C s =
     do { (ring_addr, s) \<leftarrow> kmalloc (16 * 32 + 128) s;
          let ring = align_up_uintptr ring_addr 128;
          (bufs, s) \<leftarrow> kmalloc (32 * 2048) s;
          let s = s\<lparr>ram := memset (ram s) ring 0 (16 * 32)\<rparr>;
          let s = upd_nic (\<lambda>n. n\<lparr>rx_ring_addr := ring, rx_bufs_addr := bufs,
                    rx_bufs := replicate 32 (replicate 2048 0),
                    rx_ring := map (\<lambda>i. \<lparr>rd_addr = buf_addr bufs i, rd_length = 0, rd_status = 0, rd_errors = 0\<rparr>) [0..<32]\<rparr>) s;
          let s = e1k_write C 0x2800 ring s;
          let s = e1k_write C 0x2804 0 s;
          let s = e1k_write C 0x2808 (32 * 16) s;
          let s = e1k_write C 0x100 e1k_rctl s;
          let s = e1k_write C 0x2810 0 s;
          let s = e1k_write C 0x2818 31 s;
          let s = e1k_write C 0x2828 0 s;
          let s = upd_nic (\<lambda>n. n\<lparr>rx_tail := 0\<rparr>) s;
          let (rxdctl, s) = e1k_read C 0x2828 s;
          let s = e1k_write C 0x2828 (rxdctl OR push_bit 25 1) s;
          let s = e1k_write C 0x100 (e1k_rctl OR 2) s;
          let s = e1k_write C 0xC4 0 s;
          let s = e1k_write C 0x2820 0 s;
          let s = e1k_write C 0x282C 0 s;
          let s = e1k_write C 0x2818 31 s;
          let s = fold (\<lambda>reg s. snd (e1k_read C reg s)) [0x8, 0x2810, 0x2818, 0x100, 0x2800, 0x2808] s;
          Some s }"

text \<open>
  One descriptor of the receive loop. \<open>eth\<close> is the Ethernet layer; it gets the received bytes.
  A frame whose length field exceeds the buffer is cut to the buffer.
\<close>

definition rx_frame :: "nic_t \<Rightarrow> u8 list option" where
  "rx_frame n =
     (let i = unat (rx_tail n); d = rx_ring n ! i in
      if rd_status d AND 2 \<noteq> 0 \<and> rd_errors d AND 0x0F = 0 \<and> 0 < rd_length d
      then Some (take (min (unat (rd_length d)) 2048) (rx_bufs n ! i)) else None)"

definition rx_release :: "nic_t \<Rightarrow> nic_t" where
  "rx_release n =
     (let i = unat (rx_tail n) in
      n\<lparr>rx_ring := (rx_ring n)[i := \<lparr>rd_addr = buf_addr (rx_bufs_addr n) i, rd_length = 0, rd_status = 0, rd_errors = 0\<rparr>],
        rx_tail := (rx_tail n + 1) mod 32\<rparr>)"

partial_function (option) e1k_drain_rx ::
    "card \<Rightarrow> (u8 list \<Rightarrow> 'a nic_st_scheme \<Rightarrow> 'a nic_st_scheme option) \<Rightarrow> 'a nic_st_scheme \<Rightarrow> 'a nic_st_scheme option" where
  "e1k_drain_rx C eth s =
     (let s0 = nic_dma C s in
      if rd_status (rx_ring (nic s0) ! unat (rx_tail (nic s0))) AND 1 = 0 then Some s0
      else do { s1 \<leftarrow> (case rx_frame (nic s0) of Some bs \<Rightarrow> eth bs s0 | None \<Rightarrow> Some s0);
                e1k_drain_rx C eth (e1k_write C 0x2818 (rx_tail (nic s1)) (upd_nic rx_release s1)) })"

text \<open>At most \<open>n\<close> looks at a transmit descriptor, the card working before each; whether DD was set.\<close>

fun wait_dd :: "card \<Rightarrow> nat \<Rightarrow> nat \<Rightarrow> 'a nic_st_scheme \<Rightarrow> bool \<times> 'a nic_st_scheme" where
  "wait_dd C cur 0 s = (False, s)"
| "wait_dd C cur (Suc n) s =
     (let s1 = nic_dma C s in
      if td_status (tx_ring (nic s1) ! cur) AND 1 \<noteq> 0 then (True, s1) else wait_dd C cur n s1)"

definition tx_load :: "nat \<Rightarrow> u8 list \<Rightarrow> nic_t \<Rightarrow> nic_t" where
  "tx_load cur frame n =
     n\<lparr>tx_bufs := (tx_bufs n)[cur := frame @ drop (length frame) (tx_bufs n ! cur)],
       tx_ring := (tx_ring n)[cur := (tx_ring n ! cur)\<lparr>td_length := of_nat (length frame), td_cmd := 0x0B, td_status := 0\<rparr>]\<rparr>"

definition e1k_send :: "card \<Rightarrow> u8 list \<Rightarrow> 'a nic_st_scheme \<Rightarrow> int \<times> 'a nic_st_scheme" where
  "e1k_send C frame s =
     (if 2048 < length frame then (- 1, s)
      else let (hw_tdt, s) = e1k_read C 0x3818 s;
               cur = unat (hw_tdt AND 7);
               (ready, s) = wait_dd C cur 2000001 s
           in if \<not> ready then (- 2, s)
              else let s = upd_nic (tx_load cur frame) s;
                       next_tdt = of_nat ((cur + 1) mod 8);
                       s = e1k_mmio_post C (e1k_write C 0x3818 next_tdt s);
                       (done, s) = wait_dd C cur 10000001 s
                   in if \<not> done then (- 3, s) else (0, upd_nic (\<lambda>n. n\<lparr>tx_tail := next_tdt\<rparr>) s))"

section \<open>Interrupts and start-up\<close>

definition e1k_irq_mask :: u32 where
  "e1k_irq_mask = 1 OR 4 OR 0x40 OR 0x80"

definition e1k_handler ::
    "card \<Rightarrow> (u8 list \<Rightarrow> 'a nic_st_scheme \<Rightarrow> 'a nic_st_scheme option) \<Rightarrow> 'a nic_st_scheme \<Rightarrow> 'a nic_st_scheme option" where
  "e1k_handler C eth s =
     (let (icr, s) = e1k_read C 0xC0 s in
      do { s \<leftarrow> (if icr AND 0x80 \<noteq> 0 then e1k_drain_rx C eth s else Some s);
           let s = (if icr AND 4 \<noteq> 0 then snd (e1k_read C 8 s) else s);
           s \<leftarrow> (if icr AND 0x40 \<noteq> 0 then e1k_drain_rx C eth s else Some s);
           Some (e1k_write C 0xD0 e1k_irq_mask s) })"

text \<open>\<open>install\<close> stands for the registration of the handler (\<^verbatim>\<open>install_irq\<close>).\<close>

definition e1k_irq_init ::
    "card \<Rightarrow> (u8 \<Rightarrow> 'a nic_st_scheme \<Rightarrow> 'a nic_st_scheme) \<Rightarrow> 'a nic_st_scheme \<Rightarrow> 'a nic_st_scheme" where
  "e1k_irq_init C install s =
     (let irq = pd_irq (nic_desc (nic s));
          s = install irq s;
          s = snd (e1k_read C 0xC0 s);
          s = e1k_write C 0xD0 e1k_irq_mask s;
          s = pic_clear_mask (bus_of C) (unat irq) s
      in snd (e1k_read C 8 s))"

definition e1k_enable :: "card \<Rightarrow> 'a nic_st_scheme \<Rightarrow> 'a nic_st_scheme" where
  "e1k_enable C s =
     (let D = bus_of C; d = nic_desc (nic s);
          (cmd, s) = pci_config_read_word D d 0x04 s;
          s = pci_config_write_word D d 0x04 (cmd OR 4 OR 1 OR 2) s;
          (_, s) = pci_config_read_word D d 0x04 s;
          (_, s) = pci_config_read_word D d 0x3C s;
          (_, s) = pci_config_read_word D d 0x3D s;
          (msi_cap, s) = pci_config_read_word D d 0x50 s
      in if msi_cap AND 1 \<noteq> 0 then pci_config_write_word D d 0x50 (msi_cap AND NOT 1) s else s)"

text \<open>The base of the registers from the first two BARs; \<open>None\<close> is the reserved type, which halts.\<close>

definition e1k_base :: "u32 \<Rightarrow> u32 \<Rightarrow> u32 option" where
  "e1k_base bar0 bar1 =
     (if bar0 AND 1 \<noteq> 0 then Some (bar0 AND NOT 3)
      else if drop_bit 1 bar0 AND 3 = 0 then Some (ucast (ucast bar0 AND NOT (0xF :: u64)))
      else if drop_bit 1 bar0 AND 3 = 2
      then Some (ucast (push_bit 32 (ucast bar1) OR (ucast bar0 AND NOT (0xF :: u64))))
      else None)"

definition e1k_reset :: "card \<Rightarrow> 'a nic_st_scheme \<Rightarrow> 'a nic_st_scheme" where
  "e1k_reset C s =
     (let s = e1k_write C 0 (push_bit 26 1) s;
          s = snd (e1k_poll C 0 (push_bit 26 1) False 1000001 s);
          (ctrl, s) = e1k_read C 0 s;
          s = e1k_write C 0 (ctrl OR 0x40 OR 0x800 OR 0x1000 OR 1) s
      in snd (e1k_read C 8 s))"

definition e1k_setup_mac :: "card \<Rightarrow> 'a nic_st_scheme \<Rightarrow> 'a nic_st_scheme" where
  "e1k_setup_mac C s =
     (let (has_eeprom, s) = e1k_detect_eeprom C s in
      if has_eeprom then e1k_read_mac C s
      else let (ral, s) = e1k_read C 0x5400 s; (rah, s) = e1k_read C 0x5404 s
           in upd_nic (\<lambda>n. n\<lparr>nic_mac := [ucast ral, ucast (drop_bit 8 ral), ucast (drop_bit 16 ral),
                 ucast (drop_bit 24 ral), ucast rah, ucast (drop_bit 8 rah)] @ drop 6 (nic_mac n)\<rparr>) s)"

definition e1k_init ::
    "card \<Rightarrow> (u8 \<Rightarrow> 'a nic_st_scheme \<Rightarrow> 'a nic_st_scheme) \<Rightarrow> pci_device_desc_t \<Rightarrow> 'a nic_st_scheme \<Rightarrow>
      'a nic_st_scheme option" where
  "e1k_init C install d s =
     do { let s = upd_nic (\<lambda>n. n\<lparr>nic_desc := d, nic_mac := replicate 8 0\<rparr>) s;
          let s = e1k_enable C s;
          base \<leftarrow> e1k_base (pd_bar d ! 0) (pd_bar d ! 1);
          let s = upd_nic (\<lambda>n. n\<lparr>nic_desc := (nic_desc n)\<lparr>pd_io_base := base\<rparr>\<rparr>) s;
          let s = e1k_program_mac C (e1k_setup_mac C (e1k_reset C s));
          s \<leftarrow> e1k_tx_init C s;
          s \<leftarrow> e1k_rx_init C s;
          Some (e1k_irq_init C install s) }"

definition pci_handle_device ::
    "card \<Rightarrow> (u8 \<Rightarrow> 'a nic_st_scheme \<Rightarrow> 'a nic_st_scheme) \<Rightarrow> pci_device_desc_t \<Rightarrow> 'a nic_st_scheme \<Rightarrow>
      'a nic_st_scheme option" where
  "pci_handle_device C install d s =
     (if pd_vendor d = 0x8086 \<and> pd_device_id d = 0x100E then e1k_init C install (d\<lparr>pd_enabled := True\<rparr>) s else Some s)"

definition pci_probe ::
    "card \<Rightarrow> (u8 \<Rightarrow> 'a nic_st_scheme \<Rightarrow> 'a nic_st_scheme) \<Rightarrow> nat \<times> nat \<times> nat \<Rightarrow> 'a nic_st_scheme \<Rightarrow>
      'a nic_st_scheme option" where
  "pci_probe C install = (\<lambda>(b, d, f) s.
     let D = bus_of C; bus = of_nat b; dev = of_nat d; func = of_nat f;
         (vendor, s) = pci_config_read_word_raw D bus dev func 0x00 s
     in if vendor = 0xFFFF then Some s
        else let (device_id, s) = pci_config_read_word_raw D bus dev func 0x02 s;
                 (_, s) = pci_config_read_raw D bus dev func 0x08 s;
                 (_, s) = pci_config_read_raw D bus dev func 0x08 s;
                 desc = \<lparr>pd_vendor = vendor, pd_device_id = device_id, pd_bus = bus, pd_device = dev,
                         pd_function = func, pd_bar = replicate 6 0, pd_io_base = 0, pd_irq = 0, pd_enabled = False\<rparr>;
                 (bars, s) = pci_read_bars D desc [0x10, 0x14, 0x18, 0x1c, 0x20, 0x24] s;
                 (io_base, desc) = pci_detect_iobase (desc\<lparr>pd_bar := bars\<rparr>);
                 (irq, s) = pci_detect_irq D desc s
             in pci_handle_device C install (desc\<lparr>pd_io_base := io_base, pd_irq := irq\<rparr>) s)"

definition pci_enumerate ::
    "card \<Rightarrow> (u8 \<Rightarrow> 'a nic_st_scheme \<Rightarrow> 'a nic_st_scheme) \<Rightarrow> 'a nic_st_scheme \<Rightarrow> 'a nic_st_scheme option" where
  "pci_enumerate C install s =
     foldM (pci_probe C install) (List.product [0..<255] (List.product [0..<32] [0..<8])) s"

section \<open>Draining the receive ring\<close>

text \<open>The card leaves the descriptors and buffers alone: nothing arrives while the driver drains.\<close>

definition quiet :: "card \<Rightarrow> bool" where
  "quiet C \<longleftrightarrow> (\<forall>n h. fst (dma C n h) = n)"

text \<open>A descriptor handed over by the card with a complete frame, free of errors.\<close>

definition slot_holds :: "nic_t \<Rightarrow> nat \<Rightarrow> u8 list \<Rightarrow> bool" where
  "slot_holds n i f \<longleftrightarrow> rd_status (rx_ring n ! i) AND 1 \<noteq> 0 \<and> rd_status (rx_ring n ! i) AND 2 \<noteq> 0 \<and>
     rd_errors (rx_ring n ! i) AND 0x0F = 0 \<and> 0 < length f \<and> length f \<le> 2048 \<and>
     rd_length (rx_ring n ! i) = of_nat (length f) \<and> take (length f) (rx_bufs n ! i) = f"

text \<open>The frames \<open>fs\<close> wait from the tail on, and the descriptor after them is not ready.\<close>

definition rx_ready :: "nic_t \<Rightarrow> u8 list list \<Rightarrow> bool" where
  "rx_ready n fs \<longleftrightarrow> length (rx_ring n) = 32 \<and> unat (rx_tail n) < 32 \<and> length fs \<le> 32 \<and>
     (\<forall>i < length fs. slot_holds n ((unat (rx_tail n) + i) mod 32) (fs ! i)) \<and>
     (length fs < 32 \<longrightarrow> rd_status (rx_ring n ! ((unat (rx_tail n) + length fs) mod 32)) AND 1 = 0)"

lemma e1k_write_hw: "\<exists>h. e1k_write C reg v s = s\<lparr>hw := h\<rparr>"
  by (auto simp: e1k_write_def outl_def Let_def)

lemma nic_dma_quiet: "quiet C \<Longrightarrow> nic_dma C s = s\<lparr>hw := snd (dma C (nic s) (hw s))\<rparr>"
  by (simp add: nic_dma_def quiet_def)

lemma mod32_diff: "a < 32 \<Longrightarrow> 0 < k \<Longrightarrow> k < 32 \<Longrightarrow> (a + k) mod 32 \<noteq> (a :: nat)"
  by (cases "a + k < 32") (simp_all add: le_mod_geq not_less)

lemma rx_tail_next: "unat (rx_tail n) < 32 \<Longrightarrow> unat (rx_tail (rx_release n)) = (unat (rx_tail n) + 1) mod 32"
  by (simp add: rx_release_def Let_def unat_mod unat_word_ariths(1))

lemma rx_ready_step:
  assumes "rx_ready n (f # fs)"
  shows "rx_ready (rx_release n) fs"
proof -
  let ?t = "unat (rx_tail n)" and ?t' = "unat (rx_tail (rx_release n))"
  have r: "length (rx_ring n) = 32" "?t < 32" "length fs < 32"
      "\<And>i. i < Suc (length fs) \<Longrightarrow> slot_holds n ((?t + i) mod 32) ((f # fs) ! i)"
      "Suc (length fs) < 32 \<Longrightarrow> rd_status (rx_ring n ! ((?t + Suc (length fs)) mod 32)) AND 1 = 0"
    using assms by (auto simp: rx_ready_def)
  have t: "?t' = (?t + 1) mod 32" by (rule rx_tail_next [OF r(2)])
  have i: "(?t' + i) mod 32 = (?t + Suc i) mod 32" for i unfolding t mod_add_left_eq by simp
  have ring: "rx_ring (rx_release n) ! j = (if j = ?t then \<lparr>rd_addr = buf_addr (rx_bufs_addr n) ?t, rd_length = 0,
      rd_status = 0, rd_errors = 0\<rparr> else rx_ring n ! j)" "rx_bufs (rx_release n) = rx_bufs n" if "j < 32" for j
    using r(1,2) that by (auto simp: rx_release_def Let_def nth_list_update)
  have "slot_holds (rx_release n) ((?t' + k) mod 32) (fs ! k)" if "k < length fs" for k
    using r(4) [of "Suc k"] ring [of "(?t + Suc k) mod 32"] mod32_diff [OF r(2), of "Suc k"] that r(3)
    unfolding i by (simp add: slot_holds_def)
  moreover have "rd_status (rx_ring (rx_release n) ! ((?t' + length fs) mod 32)) AND 1 = 0"
  proof (cases "Suc (length fs) < 32")
    case True
    then show ?thesis
      using r(5) ring(1) [of "(?t + Suc (length fs)) mod 32"] mod32_diff [OF r(2), of "Suc (length fs)"] unfolding i by simp
  next
    case False
    then have "Suc (length fs) = 32" using r(3) by simp
    then show ?thesis using r(2) ring(1) [of ?t] unfolding i by simp
  qed
  moreover have "length (rx_ring (rx_release n)) = 32" using r(1) by (simp add: rx_release_def Let_def)
  ultimately show ?thesis using r(3) by (simp add: rx_ready_def t)
qed

lemma rx_frame_ready: "rx_ready n (f # fs) \<Longrightarrow> rx_frame n = Some f"
proof -
  assume "rx_ready n (f # fs)"
  then have "slot_holds n (unat (rx_tail n)) f" by (auto simp: rx_ready_def dest: spec [of _ 0])
  moreover have "unat (of_nat k :: u16) = k" if "k \<le> 2048" for k
    using that by (simp only: unsigned_of_nat) (simp add: take_bit_eq_mod)
  ultimately show ?thesis
    by (auto simp: rx_frame_def slot_holds_def Let_def word_less_nat_alt min_absorb1)
qed

lemma drain_frames:
  fixes s :: "'a nic_st_scheme"
  assumes q: "quiet C"
    and step: "\<And>f fs s. Q (f # fs) s \<Longrightarrow> \<exists>s'. eth f s = Some s' \<and> nic s' = nic s \<and> Q fs s'"
    and stable: "\<And>fs s n h. Q fs s \<Longrightarrow> Q fs (s\<lparr>nic := n, hw := h\<rparr>)"
  shows "rx_ready (nic s) fs \<Longrightarrow> Q fs s \<Longrightarrow>
    \<exists>s'. e1k_drain_rx C eth s = Some s' \<and> Q [] s' \<and> rx_ready (nic s') [] \<and>
      unat (rx_tail (nic s')) = (unat (rx_tail (nic s)) + length fs) mod 32"
proof (induction fs arbitrary: s)
  case Nil
  then have "unat (rx_tail (nic s)) mod 32 = unat (rx_tail (nic s))" by (simp add: rx_ready_def)
  with Nil have "e1k_drain_rx C eth s = Some (s\<lparr>nic := nic s, hw := snd (dma C (nic s) (hw s))\<rparr>)"
    by (subst e1k_drain_rx.simps) (simp add: Let_def nic_dma_quiet [OF q] rx_ready_def)
  then show ?case using Nil stable [OF Nil(2), where n = "nic s" and h = "snd (dma C (nic s) (hw s))"] by (auto simp: rx_ready_def)
next
  case (Cons f fs)
  define s0 where "s0 = s\<lparr>nic := nic s, hw := snd (dma C (nic s) (hw s))\<rparr>"
  have s0: "nic_dma C s = s0" "nic s0 = nic s" by (simp_all add: s0_def nic_dma_quiet [OF q])
  have "slot_holds (nic s) (unat (rx_tail (nic s))) f"
    using Cons.prems(1) by (auto simp: rx_ready_def dest: spec [of _ 0])
  then have dd: "rd_status (rx_ring (nic s0) ! unat (rx_tail (nic s0))) AND 1 \<noteq> 0" by (simp add: s0 slot_holds_def)
  have "Q (f # fs) s0" unfolding s0_def by (rule stable [OF Cons.prems(2)])
  from step [OF this] obtain s1 where s1: "eth f s0 = Some s1" "nic s1 = nic s" "Q fs s1"
    unfolding s0(2) by blast
  obtain h where h: "e1k_write C 0x2818 (rx_tail (nic s1)) (upd_nic rx_release s1) = s1\<lparr>nic := rx_release (nic s), hw := h\<rparr>"
    using e1k_write_hw [of C "0x2818" "rx_tail (nic s1)" "upd_nic rx_release s1"] s1(2) by auto
  let ?s2 = "s1\<lparr>nic := rx_release (nic s), hw := h\<rparr>"
  have "e1k_drain_rx C eth s = e1k_drain_rx C eth ?s2"
    using dd s1(1) rx_frame_ready [OF Cons.prems(1)] h by (subst e1k_drain_rx.simps) (simp add: s0)
  moreover have "rx_ready (nic ?s2) fs" using rx_ready_step [OF Cons.prems(1)] by simp
  moreover have "unat (rx_tail (nic ?s2)) = (unat (rx_tail (nic s)) + 1) mod 32"
    using rx_tail_next Cons.prems(1) by (simp add: rx_ready_def)
  ultimately show ?case
    using Cons.IH [of ?s2] stable [OF s1(3)] by (auto simp: mod_add_left_eq)
qed

end
