(* ===== verification/Handles.thy ===== *)
theory Handles
  imports Prelude
begin

text \<open>
  Reference-counted handles. Sockets, open files and the cpuinfo device each keep a table whose
  entries count the descriptors that share them; \<^verbatim>\<open>dup\<close> takes a reference, \<^verbatim>\<open>close\<close> drops one and the
  last one frees the entry. The locale is the contract the descriptor layer relies on: it passes
  handles on at \<^verbatim>\<open>fork\<close> and \<^verbatim>\<open>dup2\<close> and gives them back at \<^verbatim>\<open>close\<close> and \<^verbatim>\<open>exit\<close>.
\<close>

lemma count_list_replicate_self: "count_list (replicate k x) x = k"
  by (induction k) auto

locale refcounted =
  fixes inv :: "'s \<Rightarrow> bool" and refs :: "'s \<Rightarrow> int \<Rightarrow> nat"
    and dup :: "int \<Rightarrow> 's \<Rightarrow> int \<times> 's" and close :: "int \<Rightarrow> 's \<Rightarrow> int \<times> 's"
  assumes dup_live: "inv s \<Longrightarrow> 0 < refs s h \<Longrightarrow>
      0 \<le> fst (dup h s) \<and> inv (snd (dup h s)) \<and> refs (snd (dup h s)) = (refs s)(h := refs s h + 1)"
    and close_live: "inv s \<Longrightarrow> 0 < refs s h \<Longrightarrow>
      fst (close h s) = 0 \<and> inv (snd (close h s)) \<and> refs (snd (close h s)) = (refs s)(h := refs s h - 1)"
    and dup_dead: "inv s \<Longrightarrow> refs s h = 0 \<Longrightarrow> dup h s = (- 1, s)"
    and close_dead: "inv s \<Longrightarrow> refs s h = 0 \<Longrightarrow> close h s = (- 1, s)"
begin

definition dups :: "int list \<Rightarrow> 's \<Rightarrow> 's" where
  "dups hs s = fold (\<lambda>h s. snd (dup h s)) hs s"

definition closes :: "int list \<Rightarrow> 's \<Rightarrow> 's" where
  "closes hs s = fold (\<lambda>h s. snd (close h s)) hs s"

lemma dup_step:
  "inv s \<Longrightarrow> inv (snd (dup h s)) \<and> refs (snd (dup h s)) = (if 0 < refs s h then (refs s)(h := refs s h + 1) else refs s)"
  using dup_live [of s h] dup_dead [of s h] by (cases "0 < refs s h") auto

lemma close_step:
  "inv s \<Longrightarrow> inv (snd (close h s)) \<and> refs (snd (close h s)) = (refs s)(h := refs s h - 1)"
  using close_live [of s h] close_dead [of s h] by (cases "0 < refs s h") auto

lemma dups_refs:
  "inv s \<Longrightarrow> inv (dups hs s) \<and> refs (dups hs s) h = refs s h + (if 0 < refs s h then count_list hs h else 0)"
proof (induction hs arbitrary: s)
  case (Cons g hs)
  have "inv (snd (dup g s))"
    "refs (snd (dup g s)) h = (if h = g \<and> 0 < refs s g then refs s h + 1 else refs s h)"
    using dup_step [OF Cons.prems, of g] by auto
  then show ?case using Cons.IH [of "snd (dup g s)"] by (auto simp: dups_def)
qed (simp add: dups_def)

lemma closes_refs: "inv s \<Longrightarrow> inv (closes hs s) \<and> refs (closes hs s) h = refs s h - count_list hs h"
proof (induction hs arbitrary: s)
  case (Cons g hs)
  have "inv (snd (close g s))" "refs (snd (close g s)) h = (if h = g then refs s h - 1 else refs s h)"
    using close_step [OF Cons.prems, of g] by auto
  then show ?case using Cons.IH [of "snd (close g s)"] by (auto simp: closes_def)
qed (simp add: closes_def)

text \<open>Passing a list of handles on and giving all of them back changes no count.\<close>

lemma share_and_release: "inv s \<Longrightarrow> \<forall>h \<in> set hs. 0 < refs s h \<Longrightarrow> refs (closes hs (dups hs s)) = refs s"
proof
  fix h assume s: "inv s" and live: "\<forall>h \<in> set hs. 0 < refs s h"
  have "count_list hs h = 0" if "\<not> 0 < refs s h"
    using that live by (auto simp: count_list_0_iff)
  then show "refs (closes hs (dups hs s)) h = refs s h"
    using dups_refs [OF s, of hs h] closes_refs [of "dups hs s" hs h] by auto
qed

text \<open>An entry shared \<open>k\<close> times is freed by exactly the \<open>k\<close>-th close.\<close>

lemma freed_by_last: "inv s \<Longrightarrow> refs (closes (replicate k h) s) h = 0 \<longleftrightarrow> refs s h \<le> k"
  using closes_refs [of s "replicate k h" h] by (simp add: count_list_replicate_self)

end

text \<open>
  The weaker contract of the descriptor layer as a whole: a handle that counts no references, such as a terminal, is
  taken and given back without effect. Counts below \<open>lim\<close> do not overflow.
\<close>

locale shared_handles =
  fixes inv :: "'s \<Rightarrow> bool" and refs :: "'s \<Rightarrow> int \<Rightarrow> nat" and acquire :: "int \<Rightarrow> 's \<Rightarrow> 's" and release :: "int \<Rightarrow> 's \<Rightarrow> 's"
    and lim :: nat
  assumes acquire_step: "inv s \<Longrightarrow> refs s h < lim \<Longrightarrow> inv (acquire h s) \<and>
      refs (acquire h s) = (if 0 < refs s h then (refs s)(h := refs s h + 1) else refs s)"
    and release_step: "inv s \<Longrightarrow> inv (release h s) \<and> refs (release h s) = (refs s)(h := refs s h - 1)"
begin

lemma acquire_all:
  "inv s \<Longrightarrow> \<forall>h. refs s h + length hs \<le> lim \<Longrightarrow> inv (fold acquire hs s) \<and>
    refs (fold acquire hs s) h = refs s h + (if 0 < refs s h then count_list hs h else 0)"
proof (induction hs arbitrary: s)
  case (Cons g hs)
  have a: "inv (acquire g s)" "refs (acquire g s) = (if 0 < refs s g then (refs s)(g := refs s g + 1) else refs s)"
    using acquire_step [OF Cons.prems(1), of g] Cons.prems(2) [rule_format, of g] by auto
  have "refs (acquire g s) k + length hs \<le> lim" for k
    unfolding a(2) using Cons.prems(2) [rule_format, of k] by auto
  then show ?case using Cons.IH [OF a(1)] a(2) by auto
qed simp

lemma release_all: "inv s \<Longrightarrow> inv (fold release hs s) \<and> refs (fold release hs s) h = refs s h - count_list hs h"
proof (induction hs arbitrary: s)
  case (Cons g hs)
  have a: "inv (release g s)" "refs (release g s) = (refs s)(g := refs s g - 1)" using release_step [OF Cons.prems, of g] by auto
  then show ?case using Cons.IH [OF a(1)] by auto
qed simp

lemma acquire_and_release:
  assumes "inv s" "\<forall>h. refs s h + length hs \<le> lim"
  shows "inv (fold release hs (fold acquire hs s))" "refs (fold release hs (fold acquire hs s)) = refs s"
proof -
  have a: "inv (fold acquire hs s)" using acquire_all [OF assms] by blast
  then show "inv (fold release hs (fold acquire hs s))" using release_all by blast
  show "refs (fold release hs (fold acquire hs s)) = refs s"
  proof
    fix h
    have "refs (fold release hs (fold acquire hs s)) h = refs (fold acquire hs s) h - count_list hs h"
      using release_all [OF a] by blast
    also have "\<dots> = refs s h" using acquire_all [OF assms, of h] by auto
    finally show "refs (fold release hs (fold acquire hs s)) h = refs s h" .
  qed
qed

end

sublocale refcounted \<subseteq> shared: shared_handles inv refs "\<lambda>h s. snd (dup h s)" "\<lambda>h s. snd (close h s)" lim for lim
  by unfold_locales (use dup_step close_step in auto)

end
