(* ===== verification/Net.thy ===== *)
theory Net
  imports E1k Handles
begin

text \<open>
  The protocol stack of \<^verbatim>\<open>stage2/net\<close>: Ethernet dispatch, ARP with its one-entry cache, IPv4, ICMP
  echo, UDP with user-space queues, and sockets. Packets are byte lists laid out as the packed
  structures; the temporary buffers a function allocates and frees are allocated and freed in the
  heap model as well. UDP servers are heap objects in a map from addresses. The reference count of a socket,
  an \<^verbatim>\<open>int\<close> in the source, is an unbounded integer: it counts descriptors, 16 to a process.

  A result \<open>None\<close> means that control does not come back as a return: the machine halts, a loop does
  not end, or the code writes outside the object it works on.
\<close>

section \<open>State\<close>

record arp_t =
  arp_cached_ip :: "u8 list"
  arp_cached_mac :: "u8 list"
  arp_cache_valid :: bool

record ip_t =
  ipv4_local_ip :: "u8 list"
  ipv4_local_ip_valid :: bool
  ipv4_netmask :: "u8 list"
  ipv4_gateway :: "u8 list"
  ipv4_gateway_valid :: bool

record udp_dgram_t =
  dg_len :: u16
  dg_src_ip :: "u8 list"
  dg_src_port :: u16
  dg_payload :: "u8 list"

record udp_server_t =
  us_port :: u16
  us_queue :: "udp_dgram_t list"
  us_head :: nat
  us_count :: nat

record socket_t =
  sk_used :: bool
  sk_refs :: int
  sk_domain :: int
  sk_type :: int
  sk_protocol :: int
  sk_local_port :: u16
  sk_bound :: bool
  sk_is_raw :: bool
  sk_icmp_id :: u16
  sk_icmp_seq :: u16
  sk_has_peer :: bool
  sk_peer_ip :: "u8 list"
  sk_peer_port :: u16
  sk_inbuf :: "u8 list"
  sk_in_len :: nat
  sk_in_pos :: nat
  sk_outbuf :: "u8 list"
  sk_out_len :: nat

record net_st = nic_st +
  arp :: arp_t
  ip :: ip_t
  udp_bindings :: "(u16 \<times> u32) list"
  udp_servers :: "u32 list"
  udp_mem :: "u32 \<Rightarrow> udp_server_t"
  udp_tx_identification :: u16
  sockets :: "socket_t list"
  sockets_base :: u32

text \<open>
  What the stack relies on: the card, the in-kernel UDP handlers by their address, what interrupts do
  while the processor waits in \<^verbatim>\<open>hlt\<close>, and what other tasks do while one is blocked.
\<close>

record 's env =
  env_card :: card
  env_call :: "u32 \<Rightarrow> u8 list \<Rightarrow> u16 \<Rightarrow> u8 list \<Rightarrow> u16 \<Rightarrow> u8 list \<Rightarrow> 's \<Rightarrow> 's option"
  env_irq :: "'s \<Rightarrow> 's option"
  env_others :: "'s \<Rightarrow> 's option"
  env_esp :: u32

abbreviation upd_server :: "u32 \<Rightarrow> (udp_server_t \<Rightarrow> udp_server_t) \<Rightarrow> 'a net_st_scheme \<Rightarrow> 'a net_st_scheme" where
  "upd_server p f s \<equiv> s\<lparr>udp_mem := (udp_mem s)(p := f (udp_mem s p))\<rparr>"

abbreviation upd_sock :: "nat \<Rightarrow> (socket_t \<Rightarrow> socket_t) \<Rightarrow> 'a net_st_scheme \<Rightarrow> 'a net_st_scheme" where
  "upd_sock i f s \<equiv> s\<lparr>sockets := (sockets s)[i := f (sockets s ! i)]\<rparr>"

section \<open>IPv4 configuration\<close>

definition ipv4_set_address :: "u8 list \<Rightarrow> 'a net_st_scheme \<Rightarrow> 'a net_st_scheme" where
  "ipv4_set_address a s = s\<lparr>ip := (ip s)\<lparr>ipv4_local_ip := take 4 a, ipv4_local_ip_valid := True\<rparr>\<rparr>"

definition ipv4_set_netmask :: "u8 list \<Rightarrow> 'a net_st_scheme \<Rightarrow> 'a net_st_scheme" where
  "ipv4_set_netmask m s = s\<lparr>ip := (ip s)\<lparr>ipv4_netmask := take 4 m\<rparr>\<rparr>"

definition ipv4_set_gateway :: "u8 list \<Rightarrow> 'a net_st_scheme \<Rightarrow> 'a net_st_scheme" where
  "ipv4_set_gateway g s = s\<lparr>ip := (ip s)\<lparr>ipv4_gateway := take 4 g, ipv4_gateway_valid := True\<rparr>\<rparr>"

definition ipv4_get_address :: "'a net_st_scheme \<Rightarrow> u8 list option" where
  "ipv4_get_address s = (if ipv4_local_ip_valid (ip s) then Some (ipv4_local_ip (ip s)) else None)"

definition ipv4_get_gateway :: "'a net_st_scheme \<Rightarrow> u8 list option" where
  "ipv4_get_gateway s = (if ipv4_gateway_valid (ip s) then Some (ipv4_gateway (ip s)) else None)"

definition ip_equal :: "u8 list \<Rightarrow> u8 list \<Rightarrow> bool" where
  "ip_equal lhs rhs \<longleftrightarrow> list_all (\<lambda>i. lhs ! i = rhs ! i) [0..<4]"

definition ipv4_is_local_address :: "u8 list \<Rightarrow> 'a net_st_scheme \<Rightarrow> bool" where
  "ipv4_is_local_address a s \<longleftrightarrow> ipv4_local_ip_valid (ip s) \<and> ip_equal (ipv4_local_ip (ip s)) a"

definition ipv4_on_local_network :: "u8 list \<Rightarrow> 'a net_st_scheme \<Rightarrow> bool" where
  "ipv4_on_local_network a s \<longleftrightarrow> ipv4_local_ip_valid (ip s) \<and>
     list_all (\<lambda>i. ipv4_local_ip (ip s) ! i AND ipv4_netmask (ip s) ! i = a ! i AND ipv4_netmask (ip s) ! i) [0..<4]"

section \<open>Sending IPv4\<close>

definition eth_header :: "u8 list \<Rightarrow> u8 list \<Rightarrow> u16 \<Rightarrow> u8 list" where
  "eth_header dst src ethertype = dst @ src @ bytes16 (htons ethertype)"

definition ipv4_header :: "nat \<Rightarrow> u16 \<Rightarrow> u8 \<Rightarrow> u8 list \<Rightarrow> u8 list \<Rightarrow> u16 \<Rightarrow> u8 list" where
  "ipv4_header payload_len ident protocol src dst cksum =
     [0x45, 0] @ bytes16 (htons_wide (of_nat (20 + payload_len))) @ bytes16 (htons ident) @
     bytes16 (htons 0x4000) @ [64, protocol] @ bytes16 cksum @ src @ dst"

definition pad60 :: "u8 list \<Rightarrow> u8 list" where
  "pad60 bs = bs @ replicate (60 - length bs) 0"

definition ipv4_frame :: "u8 list \<Rightarrow> u8 list \<Rightarrow> u8 list \<Rightarrow> u8 list \<Rightarrow> u8 \<Rightarrow> u16 \<Rightarrow> u8 list \<Rightarrow> u8 list" where
  "ipv4_frame mac src dst next_hop protocol ident payload =
     (let hdr0 = ipv4_header (length payload) ident protocol src dst 0;
          hdr = ipv4_header (length payload) ident protocol src dst (htons (ipv4_checksum hdr0))
      in pad60 (eth_header next_hop mac 0x0800 @ hdr @ payload))"

definition ipv4_send_packet ::
    "card \<Rightarrow> u8 list \<Rightarrow> u8 list \<Rightarrow> u8 list \<Rightarrow> u8 \<Rightarrow> u16 \<Rightarrow> u8 list \<Rightarrow> 'a net_st_scheme \<Rightarrow>
      (int \<times> 'a net_st_scheme) option" where
  "ipv4_send_packet C src dst next_hop protocol ident payload s =
     (let frame = ipv4_frame (e1k_get_mac s) src dst next_hop protocol ident payload in
      do { (p, s) \<leftarrow> kmalloc (of_nat (length frame)) s;
           let (result, s) = e1k_send C frame s;
           s \<leftarrow> kfree p s;
           Some (result, s) })"

section \<open>ARP\<close>

definition arp_update_cache :: "u8 list \<Rightarrow> u8 list \<Rightarrow> 'a net_st_scheme \<Rightarrow> 'a net_st_scheme" where
  "arp_update_cache sender_ip sender_mac s =
     s\<lparr>arp := \<lparr>arp_cached_ip = take 4 sender_ip, arp_cached_mac = take 6 sender_mac, arp_cache_valid = True\<rparr>\<rparr>"

definition arp_packet :: "u16 \<Rightarrow> u8 list \<Rightarrow> u8 list \<Rightarrow> u8 list \<Rightarrow> u8 list \<Rightarrow> u8 list" where
  "arp_packet opcode sender_mac sender_ip target_mac target_ip =
     bytes16 (htons 1) @ bytes16 (htons 0x0800) @ [6, 4] @ bytes16 (htons opcode) @
     sender_mac @ sender_ip @ target_mac @ target_ip"

definition arp_send_frame :: "card \<Rightarrow> u8 list \<Rightarrow> 'a net_st_scheme \<Rightarrow> (int \<times> 'a net_st_scheme) option" where
  "arp_send_frame C frame s =
     do { (p, s) \<leftarrow> kmalloc (of_nat (length frame)) s;
          let (result, s) = e1k_send C frame s;
          s \<leftarrow> kfree p s;
          Some (result, s) }"

definition arp_send_request :: "card \<Rightarrow> u8 list \<Rightarrow> u8 list \<Rightarrow> 'a net_st_scheme \<Rightarrow> 'a net_st_scheme option" where
  "arp_send_request C src_ip target_ip s =
     do { (_, s) \<leftarrow> arp_send_frame C (pad60 (eth_header (replicate 6 0xFF) (e1k_get_mac s) 0x0806 @
            arp_packet 1 (e1k_get_mac s) src_ip (replicate 6 0) target_ip)) s;
          Some s }"

definition arp_send_reply ::
    "card \<Rightarrow> u8 list \<Rightarrow> u8 list \<Rightarrow> u8 list \<Rightarrow> 'a net_st_scheme \<Rightarrow> (int \<times> 'a net_st_scheme) option" where
  "arp_send_reply C target_mac sender_ip target_ip s =
     arp_send_frame C (pad60 (eth_header target_mac (e1k_get_mac s) 0x0806 @
       arp_packet 2 (e1k_get_mac s) sender_ip target_mac target_ip)) s"

definition arp_process_packet :: "card \<Rightarrow> u8 list \<Rightarrow> 'a net_st_scheme \<Rightarrow> 'a net_st_scheme option" where
  "arp_process_packet C data s =
     (if length data < 28 then Some s
      else let opcode = htons (get16 data 6);
               sender_mac = slice data 8 6; sender_ip = slice data 14 4; target_ip = slice data 24 4;
               s = arp_update_cache sender_ip sender_mac s
           in if opcode = 1 \<and> ipv4_is_local_address target_ip s
              then do { (_, s) \<leftarrow> arp_send_reply C sender_mac target_ip sender_ip s; Some s }
              else Some s)"

definition arp_try_get_mac :: "u8 list \<Rightarrow> 'a net_st_scheme \<Rightarrow> u8 list option" where
  "arp_try_get_mac target_ip s =
     (if \<not> arp_cache_valid (arp s) \<or> \<not> ip_equal target_ip (arp_cached_ip (arp s)) then None
      else Some (arp_cached_mac (arp s)))"

section \<open>Receiving ICMP\<close>

definition sock_addr :: "'a net_st_scheme \<Rightarrow> nat \<Rightarrow> u32" where
  "sock_addr s i = sockets_base s + of_nat (i * 3572)"

definition socket_icmp_rx :: "u8 list \<Rightarrow> u8 list \<Rightarrow> 'a net_st_scheme \<Rightarrow> (int \<times> 'a net_st_scheme) option" where
  "socket_icmp_rx src_ip icmp_data s =
     (if length icmp_data < 8 then Some (- 1, s)
      else if icmp_data ! 0 \<noteq> 0 \<or> icmp_data ! 1 \<noteq> 0 then Some (- 1, s)
      else let identifier = htons (get16 icmp_data 4) in
        case filter (\<lambda>i. sk_used (sockets s ! i) \<and> sk_is_raw (sockets s ! i) \<and>
                sk_icmp_id (sockets s ! i) = identifier) [0..<16] of
          [] \<Rightarrow> Some (- 1, s)
        | i # _ \<Rightarrow>
            let n = (if length icmp_data < 1472 then length icmp_data else 1472);
                s = upd_sock i (\<lambda>k. k\<lparr>sk_inbuf := take n icmp_data @ drop n (sk_inbuf k), sk_in_len := n,
                      sk_in_pos := 0, sk_peer_ip := take 4 src_ip, sk_has_peer := True\<rparr>) s
            in do { s \<leftarrow> scheduler_wake (sock_addr s i) s; Some (0, s) })"

definition icmp_process_packet :: "u8 list \<Rightarrow> u8 list \<Rightarrow> 'a net_st_scheme \<Rightarrow> 'a net_st_scheme option" where
  "icmp_process_packet src_ip icmp_data s =
     (if length icmp_data < 8 then Some s
      else if icmp_data ! 0 = 0 \<and> icmp_data ! 1 = 0
      then do { (_, s) \<leftarrow> socket_icmp_rx src_ip icmp_data s; Some s }
      else Some s)"

section \<open>Receiving UDP\<close>

definition udp_find_handler :: "u16 \<Rightarrow> 'a net_st_scheme \<Rightarrow> u32" where
  "udp_find_handler port s =
     (case filter (\<lambda>(p, h). h \<noteq> 0 \<and> p = port) (udp_bindings s) of [] \<Rightarrow> 0 | (_, h) # _ \<Rightarrow> h)"

definition udp_find_server :: "u16 \<Rightarrow> 'a net_st_scheme \<Rightarrow> u32" where
  "udp_find_server port s =
     (case filter (\<lambda>p. p \<noteq> 0 \<and> us_port (udp_mem s p) = port) (udp_servers s) of [] \<Rightarrow> 0 | p # _ \<Rightarrow> p)"

definition enqueue_dgram :: "u8 list \<Rightarrow> u16 \<Rightarrow> u8 list \<Rightarrow> udp_server_t \<Rightarrow> udp_server_t" where
  "enqueue_dgram src_ip src_port payload v =
     (let slot = (us_head v + us_count v) mod 16; d = us_queue v ! slot in
      v\<lparr>us_queue := (us_queue v)[slot := \<lparr>dg_len = of_nat (length payload), dg_src_ip = take 4 src_ip,
          dg_src_port = src_port, dg_payload = payload @ drop (length payload) (dg_payload d)\<rparr>],
        us_count := us_count v + 1\<rparr>)"

text \<open>The copy is not limited to the slot: a longer payload would be written past it.\<close>

definition udp_server_enqueue ::
    "u32 \<Rightarrow> u8 list \<Rightarrow> u16 \<Rightarrow> u8 list \<Rightarrow> 'a net_st_scheme \<Rightarrow> 'a net_st_scheme option" where
  "udp_server_enqueue p src_ip src_port payload s =
     (if 16 \<le> us_count (udp_mem s p) then Some s
      else if 1472 < length payload then None
      else scheduler_wake (ucast (us_port (udp_mem s p))) (upd_server p (enqueue_dgram src_ip src_port payload) s))"

definition udp_process_packet ::
    "('a net_st_scheme) env \<Rightarrow> u8 list \<Rightarrow> u8 list \<Rightarrow> u8 list \<Rightarrow> 'a net_st_scheme \<Rightarrow> 'a net_st_scheme option" where
  "udp_process_packet E src_ip dst_ip udp_data s =
     (if length udp_data < 8 then Some s
      else let src_port = htons (get16 udp_data 0); dst_port = htons (get16 udp_data 2);
               dgram_len = unat (htons (get16 udp_data 4))
           in if dgram_len < 8 \<or> length udp_data < dgram_len then Some s
              else if get16 udp_data 6 \<noteq> 0 \<and> \<not> udp_checksum_valid src_ip dst_ip (take dgram_len udp_data)
              then Some s
              else let payload = slice udp_data 8 (dgram_len - 8);
                       server = udp_find_server dst_port s; handler = udp_find_handler dst_port s
                   in if server \<noteq> 0 then udp_server_enqueue server src_ip src_port payload s
                      else if handler = 0 then Some s
                      else env_call E handler src_ip src_port dst_ip dst_port payload s)"

section \<open>IPv4 and Ethernet dispatch\<close>

definition ipv4_malformed :: "u8 list \<Rightarrow> bool" where
  "ipv4_malformed data \<longleftrightarrow>
     (let version = drop_bit 4 (data ! 0); ihl = unat (data ! 0 AND 0x0F) * 4;
          total_length = unat (htons (get16 data 2))
      in version \<noteq> 4 \<or> ihl < 20 \<or> length data < ihl \<or> total_length < ihl \<or> length data < total_length)"

definition ipv4_cksum_ok :: "u8 list \<Rightarrow> bool" where
  "ipv4_cksum_ok data \<longleftrightarrow>
     (let ihl = unat (data ! 0 AND 0x0F) * 4
      in get16 data 10 = htons (ipv4_checksum (take ihl (data[10 := 0, 11 := 0]))))"

definition ipv4_process_packet ::
    "('a net_st_scheme) env \<Rightarrow> u8 list \<Rightarrow> 'a net_st_scheme \<Rightarrow> 'a net_st_scheme option" where
  "ipv4_process_packet E data s =
     (if length data < 20 then Some s
      else if ipv4_malformed data then Some s
      else if \<not> ipv4_cksum_ok data then Some s
      else let fragment_field = htons (get16 data 6);
               src_ip = slice data 12 4; dst_ip = slice data 16 4;
               ihl = unat (data ! 0 AND 0x0F) * 4; total_length = unat (htons (get16 data 2));
               body = slice data ihl (total_length - ihl)
           in if fragment_field AND 0x3FFF \<noteq> 0 \<or> fragment_field AND 0x2000 \<noteq> 0 then Some s
              else if ipv4_local_ip_valid (ip s) \<and> \<not> ipv4_is_local_address dst_ip s \<and>
                      \<not> (dst_ip ! 0 = 255 \<and> dst_ip ! 1 = 255 \<and> dst_ip ! 2 = 255 \<and> dst_ip ! 3 = 255)
              then Some s
              else if data ! 9 = 1 then icmp_process_packet src_ip body s
              else if data ! 9 = 17 then udp_process_packet E src_ip dst_ip body s
              else Some s)"

definition eth_process_packet ::
    "('a net_st_scheme) env \<Rightarrow> u8 list \<Rightarrow> 'a net_st_scheme \<Rightarrow> 'a net_st_scheme option" where
  "eth_process_packet E data s =
     (if length data < 14 then Some s
      else let ethertype = htons (get16 data 12) in
        if ethertype = 0x0806 then arp_process_packet (env_card E) (drop 14 data) s
        else if ethertype = 0x0800 then ipv4_process_packet E (drop 14 data) s
        else Some s)"

definition drain_rx :: "('a net_st_scheme) env \<Rightarrow> 'a net_st_scheme \<Rightarrow> 'a net_st_scheme option" where
  "drain_rx E s = e1k_drain_rx (env_card E) (eth_process_packet E) s"

section \<open>Resolving addresses\<close>

text \<open>One round of polling: at most \<open>n\<close> attempts, receiving packets in between.\<close>

fun arp_poll ::
    "('a net_st_scheme) env \<Rightarrow> u8 list \<Rightarrow> nat \<Rightarrow> 'a net_st_scheme \<Rightarrow> (u8 list option \<times> 'a net_st_scheme) option" where
  "arp_poll E target_ip 0 s = Some (None, s)"
| "arp_poll E target_ip (Suc n) s =
     (case arp_try_get_mac target_ip s of
        Some mac \<Rightarrow> Some (Some mac, s)
      | None \<Rightarrow> do { s \<leftarrow> drain_rx E s; arp_poll E target_ip n s })"

fun arp_rounds ::
    "('a net_st_scheme) env \<Rightarrow> u8 list \<Rightarrow> nat \<Rightarrow> 'a net_st_scheme \<Rightarrow> (u8 list option \<times> 'a net_st_scheme) option" where
  "arp_rounds E target_ip 0 s = Some (None, s)"
| "arp_rounds E target_ip (Suc k) s =
     do { (r, s) \<leftarrow> arp_poll E target_ip 1000000 s;
          case r of
            Some mac \<Rightarrow> Some (Some mac, s)
          | None \<Rightarrow> do { s \<leftarrow> env_irq E s; arp_rounds E target_ip k s } }"

definition arp_resolve ::
    "('a net_st_scheme) env \<Rightarrow> u8 list \<Rightarrow> 'a net_st_scheme \<Rightarrow> (u8 list option \<times> 'a net_st_scheme) option" where
  "arp_resolve E target_ip s =
     (case arp_try_get_mac target_ip s of
        Some mac \<Rightarrow> Some (Some mac, s)
      | None \<Rightarrow>
          (case ipv4_get_address s of
             None \<Rightarrow> Some (None, s)
           | Some src_ip \<Rightarrow> do { s \<leftarrow> arp_send_request (env_card E) src_ip target_ip s; arp_rounds E target_ip 8 s }))"

text \<open>The hardware address of the destination on the local network, and of the gateway otherwise.\<close>

definition next_hop ::
    "('a net_st_scheme) env \<Rightarrow> u8 list \<Rightarrow> 'a net_st_scheme \<Rightarrow> (u8 list option \<times> 'a net_st_scheme) option" where
  "next_hop E dst_ip s =
     (if ipv4_on_local_network dst_ip s then arp_resolve E dst_ip s
      else case ipv4_get_gateway s of None \<Rightarrow> Some (None, s) | Some gw \<Rightarrow> arp_resolve E gw s)"

section \<open>Sending ICMP and UDP\<close>

definition icmp_echo :: "u16 \<Rightarrow> u16 \<Rightarrow> u16 \<Rightarrow> u8 list" where
  "icmp_echo cksum identifier sequence =
     [8, 0] @ bytes16 cksum @ bytes16 (htons identifier) @ bytes16 (htons sequence) @
     [109, 98, 111, 111, 116, 45, 105, 99, 109, 112]"

definition icmp_send_echo ::
    "('a net_st_scheme) env \<Rightarrow> u8 list \<Rightarrow> u8 list \<Rightarrow> u16 \<Rightarrow> u16 \<Rightarrow> 'a net_st_scheme \<Rightarrow> (int \<times> 'a net_st_scheme) option" where
  "icmp_send_echo E src_ip dst_ip identifier sequence s =
     do { (icmp_packet, s) \<leftarrow> kmalloc 18 s;
          let data = icmp_echo (htons (ipv4_checksum (icmp_echo 0 identifier sequence))) identifier sequence;
          (hop, s) \<leftarrow> next_hop E dst_ip s;
          case hop of
            None \<Rightarrow> do { s \<leftarrow> kfree icmp_packet s; Some (- 1, s) }
          | Some mac \<Rightarrow> do { (result, s) \<leftarrow> ipv4_send_packet (env_card E) src_ip dst_ip mac 1 sequence data s;
                           s \<leftarrow> kfree icmp_packet s;
                           Some (result, s) } }"

definition udp_segment :: "u8 list \<Rightarrow> u8 list \<Rightarrow> u16 \<Rightarrow> u16 \<Rightarrow> u8 list \<Rightarrow> u8 list" where
  "udp_segment src_ip dst_ip src_port dst_port payload =
     (let hdr = bytes16 (htons src_port) @ bytes16 (htons dst_port) @ bytes16 (htons (of_nat (8 + length payload)));
          checksum = udp_checksum src_ip dst_ip (hdr @ bytes16 0 @ payload)
      in hdr @ bytes16 (htons (if checksum = 0 then 0xFFFF else checksum)) @ payload)"

text \<open>
  The length of the segment is computed in 16 bits. From 65528 bytes of payload on it wraps, the
  buffer is too small, and the copy of the payload leaves it.
\<close>

definition udp_transmit ::
    "('a net_st_scheme) env \<Rightarrow> u8 list \<Rightarrow> u8 list \<Rightarrow> u8 list \<Rightarrow> u16 \<Rightarrow> u16 \<Rightarrow> u8 list \<Rightarrow> 'a net_st_scheme \<Rightarrow>
      (int \<times> 'a net_st_scheme) option" where
  "udp_transmit E src_ip dst_ip mac src_port dst_port payload s =
     do { (p, s) \<leftarrow> kmalloc (ucast (of_nat (8 + length payload) :: u16)) s;
          if 65536 \<le> 8 + length payload then None
          else do { let ident = udp_tx_identification s;
                    let s = s\<lparr>udp_tx_identification := ident + 1\<rparr>;
                    (result, s) \<leftarrow> ipv4_send_packet (env_card E) src_ip dst_ip mac 17 ident
                      (udp_segment src_ip dst_ip src_port dst_port payload) s;
                    s \<leftarrow> kfree p s;
                    Some (result, s) } }"

definition udp_send ::
    "('a net_st_scheme) env \<Rightarrow> u8 list \<Rightarrow> u8 list \<Rightarrow> u8 list option \<Rightarrow> u16 \<Rightarrow> u16 \<Rightarrow> u8 list \<Rightarrow>
      'a net_st_scheme \<Rightarrow> (int \<times> 'a net_st_scheme) option" where
  "udp_send E src_ip dst_ip next_hop_mac src_port dst_port payload s =
     (case next_hop_mac of
        Some mac \<Rightarrow> udp_transmit E src_ip dst_ip mac src_port dst_port payload s
      | None \<Rightarrow>
          do { (resolved, s) \<leftarrow> kmalloc 6 s;
               (hop, s) \<leftarrow> next_hop E dst_ip s;
               case hop of
                 None \<Rightarrow> do { s \<leftarrow> kfree resolved s; Some (- 1, s) }
               | Some mac \<Rightarrow> do { (result, s) \<leftarrow> udp_transmit E src_ip dst_ip mac src_port dst_port payload s;
                                s \<leftarrow> kfree resolved s;
                                Some (result, s) } })"

definition udp_send_local ::
    "('a net_st_scheme) env \<Rightarrow> u16 \<Rightarrow> u8 list \<Rightarrow> u16 \<Rightarrow> u8 list \<Rightarrow> 'a net_st_scheme \<Rightarrow> (int \<times> 'a net_st_scheme) option" where
  "udp_send_local E src_port dst_ip dst_port payload s =
     do { (p, s) \<leftarrow> kmalloc 4 s;
          case ipv4_get_address s of
            None \<Rightarrow> do { s \<leftarrow> kfree p s; Some (- 1, s) }
          | Some src_ip \<Rightarrow> do { (result, s) \<leftarrow> udp_send E src_ip dst_ip None src_port dst_port payload s;
                              s \<leftarrow> kfree p s;
                              Some (result, s) } }"

section \<open>UDP tables\<close>

definition zero_dgram :: udp_dgram_t where
  "zero_dgram = \<lparr>dg_len = 0, dg_src_ip = replicate 4 0, dg_src_port = 0, dg_payload = replicate 1472 0\<rparr>"

definition udp_init :: "'a net_st_scheme \<Rightarrow> 'a net_st_scheme" where
  "udp_init s = s\<lparr>udp_bindings := replicate 8 (0, 0), udp_servers := replicate 4 0\<rparr>"

text \<open>\<^verbatim>\<open>sizeof(udp_user_server_t)\<close> is 23684.\<close>

definition udp_server_bind :: "u16 \<Rightarrow> 'a net_st_scheme \<Rightarrow> (int \<times> 'a net_st_scheme) option" where
  "udp_server_bind port s =
     (if udp_find_server port s \<noteq> 0 then Some (0, s)
      else case filter (\<lambda>i. udp_servers s ! i = 0) [0..<4] of
        [] \<Rightarrow> Some (- 1, s)
      | i # _ \<Rightarrow> do { (p, s) \<leftarrow> kmalloc 23684 s;
                    Some (0, s\<lparr>udp_servers := (udp_servers s)[i := p],
                      udp_mem := (udp_mem s)(p := \<lparr>us_port = port, us_queue = replicate 16 zero_dgram,
                        us_head = 0, us_count = 0\<rparr>)\<rparr>) })"

definition dequeue_dgram :: "udp_server_t \<Rightarrow> udp_dgram_t \<times> udp_server_t" where
  "dequeue_dgram v = (us_queue v ! us_head v, v\<lparr>us_head := (us_head v + 1) mod 16, us_count := us_count v - 1\<rparr>)"

text \<open>The sender's address and port and the payload, cut to the caller's buffer.\<close>

definition udp_server_recv ::
    "u16 \<Rightarrow> nat \<Rightarrow> 'a net_st_scheme \<Rightarrow> (u8 list \<times> u16 \<times> u8 list) option \<times> 'a net_st_scheme" where
  "udp_server_recv port max_len s =
     (let p = udp_find_server port s in
      if p = 0 \<or> us_count (udp_mem s p) = 0 then (None, s)
      else let (d, v) = dequeue_dgram (udp_mem s p);
               n = (if max_len < unat (dg_len d) then max_len else unat (dg_len d))
           in (Some (dg_src_ip d, dg_src_port d, take n (dg_payload d)), upd_server p (\<lambda>_. v) s))"

definition udp_bind :: "u16 \<Rightarrow> u32 \<Rightarrow> 'a net_st_scheme \<Rightarrow> int \<times> 'a net_st_scheme" where
  "udp_bind port handler s =
     (case filter (\<lambda>i. snd (udp_bindings s ! i) \<noteq> 0 \<and> fst (udp_bindings s ! i) = port) [0..<8] of
        i # _ \<Rightarrow> (0, s\<lparr>udp_bindings := (udp_bindings s)[i := (port, handler)]\<rparr>)
      | [] \<Rightarrow>
          (case filter (\<lambda>i. snd (udp_bindings s ! i) = 0) [0..<8] of
             i # _ \<Rightarrow> (0, s\<lparr>udp_bindings := (udp_bindings s)[i := (port, handler)]\<rparr>)
           | [] \<Rightarrow> (- 1, s)))"

section \<open>Sockets\<close>

definition zero_socket :: socket_t where
  "zero_socket = \<lparr>sk_used = False, sk_refs = 0, sk_domain = 0, sk_type = 0, sk_protocol = 0, sk_local_port = 0,
     sk_bound = False, sk_is_raw = False, sk_icmp_id = 0, sk_icmp_seq = 0, sk_has_peer = False,
     sk_peer_ip = replicate 4 0, sk_peer_port = 0, sk_inbuf = replicate 1472 0, sk_in_len = 0, sk_in_pos = 0,
     sk_outbuf = replicate 2048 0, sk_out_len = 0\<rparr>"

record sockaddr_in =
  sin_family :: u16
  sin_port :: u16
  sin_addr :: u32

definition socket_index_from_handle :: "int \<Rightarrow> int" where
  "socket_index_from_handle handle =
     (let index = - 4096 - handle in if index < 0 \<or> 16 \<le> index then - 1 else index)"

definition socket_handle_from_index :: "nat \<Rightarrow> int" where
  "socket_handle_from_index index = - 4096 - int index"

definition socket_from_handle :: "int \<Rightarrow> 'a net_st_scheme \<Rightarrow> nat option" where
  "socket_from_handle handle s =
     (let index = socket_index_from_handle handle in
      if index < 0 \<or> \<not> sk_used (sockets s ! nat index) then None else Some (nat index))"

definition sockaddr_in_valid :: "sockaddr_in option \<Rightarrow> u32 \<Rightarrow> bool" where
  "sockaddr_in_valid addr addrlen \<longleftrightarrow>
     (case addr of None \<Rightarrow> False | Some a \<Rightarrow> \<not> addrlen < 16 \<and> sin_family a = 2)"

text \<open>What is stored for the caller; \<open>None\<close> when nothing is (null pointers or a short buffer).\<close>

definition sockaddr_from_peer :: "u32 option \<Rightarrow> u8 list \<Rightarrow> u16 \<Rightarrow> (sockaddr_in \<times> u32) option" where
  "sockaddr_from_peer addrlen peer port =
     (case addrlen of
        None \<Rightarrow> None
      | Some l \<Rightarrow>
          if l < 16 then None
          else Some (\<lparr>sin_family = 2, sin_port = htons port,
            sin_addr = push_bit 24 (ucast (peer ! 0)) OR push_bit 16 (ucast (peer ! 1)) OR
              push_bit 8 (ucast (peer ! 2)) OR ucast (peer ! 3)\<rparr>, 16))"

definition socket_flush_output ::
    "('a net_st_scheme) env \<Rightarrow> nat \<Rightarrow> 'a net_st_scheme \<Rightarrow> 'a net_st_scheme option" where
  "socket_flush_output E i s =
     (let k = sockets s ! i in
      if \<not> sk_has_peer k \<or> sk_out_len k = 0 then Some s
      else do { (r, s) \<leftarrow> udp_send_local E (sk_local_port k) (sk_peer_ip k) (sk_peer_port k)
                            (take (sk_out_len k) (sk_outbuf k)) s;
                Some (if r = 0 then upd_sock i (\<lambda>k. k\<lparr>sk_out_len := 0\<rparr>) s else s) })"

definition socket_init :: "'a net_st_scheme \<Rightarrow> 'a net_st_scheme" where
  "socket_init s = s\<lparr>sockets := replicate 16 zero_socket\<rparr>"

definition socket_create :: "int \<Rightarrow> int \<Rightarrow> int \<Rightarrow> 'a net_st_scheme \<Rightarrow> int \<times> 'a net_st_scheme" where
  "socket_create domain typ protocol s =
     (if domain \<noteq> 2 then (- 1, s)
      else if typ = 2 \<and> protocol \<noteq> 0 then (- 1, s)
      else if typ = 3 \<and> protocol \<noteq> 1 then (- 1, s)
      else if typ \<noteq> 2 \<and> typ \<noteq> 3 then (- 1, s)
      else case filter (\<lambda>i. \<not> sk_used (sockets s ! i)) [0..<16] of
        [] \<Rightarrow> (- 1, s)
      | i # _ \<Rightarrow>
          let k = zero_socket\<lparr>sk_used := True, sk_refs := 1, sk_domain := domain, sk_type := typ, sk_protocol := protocol\<rparr>;
              k = (if typ = 3 then k\<lparr>sk_is_raw := True, sk_icmp_id := 0x1000 + of_nat i, sk_icmp_seq := 1\<rparr> else k)
          in (socket_handle_from_index i, upd_sock i (\<lambda>_. k) s))"

definition socket_dup :: "int \<Rightarrow> 'a net_st_scheme \<Rightarrow> int \<times> 'a net_st_scheme" where
  "socket_dup handle s =
     (case socket_from_handle handle s of
        None \<Rightarrow> (- 1, s)
      | Some i \<Rightarrow> (0, upd_sock i (\<lambda>k. k\<lparr>sk_refs := sk_refs k + 1\<rparr>) s))"

definition socket_close :: "int \<Rightarrow> 'a net_st_scheme \<Rightarrow> int \<times> 'a net_st_scheme" where
  "socket_close handle s =
     (case socket_from_handle handle s of
        None \<Rightarrow> (- 1, s)
      | Some i \<Rightarrow>
          let s = (if 0 < sk_refs (sockets s ! i) then upd_sock i (\<lambda>k. k\<lparr>sk_refs := sk_refs k - 1\<rparr>) s else s)
          in (0, if sk_refs (sockets s ! i) = 0 then upd_sock i (\<lambda>_. zero_socket) s else s))"

definition socket_bind ::
    "int \<Rightarrow> sockaddr_in option \<Rightarrow> u32 \<Rightarrow> 'a net_st_scheme \<Rightarrow> (int \<times> 'a net_st_scheme) option" where
  "socket_bind handle addr addrlen s =
     (case socket_from_handle handle s of
        None \<Rightarrow> Some (- 1, s)
      | Some i \<Rightarrow>
          if \<not> sockaddr_in_valid addr addrlen then Some (- 1, s)
          else let port = htons (sin_port (the addr)) in
            if port = 0 then Some (- 1, s)
            else do { (r, s) \<leftarrow> udp_server_bind port s;
                      if r < 0 then Some (- 1, s)
                      else Some (0, upd_sock i (\<lambda>k. k\<lparr>sk_local_port := port, sk_bound := True\<rparr>) s) })"

text \<open>The bytes handed out of the socket's buffer.\<close>

definition socket_take :: "nat \<Rightarrow> nat \<Rightarrow> 'a net_st_scheme \<Rightarrow> int \<times> u8 list \<times> 'a net_st_scheme" where
  "socket_take i len s =
     (let k = sockets s ! i; available = sk_in_len k - sk_in_pos k;
          n = (if len < available then len else available)
      in (int n, take n (drop (sk_in_pos k) (sk_inbuf k)), upd_sock i (\<lambda>k. k\<lparr>sk_in_pos := sk_in_pos k + n\<rparr>) s))"

partial_function (option) socket_fill ::
    "('a net_st_scheme) env \<Rightarrow> nat \<Rightarrow> 'a net_st_scheme \<Rightarrow> 'a net_st_scheme option" where
  "socket_fill E i s =
     (if sk_in_pos (sockets s ! i) < sk_in_len (sockets s ! i) then Some s
      else let s1 = upd_sock i (\<lambda>k. k\<lparr>sk_in_len := 0, sk_in_pos := 0\<rparr>) s;
               r = udp_server_recv (sk_local_port (sockets s1 ! i)) 1472 s1
           in case fst r of
             Some (peer, port, data) \<Rightarrow>
               socket_flush_output E i (upd_sock i (\<lambda>k. k\<lparr>sk_peer_ip := peer, sk_peer_port := port,
                 sk_inbuf := data @ drop (length data) (sk_inbuf k), sk_in_len := length data, sk_has_peer := True\<rparr>) (snd r))
           | None \<Rightarrow>
               do { b \<leftarrow> scheduler_block (ucast (sk_local_port (sockets s1 ! i))) (env_esp E) (snd r);
                    s2 \<leftarrow> env_others E (snd b);
                    socket_fill E i s2 })"

text \<open>The flag \<open>buf\<close> says whether the buffer pointer is non-null.\<close>

definition socket_read ::
    "('a net_st_scheme) env \<Rightarrow> int \<Rightarrow> bool \<Rightarrow> nat \<Rightarrow> 'a net_st_scheme \<Rightarrow> (int \<times> u8 list \<times> 'a net_st_scheme) option" where
  "socket_read E handle buf len s =
     (case socket_from_handle handle s of
        None \<Rightarrow> Some (- 1, [], s)
      | Some i \<Rightarrow>
          if \<not> sk_bound (sockets s ! i) \<or> \<not> buf \<or> 65535 < len then Some (- 1, [], s)
          else do { s \<leftarrow> socket_fill E i s; Some (socket_take i len s) })"

definition socket_write ::
    "('a net_st_scheme) env \<Rightarrow> int \<Rightarrow> u8 list option \<Rightarrow> 'a net_st_scheme \<Rightarrow> (int \<times> 'a net_st_scheme) option" where
  "socket_write E handle buf s =
     (case socket_from_handle handle s of
        None \<Rightarrow> Some (- 1, s)
      | Some i \<Rightarrow>
          (case buf of
             None \<Rightarrow> Some (- 1, s)
           | Some data \<Rightarrow>
               let k = sockets s ! i in
               if \<not> sk_bound k \<or> 65535 < length data then Some (- 1, s)
               else if sk_has_peer k
               then do { (r, s) \<leftarrow> udp_send_local E (sk_local_port k) (sk_peer_ip k) (sk_peer_port k) data s;
                         Some (if r = 0 then int (length data) else - 1, s) }
               else let room = 2048 - sk_out_len k;
                        n = (if length data < room then length data else room)
                    in Some (int (length data), upd_sock i (\<lambda>k. k\<lparr>
                         sk_outbuf := take (sk_out_len k) (sk_outbuf k) @ take n data @ drop (sk_out_len k + n) (sk_outbuf k),
                         sk_out_len := sk_out_len k + n\<rparr>) s)))"

definition ip_bytes :: "u32 \<Rightarrow> u8 list" where
  "ip_bytes a = [ucast (drop_bit 24 a), ucast (drop_bit 16 a), ucast (drop_bit 8 a), ucast a]"

definition socket_sendto ::
    "('a net_st_scheme) env \<Rightarrow> int \<Rightarrow> u8 list option \<Rightarrow> sockaddr_in option \<Rightarrow> u32 \<Rightarrow> 'a net_st_scheme \<Rightarrow>
      (int \<times> 'a net_st_scheme) option" where
  "socket_sendto E handle buf dest addrlen s =
     (case socket_from_handle handle s of
        None \<Rightarrow> Some (- 1, s)
      | Some i \<Rightarrow>
          (case buf of
             None \<Rightarrow> Some (- 1, s)
           | Some data \<Rightarrow>
               if \<not> sockaddr_in_valid dest addrlen \<or> 65535 < length data then Some (- 1, s)
               else let k = sockets s ! i; dst_ip = ip_bytes (sin_addr (the dest)) in
                 if sk_is_raw k
                 then (case ipv4_get_address s of
                         None \<Rightarrow> Some (- 1, s)
                       | Some src_ip \<Rightarrow>
                           do { (r, s) \<leftarrow> icmp_send_echo E src_ip dst_ip (sk_icmp_id k) (sk_icmp_seq k) s;
                                if r < 0 then Some (- 1, s)
                                else Some (int (length data), upd_sock i (\<lambda>k. k\<lparr>sk_icmp_seq := sk_icmp_seq k + 1,
                                       sk_peer_ip := dst_ip, sk_has_peer := True\<rparr>) s) })
                 else let src_port = (if sk_bound k then sk_local_port k else 49152);
                          dst_port = htons (sin_port (the dest))
                      in do { (r, s) \<leftarrow> udp_send_local E src_port dst_ip dst_port data s;
                              if r < 0 then Some (- 1, s)
                              else Some (int (length data), upd_sock i (\<lambda>k. k\<lparr>sk_peer_ip := dst_ip,
                                     sk_peer_port := dst_port, sk_has_peer := True\<rparr>) s) }))"

partial_function (option) raw_wait :: "('a net_st_scheme) env \<Rightarrow> nat \<Rightarrow> 'a net_st_scheme \<Rightarrow> 'a net_st_scheme option" where
  "raw_wait E i s =
     (if sk_in_pos (sockets s ! i) < sk_in_len (sockets s ! i) then Some s
      else do { b \<leftarrow> scheduler_block (sock_addr s i) (env_esp E)
                        (upd_sock i (\<lambda>k. k\<lparr>sk_in_len := 0, sk_in_pos := 0\<rparr>) s);
                s2 \<leftarrow> env_others E (snd b);
                raw_wait E i s2 })"

partial_function (option) recv_wait ::
    "('a net_st_scheme) env \<Rightarrow> nat \<Rightarrow> nat \<Rightarrow> 'a net_st_scheme \<Rightarrow> ((u8 list \<times> u16 \<times> u8 list) \<times> 'a net_st_scheme) option" where
  "recv_wait E i max_len s =
     (let r = udp_server_recv (sk_local_port (sockets s ! i)) max_len s in
      case fst r of
        Some d \<Rightarrow> Some (d, snd r)
      | None \<Rightarrow> do { b \<leftarrow> scheduler_block (ucast (sk_local_port (sockets s ! i))) (env_esp E) (snd r);
                   s2 \<leftarrow> env_others E (snd b);
                   recv_wait E i max_len s2 })"

definition socket_recvfrom ::
    "('a net_st_scheme) env \<Rightarrow> int \<Rightarrow> bool \<Rightarrow> nat \<Rightarrow> u32 option \<Rightarrow> 'a net_st_scheme \<Rightarrow>
      (int \<times> u8 list \<times> (sockaddr_in \<times> u32) option \<times> 'a net_st_scheme) option" where
  "socket_recvfrom E handle buf len addrlen s =
     (case socket_from_handle handle s of
        None \<Rightarrow> Some (- 1, [], None, s)
      | Some i \<Rightarrow>
          if \<not> buf \<or> 65535 < len then Some (- 1, [], None, s)
          else if sk_is_raw (sockets s ! i)
          then do { s \<leftarrow> raw_wait E i s;
                    let (n, data, s) = socket_take i len s;
                    Some (n, data, sockaddr_from_peer addrlen (sk_peer_ip (sockets s ! i)) 0, s) }
          else if \<not> sk_bound (sockets s ! i) then Some (- 1, [], None, s)
          else do { ((peer, port, data), s) \<leftarrow> recv_wait E i len s;
                    s \<leftarrow> socket_flush_output E i (upd_sock i (\<lambda>k. k\<lparr>sk_peer_ip := peer, sk_peer_port := port,
                           sk_has_peer := True\<rparr>) s);
                    Some (int (length data), data, sockaddr_from_peer addrlen peer port, s) })"

definition socket_handle_valid :: "int \<Rightarrow> 'a net_st_scheme \<Rightarrow> bool" where
  "socket_handle_valid handle s \<longleftrightarrow> socket_from_handle handle s \<noteq> None"

section \<open>Start-up\<close>

definition net_init :: "'a net_st_scheme \<Rightarrow> 'a net_st_scheme" where
  "net_init s =
     socket_init (udp_init (ipv4_set_gateway [10, 0, 2, 2] (ipv4_set_netmask [255, 255, 255, 0]
       (ipv4_set_address [10, 0, 2, 15] s))))"

section \<open>The datagram queue is a bounded FIFO\<close>

type_synonym dgram = "u8 list \<times> u16 \<times> u8 list"

definition dg_view :: "udp_dgram_t \<Rightarrow> dgram" where
  "dg_view d = (dg_src_ip d, dg_src_port d, take (unat (dg_len d)) (dg_payload d))"

definition dgram_ok :: "dgram \<Rightarrow> bool" where
  "dgram_ok = (\<lambda>(src, _, payload). length src = 4 \<and> length payload \<le> 1472)"

definition server_ok :: "udp_server_t \<Rightarrow> bool" where
  "server_ok v \<longleftrightarrow> length (us_queue v) = 16 \<and> us_head v < 16 \<and> us_count v \<le> 16 \<and>
     (\<forall>d \<in> set (us_queue v). length (dg_payload d) = 1472 \<and> unat (dg_len d) \<le> 1472 \<and> length (dg_src_ip d) = 4)"

definition server_contents :: "udp_server_t \<Rightarrow> dgram list" where
  "server_contents v = map (\<lambda>i. dg_view (us_queue v ! ((us_head v + i) mod 16))) [0..<us_count v]"

definition server_push :: "dgram \<Rightarrow> udp_server_t \<Rightarrow> udp_server_t" where
  "server_push = (\<lambda>(src, port, payload) v. if 16 \<le> us_count v then v else enqueue_dgram src port payload v)"

definition server_pop :: "udp_server_t \<Rightarrow> dgram \<times> udp_server_t" where
  "server_pop v = apfst dg_view (dequeue_dgram v)"

lemma enqueue_ok:
  assumes "server_ok v" "us_count v < 16" "length src = 4" "length payload \<le> 1472"
  shows "server_ok (enqueue_dgram src port payload v)"
proof -
  let ?slot = "(us_head v + us_count v) mod 16"
  have d: "us_queue v ! ?slot \<in> set (us_queue v)" using assms(1) by (simp add: server_ok_def)
  then have "length (payload @ drop (length payload) (dg_payload (us_queue v ! ?slot))) = 1472"
    using assms by (simp add: server_ok_def)
  moreover have "unat (of_nat (length payload) :: u16) \<le> 1472"
    using assms(4) by (simp add: unsigned_of_nat take_bit_eq_mod)
  ultimately show ?thesis
    using assms by (auto simp: server_ok_def enqueue_dgram_def Let_def dest!: set_update_subset_insert [THEN subsetD])
qed

lemma enqueue_contents:
  assumes "server_ok v" "us_count v < 16" "length src = 4" "length payload \<le> 1472"
  shows "server_contents (enqueue_dgram src port payload v) = server_contents v @ [(src, port, payload)]"
proof -
  let ?slot = "(us_head v + us_count v) mod 16"
  have h: "us_head v < 16" "length (us_queue v) = 16" using assms(1) by (auto simp: server_ok_def)
  have ne: "?slot \<noteq> (us_head v + i) mod 16" if "i < us_count v" for i
    using that assms(2) h(1) by (simp add: ring_index) arith
  have "unat (of_nat (length payload) :: u16) = length payload"
    using assms(4) by (simp add: unsigned_of_nat take_bit_eq_mod)
  then show ?thesis
    using assms h ne by (simp add: server_contents_def enqueue_dgram_def Let_def dg_view_def)
qed

interpretation udp_queue: bounded_fifo server_ok dgram_ok server_push "\<lambda>v. us_count v \<noteq> 0" server_pop server_contents 16
proof unfold_locales
  fix v x
  assume v: "server_ok v"
  show "us_count v \<noteq> 0 \<longleftrightarrow> server_contents v \<noteq> []" by (simp add: server_contents_def)
  show "length (server_contents v) \<le> 16" using v by (simp add: server_contents_def server_ok_def)
  show "server_ok (server_push x v)" if "dgram_ok x"
    using v that enqueue_ok by (auto simp: server_push_def dgram_ok_def)
  show "server_contents (server_push x v) =
      (if length (server_contents v) < 16 then server_contents v @ [x] else server_contents v)" if "dgram_ok x"
    using v that enqueue_contents by (auto simp: server_push_def dgram_ok_def) (auto simp: server_contents_def)
  assume ne: "us_count v \<noteq> 0"
  show "server_ok (snd (server_pop v))"
    using v by (auto simp: server_ok_def server_pop_def dequeue_dgram_def)
  have "[0..<us_count v] = 0 # map Suc [0..<us_count v - 1]"
    using ne by (simp add: map_Suc_upt upt_conv_Cons)
  moreover have "(us_head v + Suc i) mod 16 = ((us_head v + 1) mod 16 + i) mod 16" for i
    by (simp add: mod_add_left_eq)
  ultimately show "server_contents v = fst (server_pop v) # server_contents (snd (server_pop v))"
    using v by (simp add: server_contents_def server_pop_def dequeue_dgram_def server_ok_def comp_def)
qed

section \<open>Frames read back\<close>

lemma get16_bytes16: "get16 (bytes16 v) 0 = v"
  by (simp add: get16_def bytes16_def bytes_of_u16)

lemma get16_append1: "i + 1 < length xs \<Longrightarrow> get16 (xs @ ys) i = get16 xs i"
  by (simp add: get16_def nth_append)

lemma get16_append2: "length xs \<le> i \<Longrightarrow> get16 (xs @ ys) i = get16 ys (i - length xs)"
  by (simp add: get16_def nth_append Suc_diff_le)

lemma get16_field: "get16 (bytes16 v @ ys) 0 = v"
  by (simp add: get16_append1 get16_bytes16)

lemma htons_wide_small: "unat x < 65536 \<Longrightarrow> htons_wide x = htons (ucast x)"
proof -
  assume "unat x < 65536"
  then have "take_bit 16 (unat x) = unat x" by (simp add: take_bit_nat_eq_self)
  then have "bit (unat x) n \<Longrightarrow> n < 16" for n by (metis bit_take_bit_iff)
  then have b: "bit x n \<Longrightarrow> n < 16" for n by (simp add: bit_unsigned_iff)
  have e: "(0xFF :: u16) = mask 8" "(0xFF :: u32) = mask 8" by (simp_all add: mask_eq_exp_minus_1)
  show ?thesis
    unfolding htons_wide_def htons_def e by (rule bit_eqI) (auto simp: bit_simps dest: b)
qed

lemma total_length:
  assumes "20 + n < 65536"
  shows "unat (htons (htons_wide (of_nat (20 + n)))) = 20 + n"
proof -
  have "unat (of_nat (20 + n) :: u32) = 20 + n" using assms by (simp add: unsigned_of_nat take_bit_eq_mod)
  then have "htons_wide (of_nat (20 + n)) = htons (ucast (of_nat (20 + n) :: u32))"
    using assms by (intro htons_wide_small) simp
  then show ?thesis using assms by (simp add: htons_involutive unsigned_ucast_eq unsigned_of_nat take_bit_eq_mod)
qed

lemma ipv4_header_fields:
  assumes l: "length src = 4" "length dst = 4" and h: "h = ipv4_header n ident protocol src dst ck"
  shows "length h = 20 \<and> (h @ ys) ! 0 = 0x45" "(h @ ys) ! 0 = 0x45" "(h @ ys) ! 9 = protocol"
    "get16 (h @ ys) 2 = htons_wide (of_nat (20 + n))" "get16 (h @ ys) 6 = htons 0x4000" "get16 (h @ ys) 10 = ck"
    "slice (h @ ys) 12 4 = src" "slice (h @ ys) 16 4 = dst"
    "take 20 ((h @ ys)[10 := 0, 11 := 0]) = ipv4_header n ident protocol src dst 0"
proof -
  define t where "t = htons_wide (of_nat (20 + n))"
  define a where "a = [0x45, 0] @ bytes16 t @ bytes16 (htons ident) @ bytes16 (htons 0x4000) @ [64, protocol]"
  have a: "length a = 10" "a ! 0 = 0x45" "a ! 9 = protocol" "get16 a 2 = t" "get16 a 6 = htons 0x4000"
    by (simp_all add: a_def bytes16_def get16_def bytes_of_u16)
  have e: "h = a @ bytes16 ck @ src @ dst" "ipv4_header n ident protocol src dst 0 = a @ bytes16 0 @ src @ dst"
    by (simp_all add: h ipv4_header_def a_def t_def)
  show "length h = 20 \<and> (h @ ys) ! 0 = 0x45" "(h @ ys) ! 0 = 0x45" "(h @ ys) ! 9 = protocol"
    using a l by (simp_all add: e nth_append)
  show "get16 (h @ ys) 2 = htons_wide (of_nat (20 + n))" "get16 (h @ ys) 6 = htons 0x4000" "get16 (h @ ys) 10 = ck"
    using a by (simp_all add: e get16_append1 get16_append2 get16_field t_def)
  show "slice (h @ ys) 12 4 = src" "slice (h @ ys) 16 4 = dst"
    using a l by (simp_all add: slice_def e)
  show "take 20 ((h @ ys)[10 := 0, 11 := 0]) = ipv4_header n ident protocol src dst 0"
    unfolding e(2) using a l by (simp add: e(1) list_update_append bytes16_def)
qed

lemma ihl_bits: "unat ((0x45 :: u8) AND 0x0F) = 5" "drop_bit 4 (0x45 :: u8) = 4"
  by simp_all

lemma ipv4_accepts:
  assumes l: "length src = 4" "length dst = 4" and n: "20 + length body < 65536"
    and h: "h = ipv4_header (length body) ident protocol src dst
      (htons (ipv4_checksum (ipv4_header (length body) ident protocol src dst 0)))"
    and dst: "ipv4_is_local_address dst s"
  shows "ipv4_process_packet E (h @ body @ pad) s =
    (if protocol = 1 then icmp_process_packet src body s
     else if protocol = 17 then udp_process_packet E src dst body s else Some s)"
proof -
  note f = ipv4_header_fields [OF l h, where ys = "body @ pad"]
  have t: "unat (htons (get16 (h @ body @ pad) 2)) = 20 + length body"
    unfolding f(4) by (rule total_length [OF n])
  have "\<not> ipv4_malformed (h @ body @ pad)"
    using f(1) [THEN conjunct1] by (simp add: ipv4_malformed_def f(2) ihl_bits t)
  moreover have "ipv4_cksum_ok (h @ body @ pad)"
    by (simp add: ipv4_cksum_ok_def f(2) ihl_bits f(6,9))
  moreover have "slice (h @ body @ pad) 20 (length body) = body"
    using f(1) [THEN conjunct1] by (simp add: slice_def)
  ultimately show ?thesis
    using f(1) [THEN conjunct1] dst by (simp add: ipv4_process_packet_def f(2,3,5,7,8) ihl_bits t htons_involutive Let_def)
qed

section \<open>Delivery of datagrams\<close>

lemma length_ipv4_header: "length src = 4 \<Longrightarrow> length dst = 4 \<Longrightarrow> length (ipv4_header n ident protocol src dst ck) = 20"
  by (simp add: ipv4_header_def)

lemma eth_ipv4:
  assumes "length nh = 6" "length mac = 6" "length src = 4" "length dst = 4"
  shows "eth_process_packet E (ipv4_frame mac src dst nh protocol ident body) s =
    ipv4_process_packet E (ipv4_header (length body) ident protocol src dst
      (htons (ipv4_checksum (ipv4_header (length body) ident protocol src dst 0))) @ body @
      replicate (26 - length body) 0) s"
proof -
  let ?h = "ipv4_header (length body) ident protocol src dst
      (htons (ipv4_checksum (ipv4_header (length body) ident protocol src dst 0)))"
  let ?e = "eth_header nh mac 0x0800"
  have e: "length ?e = 14" "get16 ?e 12 = htons 0x0800"
    using assms(1,2) by (simp_all add: eth_header_def get16_append2 get16_bytes16)
  have "ipv4_frame mac src dst nh protocol ident body = ?e @ ?h @ body @ replicate (26 - length body) 0"
    using e(1) assms by (simp add: ipv4_frame_def pad60_def Let_def length_ipv4_header)
  then show ?thesis
    using e by (simp add: eth_process_packet_def get16_append1 htons_involutive Let_def)
qed

lemma udp_segment_received:
  assumes l: "length src = 4" "length dst = 4" and n: "length payload \<le> 65527"
  shows "udp_process_packet E src dst (udp_segment src dst sp dp payload) s =
    (let server = udp_find_server dp s; handler = udp_find_handler dp s
     in if server \<noteq> 0 then udp_server_enqueue server src sp payload s
        else if handler = 0 then Some s else env_call E handler src sp dst dp payload s)"
proof -
  define n where "n = (of_nat (8 + length payload) :: u16)"
  define pre where "pre = bytes16 (htons sp) @ bytes16 (htons dp) @ bytes16 (htons n)"
  define ck where "ck = udp_checksum src dst (pre @ [0, 0] @ payload)"
  define seg where "seg = pre @ bytes16 (htons (if ck = 0 then 0xFFFF else ck)) @ payload"
  have seg: "udp_segment src dst sp dp payload = seg"
    by (simp add: udp_segment_def Let_def seg_def pre_def ck_def n_def bytes16_def [of 0])
  have pre: "length pre = 6" "get16 pre 0 = htons sp" "get16 pre 2 = htons dp" "get16 pre 4 = htons n"
    by (simp_all add: pre_def get16_append1 get16_append2 get16_bytes16)
  have "unat n = 8 + length payload"
    using assms(3) by (simp only: n_def unsigned_of_nat) (simp add: take_bit_eq_mod)
  then have f: "get16 seg 0 = htons sp" "get16 seg 2 = htons dp" "unat (htons (get16 seg 4)) = 8 + length payload"
      "length seg = 8 + length payload" "slice seg 8 (length payload) = payload" "take (8 + length payload) seg = seg"
    using pre by (simp_all add: seg_def get16_append1 htons_involutive slice_def)
  have "udp_checksum_valid src dst seg"
    unfolding seg_def using pre(1) assms by (intro udp_checksum_inserted) (simp_all add: ck_def)
  then show ?thesis
    unfolding seg udp_process_packet_def using f by (simp add: htons_involutive Let_def)
qed

lemma udp_enqueue_room:
  assumes "server_ok (udp_mem s p)" "us_count (udp_mem s p) < 16" "length src = 4" "length payload \<le> 1472"
    and "task_ring (tasks s) (idle_task s) us"
  shows "\<exists>T. udp_server_enqueue p src sp payload s =
      Some ((upd_server p (enqueue_dgram src sp payload) s)\<lparr>tasks := T\<rparr>) \<and> task_ring T (idle_task s) us"
proof -
  let ?s = "upd_server p (enqueue_dgram src sp payload) s"
  obtain T where T: "scheduler_wake (ucast (us_port (udp_mem s p))) ?s = Some (?s\<lparr>tasks := T\<rparr>)"
      "\<forall>t. t_next (T t) = t_next (tasks s t)"
    using wake_returns [of ?s us] assms(5) by auto
  then show ?thesis
    using assms task_ring_cong [of T "tasks s"] by (auto simp: udp_server_enqueue_def)
qed

section \<open>Sockets are reference-counted handles\<close>

definition socket_ok :: "socket_t \<Rightarrow> bool" where
  "socket_ok k \<longleftrightarrow> (sk_used k \<longrightarrow> 0 < sk_refs k) \<and> length (sk_inbuf k) = 1472 \<and> sk_in_len k \<le> 1472 \<and>
     sk_in_pos k \<le> sk_in_len k \<and> length (sk_outbuf k) = 2048 \<and> sk_out_len k \<le> 2048 \<and> length (sk_peer_ip k) = 4"

definition sockets_ok :: "'a net_st_scheme \<Rightarrow> bool" where
  "sockets_ok s \<longleftrightarrow> length (sockets s) = 16 \<and> list_all socket_ok (sockets s)"

definition socket_refs :: "'a net_st_scheme \<Rightarrow> int \<Rightarrow> nat" where
  "socket_refs s h = (case socket_from_handle h s of None \<Rightarrow> 0 | Some i \<Rightarrow> nat (sk_refs (sockets s ! i)))"

lemma socket_from_handle_Some:
  "socket_from_handle h s = Some i \<longleftrightarrow> i < 16 \<and> h = - 4096 - int i \<and> sk_used (sockets s ! i)"
  by (auto simp: socket_from_handle_def socket_index_from_handle_def Let_def split: if_splits)

lemma socket_from_handle_None:
  "socket_from_handle h s = None \<longleftrightarrow> (\<forall>i < 16. h = - 4096 - int i \<longrightarrow> \<not> sk_used (sockets s ! i))"
  using socket_from_handle_Some [of h s] by (cases "socket_from_handle h s") auto

lemma socket_ok_nth: "sockets_ok s \<Longrightarrow> i < 16 \<Longrightarrow> socket_ok (sockets s ! i)"
  by (simp add: sockets_ok_def list_all_length)

lemma sockets_ok_upd: "sockets_ok s \<Longrightarrow> (i < 16 \<Longrightarrow> socket_ok (f (sockets s ! i))) \<Longrightarrow> sockets_ok (upd_sock i f s)"
  by (cases "i < 16") (auto simp: sockets_ok_def list_all_length nth_list_update)

lemma zero_socket_ok [simp]: "socket_ok zero_socket"
  by (simp add: socket_ok_def zero_socket_def)

lemma socket_refs_pos: "sockets_ok s \<Longrightarrow> 0 < socket_refs s h \<longleftrightarrow> socket_from_handle h s \<noteq> None"
proof (cases "socket_from_handle h s")
  case (Some i)
  then have "sk_used (sockets s ! i)" "i < 16" by (auto simp: socket_from_handle_Some)
  moreover assume "sockets_ok s"
  ultimately show ?thesis using Some socket_ok_nth [of s i] by (simp add: socket_refs_def socket_ok_def)
qed (simp add: socket_refs_def)

lemma socket_refs_upd:
  assumes "sockets_ok s" "socket_from_handle h s = Some i" "sk_used k \<longrightarrow> sk_refs k = int n" "\<not> sk_used k \<longrightarrow> n = 0"
  shows "socket_refs (upd_sock i (\<lambda>_. k) s) = (socket_refs s)(h := n)"
proof
  fix g
  have l: "length (sockets s) = 16" using assms(1) by (simp add: sockets_ok_def)
  have i: "i < 16" "h = - 4096 - int i" using assms(2) by (auto simp: socket_from_handle_Some)
  show "socket_refs (upd_sock i (\<lambda>_. k) s) g = ((socket_refs s)(h := n)) g"
  proof (cases "g = h")
    case True
    then show ?thesis using l i assms(3,4)
      by (auto simp: socket_refs_def socket_from_handle_Some socket_from_handle_None split: option.split)
  next
    case False
    then have "socket_from_handle g (upd_sock i (\<lambda>_. k) s) = socket_from_handle g s"
      using i by (auto simp: socket_from_handle_def socket_index_from_handle_def Let_def nth_list_update)
    moreover have "socket_from_handle g s \<noteq> Some i" using False i by (auto simp: socket_from_handle_Some)
    ultimately show ?thesis using False by (auto simp: socket_refs_def split: option.split)
  qed
qed

lemma socket_dup_live:
  assumes "sockets_ok s" "0 < socket_refs s h"
  shows "0 \<le> fst (socket_dup h s) \<and> sockets_ok (snd (socket_dup h s)) \<and>
    socket_refs (snd (socket_dup h s)) = (socket_refs s)(h := socket_refs s h + 1)"
proof -
  obtain i where i: "socket_from_handle h s = Some i" using assms by (auto simp: socket_refs_pos)
  have ok: "socket_ok (sockets s ! i)" using i assms(1) by (auto simp: socket_from_handle_Some intro: socket_ok_nth)
  have u: "sk_used (sockets s ! i)" "socket_refs s h = nat (sk_refs (sockets s ! i))"
    using i by (simp_all add: socket_refs_def) (simp add: socket_from_handle_Some)
  have "socket_refs (upd_sock i (\<lambda>_. (sockets s ! i)\<lparr>sk_refs := sk_refs (sockets s ! i) + 1\<rparr>) s) =
      (socket_refs s)(h := socket_refs s h + 1)"
    using ok u by (intro socket_refs_upd [OF assms(1) i]) (auto simp: socket_ok_def)
  then show ?thesis
    using ok assms(1) i by (auto simp: socket_dup_def socket_ok_def intro!: sockets_ok_upd)
qed

lemma socket_close_live:
  assumes "sockets_ok s" "0 < socket_refs s h"
  shows "fst (socket_close h s) = 0 \<and> sockets_ok (snd (socket_close h s)) \<and>
    socket_refs (snd (socket_close h s)) = (socket_refs s)(h := socket_refs s h - 1)"
proof -
  obtain i where i: "socket_from_handle h s = Some i" using assms by (auto simp: socket_refs_pos)
  have ok: "socket_ok (sockets s ! i)" using i assms(1) by (auto simp: socket_from_handle_Some intro: socket_ok_nth)
  have r: "0 < sk_refs (sockets s ! i)" "i < length (sockets s)"
    using ok i assms(1) by (auto simp: socket_ok_def socket_from_handle_Some sockets_ok_def)
  have u: "sk_used (sockets s ! i)" "socket_refs s h = nat (sk_refs (sockets s ! i))"
    using i by (simp_all add: socket_refs_def) (simp add: socket_from_handle_Some)
  let ?k = "if sk_refs (sockets s ! i) = 1 then zero_socket else (sockets s ! i)\<lparr>sk_refs := sk_refs (sockets s ! i) - 1\<rparr>"
  have "socket_close h s = (0, upd_sock i (\<lambda>_. ?k) s)"
    using r i by (simp add: socket_close_def Let_def)
  moreover have "socket_refs (upd_sock i (\<lambda>_. ?k) s) = (socket_refs s)(h := socket_refs s h - 1)"
    using r u by (intro socket_refs_upd [OF assms(1) i]) (auto simp: zero_socket_def)
  moreover have "sockets_ok (upd_sock i (\<lambda>_. ?k) s)"
    using ok r assms(1) by (intro sockets_ok_upd) (auto simp: socket_ok_def zero_socket_def)
  ultimately show ?thesis by simp
qed

interpretation sock: refcounted sockets_ok socket_refs socket_dup socket_close
proof unfold_locales
  fix s :: "'a net_st_scheme" and h
  assume s: "sockets_ok s"
  show "0 < socket_refs s h \<Longrightarrow> 0 \<le> fst (socket_dup h s) \<and> sockets_ok (snd (socket_dup h s)) \<and>
      socket_refs (snd (socket_dup h s)) = (socket_refs s)(h := socket_refs s h + 1)"
    by (rule socket_dup_live [OF s])
  show "0 < socket_refs s h \<Longrightarrow> fst (socket_close h s) = 0 \<and> sockets_ok (snd (socket_close h s)) \<and>
      socket_refs (snd (socket_close h s)) = (socket_refs s)(h := socket_refs s h - 1)"
    by (rule socket_close_live [OF s])
  assume "socket_refs s h = 0"
  then have "socket_from_handle h s = None" using socket_refs_pos [OF s, of h] by auto
  then show "socket_dup h s = (- 1, s)" "socket_close h s = (- 1, s)"
    by (simp_all add: socket_dup_def socket_close_def)
qed

lemma socket_refs_take:
  assumes "sockets_ok s" "i < 16" "\<not> sk_used (sockets s ! i)" "sk_used k" "sk_refs k = 1"
  shows "socket_refs (upd_sock i (\<lambda>_. k) s) = (socket_refs s)(socket_handle_from_index i := 1)"
proof
  fix g
  have l: "length (sockets s) = 16" using assms(1) by (simp add: sockets_ok_def)
  show "socket_refs (upd_sock i (\<lambda>_. k) s) g = ((socket_refs s)(socket_handle_from_index i := 1)) g"
    using assms l by (auto simp: socket_refs_def socket_from_handle_def socket_index_from_handle_def
        socket_handle_from_index_def Let_def nth_list_update)
qed

lemma socket_create_ok:
  assumes "sockets_ok s"
  shows "sockets_ok (snd (socket_create d t p s))"
    "fst (socket_create d t p s) \<noteq> - 1 \<Longrightarrow> socket_refs s (fst (socket_create d t p s)) = 0 \<and>
       socket_refs (snd (socket_create d t p s)) = (socket_refs s)(fst (socket_create d t p s) := 1)"
proof -
  let ?free = "filter (\<lambda>i. \<not> sk_used (sockets s ! i)) [0..<16]"
  have free: "i < 16" "\<not> sk_used (sockets s ! i)" if "?free = i # is" for i "is"
  proof -
    have "i \<in> set ?free" using that by simp
    then show "i < 16" "\<not> sk_used (sockets s ! i)" by auto
  qed
  show "sockets_ok (snd (socket_create d t p s))"
    using assms by (auto simp: socket_create_def Let_def socket_ok_def zero_socket_def split: list.split intro!: sockets_ok_upd)
  show "socket_refs s (fst (socket_create d t p s)) = 0 \<and>
       socket_refs (snd (socket_create d t p s)) = (socket_refs s)(fst (socket_create d t p s) := 1)"
    if h: "fst (socket_create d t p s) \<noteq> - 1"
  proof -
    obtain i js where i: "?free = i # js"
      using h by (cases ?free) (auto simp: socket_create_def split: if_splits)
    have c: "d = 2" "t = 2 \<and> p = 0 \<or> t = 3 \<and> p = 1"
      using h by (auto simp: socket_create_def split: if_splits)
    define k0 where "k0 = zero_socket\<lparr>sk_used := True, sk_refs := 1, sk_domain := d, sk_type := t, sk_protocol := p\<rparr>"
    define k where "k = (if t = 3 then k0\<lparr>sk_is_raw := True, sk_icmp_id := 0x1000 + of_nat i, sk_icmp_seq := 1\<rparr> else k0)"
    have "sk_used k" "sk_refs k = 1" by (simp_all add: k_def k0_def)
    moreover have "socket_create d t p s = (socket_handle_from_index i, upd_sock i (\<lambda>_. k) s)"
      unfolding socket_create_def i c(1) list.case Let_def k_def k0_def using c(2) by (elim disjE conjE) simp_all
    moreover have "socket_refs s (socket_handle_from_index i) = 0"
      using free [OF i] by (simp add: socket_refs_def socket_from_handle_def socket_index_from_handle_def
          socket_handle_from_index_def)
    ultimately show ?thesis using socket_refs_take [OF assms free [OF i]] by simp
  qed
qed

text \<open>Fields outside the heap allocator's part of the state are not touched by allocation.\<close>

lemma more_sockets: "heap_st.more s' = heap_st.more s \<Longrightarrow> sockets s' = sockets s"
  by (cases s; cases s') simp

lemma udp_server_bind_sockets: "udp_server_bind port s = Some (r, s') \<Longrightarrow> sockets s' = sockets s"
  by (auto simp: udp_server_bind_def split: if_splits list.splits Option.bind_splits intro: more_sockets [OF kmalloc_more])

lemma wake_sockets: "scheduler_wake w s = Some s' \<Longrightarrow> sockets s' = sockets s"
  by (auto simp: scheduler_wake_def split: if_splits Option.bind_splits)

section \<open>Properties of sockets\<close>

text \<open>
  C25. Life of a socket. A descriptor created by \<^verbatim>\<open>socket_create\<close> was free and starts with one reference. Of
  \<open>n\<close> duplicates and \<open>k\<close> closes in that order, the socket is released exactly when every reference has
  been closed, and the other sockets keep theirs.
\<close>

theorem socket_lifetime:
  assumes "sockets_ok s" "socket_create d t p s = (h, s1)" "h \<noteq> - 1"
  shows "socket_from_handle h s = None \<and>
    (socket_from_handle h (((snd \<circ> socket_close h) ^^ k) (((snd \<circ> socket_dup h) ^^ n) s1)) = None \<longleftrightarrow> n < k) \<and>
    (\<forall>g. g \<noteq> h \<longrightarrow> socket_refs (((snd \<circ> socket_close h) ^^ k) (((snd \<circ> socket_dup h) ^^ n) s1)) g = socket_refs s g)"
proof -
  have it: "(f ^^ m) x = fold (\<lambda>h s. snd (g h s)) (replicate m h) x" if "f = snd \<circ> g h"
    for f and g :: "int \<Rightarrow> 'a net_st_scheme \<Rightarrow> int \<times> 'a net_st_scheme" and m x
    using that by (simp add: fold_replicate comp_def)
  let ?s2 = "sock.dups (replicate n h) s1" and ?s3 = "sock.closes (replicate k h) (sock.dups (replicate n h) s1)"
  have 1: "sockets_ok s1" "socket_refs s h = 0" "socket_refs s1 = (socket_refs s)(h := 1)"
    using socket_create_ok [OF assms(1), of d t p] assms(2,3) by simp_all
  have 2: "sockets_ok ?s2" "socket_refs ?s2 g = (if g = h then n + 1 else socket_refs s g)" for g
    using sock.dups_refs [OF 1(1), of "replicate n h" g] 1(3) by (auto simp: count_list_replicate_self count_list_0_iff)
  have 3: "sockets_ok ?s3" "socket_refs ?s3 g = (if g = h then n + 1 - k else socket_refs s g)" for g
    using sock.closes_refs [OF 2(1), of "replicate k h" g] 2(2) [of g] by (auto simp: count_list_replicate_self count_list_0_iff)
  have "((snd \<circ> socket_close h) ^^ k) (((snd \<circ> socket_dup h) ^^ n) s1) = ?s3"
    by (simp add: it sock.dups_def sock.closes_def)
  then show ?thesis
    using 1(2) 3 socket_refs_pos [OF assms(1), of h] socket_refs_pos [OF 3(1), of h] by auto
qed

text \<open>
  C26. Errors of the socket calls. On a handle that names no open socket every call returns \<open>- 1\<close> and
  changes nothing; so does \<^verbatim>\<open>socket_create\<close> for a family, type or protocol it does not have or when all
  16 sockets are in use, and reading, writing and receiving on an unbound datagram socket.
\<close>

theorem socket_errors:
  fixes s :: "'a net_st_scheme"
  shows "(socket_from_handle h s = None \<longrightarrow>
      socket_dup h s = (- 1, s) \<and> socket_close h s = (- 1, s) \<and> socket_bind h a l s = Some (- 1, s) \<and>
      socket_read E h buf len s = Some (- 1, [], s) \<and> socket_write E h data s = Some (- 1, s) \<and>
      socket_sendto E h data a l s = Some (- 1, s) \<and> socket_recvfrom E h buf len al s = Some (- 1, [], None, s)) \<and>
    (d \<noteq> 2 \<or> (t, p) \<notin> {(2, 0), (3, 1)} \<or> (\<forall>i < 16. sk_used (sockets s ! i)) \<longrightarrow>
      socket_create d t p s = (- 1, s)) \<and>
    (\<forall>i. socket_from_handle h s = Some i \<longrightarrow> \<not> sk_bound (sockets s ! i) \<longrightarrow>
      socket_read E h buf len s = Some (- 1, [], s) \<and> socket_write E h data s = Some (- 1, s) \<and>
      (\<not> sk_is_raw (sockets s ! i) \<longrightarrow> socket_recvfrom E h buf len al s = Some (- 1, [], None, s)))"
proof (intro conjI allI impI)
  assume c: "d \<noteq> 2 \<or> (t, p) \<notin> {(2, 0), (3, 1)} \<or> (\<forall>i < 16. sk_used (sockets s ! i))"
  show "socket_create d t p s = (- 1, s)"
  proof (cases "d \<noteq> 2 \<or> (t, p) \<notin> {(2, 0), (3, 1)}")
    case False
    then have "filter (\<lambda>i. \<not> sk_used (sockets s ! i)) [0..<16] = []"
      using c by (simp only: filter_empty_conv set_upt) auto
    then show ?thesis by (simp only: socket_create_def list.case if_cancel)
  qed (auto simp only: socket_create_def split: if_splits)
qed (simp_all add: socket_dup_def socket_close_def socket_bind_def socket_read_def socket_write_def socket_sendto_def
    socket_recvfrom_def split: option.split)

section \<open>From the wire to the queue\<close>

text \<open>A datagram in flight: the frame as its sender built it.\<close>

definition wire_frame :: "u8 list \<Rightarrow> u16 \<Rightarrow> dgram \<Rightarrow> u8 list \<Rightarrow> bool" where
  "wire_frame dst dp = (\<lambda>(src, sp, payload) f. \<exists>nh mac ident. length src = 4 \<and> length nh = 6 \<and> length mac = 6 \<and>
     length payload \<le> 1472 \<and> f = ipv4_frame mac src dst nh 17 ident (udp_segment src dst sp dp payload))"

text \<open>What has been queued and what is still to come, against the queue at the start.\<close>

definition pending :: "u8 list \<Rightarrow> u16 \<Rightarrow> u32 \<Rightarrow> u32 list \<Rightarrow> dgram list \<Rightarrow> u8 list list \<Rightarrow> 'a net_st_scheme \<Rightarrow> bool" where
  "pending dst dp p us all fs s \<longleftrightarrow> length dst = 4 \<and> ipv4_is_local_address dst s \<and> task_ring (tasks s) (idle_task s) us \<and>
     udp_find_server dp s = p \<and> p \<noteq> 0 \<and> server_ok (udp_mem s p) \<and> us_count (udp_mem s p) + length fs \<le> 16 \<and>
     (\<exists>ds. list_all2 (wire_frame dst dp) ds fs \<and> server_contents (udp_mem s p) @ ds = all)"

lemma eth_udp_frame:
  assumes "wire_frame dst dp (src, sp, payload) f" "length dst = 4" "ipv4_is_local_address dst s"
    "udp_find_server dp s = p" "p \<noteq> 0"
  shows "eth_process_packet E f s = udp_server_enqueue p src sp payload s"
proof -
  let ?seg = "udp_segment src dst sp dp payload"
  have n: "length ?seg = 8 + length payload" by (simp add: udp_segment_def Let_def)
  obtain nh mac ident where w: "length src = 4" "length nh = 6" "length mac = 6" "length payload \<le> 1472"
      "f = ipv4_frame mac src dst nh 17 ident ?seg"
    using assms(1) by (auto simp: wire_frame_def)
  have "eth_process_packet E f s = udp_process_packet E src dst ?seg s"
    unfolding w(5) eth_ipv4 [OF w(2,3,1) assms(2)]
    using w n assms by (subst ipv4_accepts [OF w(1) assms(2) _ refl assms(3)]) simp_all
  then show ?thesis using w assms by (simp add: udp_segment_received)
qed

lemma pending_step:
  fixes s :: "'a net_st_scheme"
  assumes "pending dst dp p us all (f # fs) s"
  shows "\<exists>s'. eth_process_packet E f s = Some s' \<and> nic s' = nic s \<and> pending dst dp p us all fs s'"
proof -
  obtain src sp payload ds where d: "wire_frame dst dp (src, sp, payload) f" "list_all2 (wire_frame dst dp) ds fs"
      "server_contents (udp_mem s p) @ (src, sp, payload) # ds = all"
    using assms by (auto simp: pending_def list_all2_Cons2)
  have w: "length src = 4" "length payload \<le> 1472" using d(1) by (auto simp: wire_frame_def)
  have p: "length dst = 4" "ipv4_is_local_address dst s" "task_ring (tasks s) (idle_task s) us" "udp_find_server dp s = p"
      "p \<noteq> 0" "server_ok (udp_mem s p)" "us_count (udp_mem s p) + length fs < 16"
    using assms by (auto simp: pending_def)
  then have c: "us_count (udp_mem s p) < 16" by simp
  obtain T where T: "udp_server_enqueue p src sp payload s =
      Some ((upd_server p (enqueue_dgram src sp payload) s)\<lparr>tasks := T\<rparr>)" "task_ring T (idle_task s) us"
    using udp_enqueue_room [OF p(6) c w p(3)] by blast
  let ?s' = "(upd_server p (enqueue_dgram src sp payload) s)\<lparr>tasks := T\<rparr>"
  have "us_port (((udp_mem s)(p := enqueue_dgram src sp payload (udp_mem s p))) q) = us_port (udp_mem s q)" for q
    by (simp add: enqueue_dgram_def Let_def)
  then have "udp_find_server dp ?s' = udp_find_server dp s"
    by (simp add: udp_find_server_def del: fun_upd_apply)
  moreover have "us_count (enqueue_dgram src sp payload (udp_mem s p)) = us_count (udp_mem s p) + 1"
    by (simp add: enqueue_dgram_def Let_def)
  moreover have "ipv4_is_local_address dst ?s'" using p(2) by (simp add: ipv4_is_local_address_def)
  ultimately have "pending dst dp p us all fs ?s'"
    using p d T(2) enqueue_ok [OF p(6) c w] enqueue_contents [OF p(6) c w] by (auto simp: pending_def)
  then show ?thesis
    using eth_udp_frame [OF d(1) p(1,2,4,5)] T(1) by auto
qed

lemma pending_stable: "pending dst dp p us all fs s \<Longrightarrow> pending dst dp p us all fs (s\<lparr>nic := n, hw := h\<rparr>)"
  by (simp add: pending_def ipv4_is_local_address_def udp_find_server_def)

text \<open>
  C21. From the receive ring to the queue. When datagrams for a bound port wait in the receive ring, in
  frames as their senders built them, no more than the free slots of the 16 in the server's queue, and
  the card is quiet meanwhile, draining the ring returns; the
  server's queue has got every datagram, unchanged and in ring order, and the ring is empty with its
  tail moved on.
\<close>

theorem drain_delivers:
  fixes s :: "'a net_st_scheme"
  assumes "quiet (env_card E)" "rx_ready (nic s) fs" "list_all2 (wire_frame dst dp) ds fs"
    and "length dst = 4" "ipv4_is_local_address dst s" "task_ring (tasks s) (idle_task s) us"
    and "udp_find_server dp s = p" "p \<noteq> 0" "server_ok (udp_mem s p)" "us_count (udp_mem s p) + length fs \<le> 16"
  shows "\<exists>s'. drain_rx E s = Some s' \<and> server_contents (udp_mem s' p) = server_contents (udp_mem s p) @ ds \<and>
    rx_ready (nic s') [] \<and> unat (rx_tail (nic s')) = (unat (rx_tail (nic s)) + length fs) mod 32"
proof -
  have "pending dst dp p us (server_contents (udp_mem s p) @ ds) fs s"
    using assms by (auto simp: pending_def)
  from drain_frames [where Q = "pending dst dp p us (server_contents (udp_mem s p) @ ds)" and eth = "eth_process_packet E",
      OF assms(1) pending_step pending_stable assms(2) this]
  show ?thesis by (auto simp: drain_rx_def pending_def)
qed

text \<open>
  C22. Receiving a datagram. \<^verbatim>\<open>udp_server_recv\<close> takes the oldest datagram off the queue and returns its sender,
  port and the payload cut to the caller's buffer; on an empty queue or an unbound port it returns
  nothing and changes nothing.
\<close>

theorem udp_server_recv_oldest:
  fixes s :: "'a net_st_scheme"
  assumes "p \<noteq> 0 \<Longrightarrow> server_ok (udp_mem s p)" "udp_find_server port s = p"
  shows "(p = 0 \<or> server_contents (udp_mem s p) = [] \<longrightarrow> udp_server_recv port max_len s = (None, s)) \<and>
    (p \<noteq> 0 \<longrightarrow> (\<forall>src sp payload rest. server_contents (udp_mem s p) = (src, sp, payload) # rest \<longrightarrow>
      (\<exists>v. udp_server_recv port max_len s = (Some (src, sp, take max_len payload), upd_server p (\<lambda>_. v) s) \<and>
        server_ok v \<and> server_contents v = rest)))"
proof (intro conjI impI allI)
  assume "p = 0 \<or> server_contents (udp_mem s p) = []"
  then show "udp_server_recv port max_len s = (None, s)"
    using assms by (auto simp: udp_server_recv_def server_contents_def Let_def)
next
  fix src sp payload rest
  assume p: "p \<noteq> 0" and c: "server_contents (udp_mem s p) = (src, sp, payload) # rest"
  note ok = assms(1) [OF p]
  have ne: "us_count (udp_mem s p) \<noteq> 0" using c udp_queue.nonempty_iff [OF ok] by simp
  obtain d v where d: "dequeue_dgram (udp_mem s p) = (d, v)" by fastforce
  have "server_ok v" "(src, sp, payload) = dg_view d" "server_contents v = rest"
    using udp_queue.inv_pop [OF ok ne] udp_queue.contents_pop [OF ok ne] c by (simp_all add: server_pop_def d)
  moreover from this(2) have "take max_len payload = take (if max_len < unat (dg_len d) then max_len else unat (dg_len d)) (dg_payload d)"
    by (simp add: dg_view_def min_def)
  ultimately show "\<exists>v. udp_server_recv port max_len s = (Some (src, sp, take max_len payload), upd_server p (\<lambda>_. v) s) \<and>
        server_ok v \<and> server_contents v = rest"
    using p ne d assms(2) by (intro exI [of _ v]) (simp add: udp_server_recv_def Let_def dg_view_def)
qed

section \<open>Address resolution\<close>

lemma ip_equal_eq: "length a = 4 \<Longrightarrow> length b = 4 \<Longrightarrow> ip_equal a b \<longleftrightarrow> a = b"
  by (auto simp: ip_equal_def list_eq_iff_nth_eq list_all_iff)

lemma arp_packet_fields:
  assumes "length smac = 6" "length sip = 4" "length tmac = 6" "length tip = 4"
    and d: "d = arp_packet opcode smac sip tmac tip @ pad"
  shows "28 \<le> length d" "get16 d 6 = htons opcode" "slice d 8 6 = smac" "slice d 14 4 = sip" "slice d 24 4 = tip"
proof -
  let ?a = "bytes16 (htons 1) @ bytes16 (htons 0x0800) @ [6, 4] @ bytes16 (htons opcode)"
  have a: "length ?a = 8" "get16 ?a 6 = htons opcode" by (simp_all add: get16_append2 get16_bytes16 get16_def bytes16_def bytes_of_u16)
  have e: "d = ?a @ smac @ sip @ tmac @ tip @ pad" by (simp add: d arp_packet_def)
  show "28 \<le> length d" "slice d 8 6 = smac" "slice d 14 4 = sip" "slice d 24 4 = tip"
    using a(1) assms(1-4) by (simp_all add: e slice_def)
  show "get16 d 6 = htons opcode" unfolding e using a by (subst get16_append1) simp_all
qed

lemma arp_cache_hit:
  "length mac = 6 \<Longrightarrow> length a = 4 \<Longrightarrow> arp_try_get_mac a (arp_update_cache a mac s) = Some mac"
  by (simp add: arp_try_get_mac_def arp_update_cache_def ip_equal_eq)

lemma eth_arp:
  assumes "length dmac = 6" "length smac = 6" "length q = 28"
  shows "eth_process_packet E (pad60 (eth_header dmac smac 0x0806 @ q)) s =
    arp_process_packet (env_card E) (q @ replicate 18 0) s"
proof -
  let ?e = "eth_header dmac smac 0x0806"
  have e: "length ?e = 14" "get16 ?e 12 = htons 0x0806"
    using assms(1,2) by (simp_all add: eth_header_def get16_append2 get16_bytes16)
  then show ?thesis
    using assms(3) by (simp add: eth_process_packet_def pad60_def get16_append1 htons_involutive Let_def)
qed

text \<open>
  C23. An ARP exchange. The request a host broadcasts for an address makes the owner of the address
  answer it (and cache the sender), and the answer it transmits makes the asking host resolve the
  address to the owner's hardware address.
\<close>

theorem arp_exchange:
  fixes sA :: "'a net_st_scheme" and sB :: "'b net_st_scheme"
  assumes "length macA = 6" "length macB = 6" "length ipA = 4" "length ipB = 4"
    and "e1k_get_mac sB = macB" "ipv4_is_local_address ipB sB"
    and "request = pad60 (eth_header (replicate 6 0xFF) macA 0x0806 @ arp_packet 1 macA ipA (replicate 6 0) ipB)"
    and "answer = pad60 (eth_header macA macB 0x0806 @ arp_packet 2 macB ipB macA ipA)"
  shows "eth_process_packet EB request sB =
      map_option snd (arp_send_frame (env_card EB) answer (arp_update_cache ipA macA sB)) \<and>
    arp_try_get_mac ipA (arp_update_cache ipA macA sB) = Some macA \<and>
    (\<exists>s. eth_process_packet EA answer sA = Some s \<and> arp_try_get_mac ipB s = Some macB)"
proof -
  have l: "length (arp_packet opcode macX ipX macY ipY) = 28"
    if "length macX = 6" "length ipX = 4" "length macY = 6" "length ipY = 4" for opcode macX ipX macY ipY
    using that by (simp add: arp_packet_def)
  note f1 = arp_packet_fields [of macA ipA "replicate 6 0" ipB _ 1 "replicate 18 0", OF assms(1,3) _ assms(4) refl, simplified]
  note f2 = arp_packet_fields [of macB ipB macA ipA _ 2 "replicate 18 0", OF assms(2,4,1,3) refl]
  have "ipv4_is_local_address ipB (arp_update_cache ipA macA sB)" "e1k_get_mac (arp_update_cache ipA macA sB) = macB"
    using assms(5,6) by (simp_all add: arp_update_cache_def ipv4_is_local_address_def e1k_get_mac_def)
  then have "eth_process_packet EB request sB = map_option snd (arp_send_frame (env_card EB) answer (arp_update_cache ipA macA sB))"
    using assms(1,3,4) f1 by (simp add: assms(7,8) eth_arp l arp_process_packet_def arp_send_reply_def htons_involutive Let_def
        map_option_case case_prod_unfold split: Option.bind_split option.split)
  moreover have "eth_process_packet EA answer sA = Some (arp_update_cache ipB macB sA)"
    using assms(1-4) f2 by (simp add: assms(8) eth_arp l arp_process_packet_def htons_involutive Let_def)
  ultimately show ?thesis by (simp add: arp_cache_hit assms(1-4))
qed

section \<open>A concrete host\<close>

definition demo_server :: udp_server_t where
  "demo_server = \<lparr>us_port = 7, us_queue = replicate 16 zero_dgram, us_head = 0, us_count = 0\<rparr>"

definition demo_nic :: "u8 list \<Rightarrow> nic_t" where
  "demo_nic f = \<lparr>
     nic_desc = \<lparr>pd_vendor = 0x8086, pd_device_id = 0x100E, pd_bus = 0, pd_device = 3, pd_function = 0,
       pd_bar = replicate 6 0, pd_io_base = 0xFEB00000, pd_irq = 11, pd_enabled = True\<rparr>,
     nic_mac = [2, 0, 0, 0, 0, 1, 0, 0], tx_ring_addr = 0, tx_bufs_addr = 0, tx_ring = [], tx_bufs = [], tx_tail = 0,
     rx_ring_addr = 0, rx_bufs_addr = 0,
     rx_ring = \<lparr>rd_addr = 0, rd_length = of_nat (length f), rd_status = 3, rd_errors = 0\<rparr> #
       replicate 31 \<lparr>rd_addr = 0, rd_length = 0, rd_status = 0, rd_errors = 0\<rparr>,
     rx_bufs = (f @ replicate (2048 - length f) 0) # replicate 31 (replicate 2048 0), rx_tail = 0\<rparr>"

definition demo_net :: "nic_t \<Rightarrow> net_st" where
  "demo_net n = kbd_st.extend demo_kbd
     \<lparr>hw = 0, nic = n, arp = \<lparr>arp_cached_ip = replicate 4 0, arp_cached_mac = replicate 6 0, arp_cache_valid = False\<rparr>,
      ip = \<lparr>ipv4_local_ip = [10, 0, 2, 15], ipv4_local_ip_valid = True, ipv4_netmask = [255, 255, 255, 0],
        ipv4_gateway = [10, 0, 2, 2], ipv4_gateway_valid = True\<rparr>,
      udp_bindings = replicate 8 (0, 0), udp_servers = [0x5000, 0, 0, 0], udp_mem = (\<lambda>_. demo_server),
      udp_tx_identification = 0, sockets = replicate 16 zero_socket, sockets_base = 0\<rparr>"

definition demo_card :: card where
  "demo_card = \<lparr>dev_in = (\<lambda>_ _ h. (0, h)), dev_out = (\<lambda>_ _ _ h. h), dev_rd = (\<lambda>_ h. (0, h)), dev_wr = (\<lambda>_ _ h. h),
     dma = (\<lambda>n h. (n, h))\<rparr>"

definition demo_env :: "'s env" where
  "demo_env = \<lparr>env_card = demo_card, env_call = (\<lambda>_ _ _ _ _ _ s. Some s), env_irq = Some, env_others = (\<lambda>_. None), env_esp = 0\<rparr>"

lemma demo_net_fields:
  "nic (demo_net n) = n" "ipv4_is_local_address [10, 0, 2, 15] (demo_net n)" "udp_find_server 7 (demo_net n) = 0x5000"
  "udp_mem (demo_net n) p = demo_server" "sockets (demo_net n) = replicate 16 zero_socket"
  "tasks (demo_net n) = tasks demo_kbd" "idle_task (demo_net n) = idle_task demo_kbd"
  by (simp_all add: demo_net_def kbd_st.defs ipv4_is_local_address_def ip_equal_def upt_rec udp_find_server_def demo_server_def)

lemma demo_server_ok: "server_ok demo_server" "server_contents demo_server = []" "us_count demo_server = 0"
  by (simp_all add: server_ok_def demo_server_def server_contents_def zero_dgram_def)

theorem drain_delivers_witness:
  "\<exists>f s'. wire_frame [10, 0, 2, 15] 7 ([10, 0, 2, 2], 4000, [104, 105]) f \<and>
     drain_rx demo_env (demo_net (demo_nic f)) = Some s' \<and>
     server_contents (udp_mem s' 0x5000) = [([10, 0, 2, 2], 4000, [104, 105])]"
proof -
  define f where "f = ipv4_frame (replicate 6 1) [10, 0, 2, 2] [10, 0, 2, 15] (replicate 6 1) 17 9
    (udp_segment [10, 0, 2, 2] [10, 0, 2, 15] 4000 7 [104, 105])"
  let ?s = "demo_net (demo_nic f)"
  have w: "wire_frame [10, 0, 2, 15] 7 ([10, 0, 2, 2], 4000, [104, 105]) f"
    unfolding wire_frame_def f_def by (auto intro!: exI [of _ "replicate 6 (1 :: u8)"])
  have f: "length f = 60"
    by (simp add: f_def ipv4_frame_def pad60_def eth_header_def length_ipv4_header udp_segment_def Let_def)
  have r: "rx_ready (demo_nic f) [f]"
    using f by (simp add: rx_ready_def slot_holds_def demo_nic_def)
  have q: "quiet (env_card demo_env)" by (simp add: quiet_def demo_env_def demo_card_def)
  have t: "task_ring (tasks ?s) (idle_task ?s) [0x2000, 0x3000]"
    using demo_kbd_fields(4) by (simp add: kbd_inv_def demo_net_fields)
  from drain_delivers [where s = ?s and dp = 7 and fs = "[f]" and dst = "[10, 0, 2, 15]" and p = "0x5000"
      and ds = "[([10, 0, 2, 2], 4000, [104, 105])]", OF q _ _ _ _ t] r w
  obtain s' where "drain_rx demo_env ?s = Some s'" "server_contents (udp_mem s' 0x5000) = [([10, 0, 2, 2], 4000, [104, 105])]"
    by (auto simp: demo_net_fields demo_server_ok)
  with w show ?thesis by blast
qed

theorem udp_server_recv_oldest_witness:
  "\<exists>s'. udp_server_recv 7 1 (upd_server 0x5000 (\<lambda>_. enqueue_dgram [1, 2, 3, 4] 5 [8, 9] demo_server) (demo_net (demo_nic []))) =
     (Some ([1, 2, 3, 4], 5, [8]), s')"
proof -
  let ?s = "upd_server 0x5000 (\<lambda>_. enqueue_dgram [1, 2, 3, 4] 5 [8, 9] demo_server) (demo_net (demo_nic []))"
  have "udp_find_server 7 ?s = 0x5000"
    by (simp add: udp_find_server_def demo_net_def kbd_st.defs enqueue_dgram_def demo_server_def)
  with udp_server_recv_oldest [of "0x5000" ?s 7 1] enqueue_ok [of demo_server "[1, 2, 3, 4]" "[8, 9]" 5]
    enqueue_contents [of demo_server "[1, 2, 3, 4]" "[8, 9]" 5]
  show ?thesis by (auto simp: demo_server_ok)
qed

theorem arp_exchange_witness:
  "\<exists>s. eth_process_packet demo_env (pad60 (eth_header (replicate 6 2) [2, 0, 0, 0, 0, 1] 0x0806 @
      arp_packet 2 [2, 0, 0, 0, 0, 1] [10, 0, 2, 15] (replicate 6 2) [10, 0, 2, 2])) (demo_net (demo_nic [])) = Some s \<and>
    arp_try_get_mac [10, 0, 2, 15] s = Some [2, 0, 0, 0, 0, 1]"
  using arp_exchange [where sB = "demo_net (demo_nic [])" and macB = "[2, 0, 0, 0, 0, 1]" and macA = "replicate 6 2"
      and ipA = "[10, 0, 2, 2]" and ipB = "[10, 0, 2, 15]" and sA = "demo_net (demo_nic [])" and EA = demo_env and EB = demo_env,
      OF _ _ _ _ _ _ refl refl]
  by (simp add: demo_net_fields e1k_get_mac_def demo_nic_def)

lemma demo_sockets_ok: "sockets_ok (demo_net n)"
  by (simp add: sockets_ok_def demo_net_fields list_all_length)

theorem socket_lifetime_witness:
  "\<exists>h s. socket_create 2 2 0 (demo_net (demo_nic [])) = (h, s) \<and> h = - 4096 \<and>
     socket_from_handle h (snd (socket_close h s)) = None"
proof -
  have "[0..<16] = 0 # [1..<16]" by (simp add: upt_rec)
  then have c: "socket_create 2 2 0 (demo_net (demo_nic [])) = (- 4096, snd (socket_create 2 2 0 (demo_net (demo_nic []))))"
    by (simp add: socket_create_def demo_net_fields socket_handle_from_index_def zero_socket_def del: upt_rec_numeral)
  with socket_lifetime [OF demo_sockets_ok c, where k = 1 and n = 0] show ?thesis by auto
qed

theorem socket_errors_witness:
  "socket_from_handle 3 (demo_net (demo_nic [])) = None \<and> socket_close 3 (demo_net (demo_nic [])) = (- 1, demo_net (demo_nic []))"
proof -
  have "socket_from_handle 3 (demo_net (demo_nic [])) = None"
    by (simp add: socket_from_handle_def socket_index_from_handle_def)
  with socket_errors [of 3 "demo_net (demo_nic [])"] show ?thesis by blast
qed

end
