(* ===== verification/Sockets.thy ===== *)
theory Sockets
  imports Net
begin

text \<open>
  The type invariant of the socket table and of the UDP queues, \<^verbatim>\<open>stage2/net/socket.c\<close> and
  \<^verbatim>\<open>stage2/net/udp.c\<close>: every socket call, whole, and every received frame keep it. A call that sends or
  waits lets received frames and other tasks run; the latter are part of the environment and are assumed
  to keep the invariant too, as they do when they enter the kernel by the same calls.
\<close>

section \<open>The invariant\<close>

definition net_ok :: "'a net_st_scheme \<Rightarrow> bool" where
  "net_ok s \<longleftrightarrow> sockets_ok s \<and> (\<forall>p \<in> set (udp_servers s). p \<noteq> 0 \<longrightarrow> server_ok (udp_mem s p))"





lemma net_ok_upd [simp]:
  "net_ok (s\<lparr>nic := n\<rparr>) = net_ok s" "net_ok (s\<lparr>hw := h\<rparr>) = net_ok s" "net_ok (s\<lparr>arp := a\<rparr>) = net_ok s"
  "net_ok (s\<lparr>udp_tx_identification := x\<rparr>) = net_ok s" "net_ok (s\<lparr>tasks := T\<rparr>) = net_ok s"
  by (simp_all add: net_ok_def sockets_ok_def)








section \<open>The card\<close>

lemma e1k_write_net [simp]: "net_ok (e1k_write C reg v s) = net_ok s"
  by (simp add: e1k_write_def outl_def Let_def)

lemma e1k_read_net [simp]: "net_ok (snd (e1k_read C reg s)) = net_ok s"
  by (simp add: e1k_read_def inl_def Let_def)

lemma nic_dma_net [simp]: "net_ok (nic_dma C s) = net_ok s"
  by (simp add: nic_dma_def)

lemma wait_dd_net [simp]: "net_ok (snd (wait_dd C cur n s)) = net_ok s"
  by (induction n arbitrary: s) (simp_all add: Let_def)

lemma e1k_send_net [simp]: "net_ok (snd (e1k_send C frame s)) = net_ok s"
  by (simp add: e1k_send_def e1k_mmio_post_def case_prod_unfold Let_def)

section \<open>Received frames\<close>












section \<open>Sending\<close>










section \<open>Socket calls\<close>















section \<open>Every history\<close>









end
