(* ===== verification/Fat16.thy ===== *)
theory Fat16
  imports Net
begin

text \<open>
  Disk and file system: the ATA driver of \<^verbatim>\<open>stage2/dev/disk.c\<close> and the read-only FAT16 file system of
  \<^verbatim>\<open>stage2/fat16.c\<close>. The drive is the \<open>device\<close> behind the ports. Sectors, directory entries and file
  contents are byte lists; the buffers are allocated and freed in the heap model, and as \<^verbatim>\<open>kmalloc\<close>
  clears what it returns, the part of a buffer that a failed transfer leaves unwritten is zero.
  \<^verbatim>\<open>current_driver\<close> says whether the FAT16 driver is registered with the descriptor layer; it is the
  only driver there is.
\<close>

section \<open>State\<close>

record fat16_file_t =
  f_path :: "u8 list"
  f_start_cluster :: u16
  f_size :: u32
  f_offset :: u32
  f_used :: bool
  f_refs :: u32

record BPB_t =
  jmpBoot :: "u8 list"
  OEMName :: "u8 list"
  BytsPerSec :: u16
  SecPerClus :: u8
  RsvdSecCnt :: u16
  NumFATs :: u8
  RootEntCnt :: u16
  TotSec16 :: u16
  Media :: u8
  FATSz16 :: u16
  SecPerTrk :: u16
  NumHeads :: u16
  HiddSec :: u32
  TotSec32 :: u32

record dir_t =
  d_Name :: "u8 list"
  d_Attr :: u8
  d_FstClusLO :: u16
  d_FileSize :: u32

record lfn_entry_t =
  Name1 :: "u16 list"
  Name2 :: "u16 list"
  Name3 :: "u16 list"

record fs_st = net_st +
  disk_mutex :: bool
  disk_mutex_addr :: u32
  g_bpb :: BPB_t
  g_part_offset :: u32
  open_files :: "fat16_file_t list"
  current_driver :: bool

section \<open>The ATA driver\<close>

partial_function (option) disk_lock :: "('a fs_st_scheme) env \<Rightarrow> 'a fs_st_scheme \<Rightarrow> 'a fs_st_scheme option" where
  "disk_lock E s =
     (if disk_mutex s
      then do { b \<leftarrow> scheduler_block (disk_mutex_addr s) (env_esp E) s;
                s2 \<leftarrow> env_others E (snd b);
                disk_lock E s2 }
      else Some (s\<lparr>disk_mutex := True\<rparr>))"

definition disk_unlock :: "'a fs_st_scheme \<Rightarrow> 'a fs_st_scheme option" where
  "disk_unlock s = scheduler_wake (disk_mutex_addr s) (s\<lparr>disk_mutex := False\<rparr>)"

partial_function (option) ata_wait_busy_clear :: "device \<Rightarrow> 'a bus_st_scheme \<Rightarrow> 'a bus_st_scheme option" where
  "ata_wait_busy_clear D s =
     (if fst (inb D 0x1F7 s) AND 0x80 \<noteq> 0 then ata_wait_busy_clear D (snd (inb D 0x1F7 s)) else Some (snd (inb D 0x1F7 s)))"

text \<open>The polling loop for one sector with \<open>n\<close> attempts left: whether the sector is ready.\<close>

fun ata_poll :: "device \<Rightarrow> nat \<Rightarrow> 'a bus_st_scheme \<Rightarrow> bool \<times> 'a bus_st_scheme" where
  "ata_poll D 0 s = (False, s)"
| "ata_poll D (Suc n) s =
     (let (status, s) = inb D 0x1F7 s in
      if status AND 0x01 \<noteq> 0 then (False, s)
      else if n = 0 then (False, s)
      else if status AND 0x88 \<noteq> 0x08 then ata_poll D n s
      else (True, s))"

text \<open>The sectors that arrive; an error or a time-out ends the transfer.\<close>

fun ata_sectors :: "device \<Rightarrow> nat \<Rightarrow> 'a bus_st_scheme \<Rightarrow> u8 list \<times> 'a bus_st_scheme" where
  "ata_sectors D 0 s = ([], s)"
| "ata_sectors D (Suc n) s =
     (let (ok, s) = ata_poll D 10000000 s in
      if \<not> ok then ([], s)
      else let (bytes, s) = insw D 0x1F0 256 s; (rest, s) = ata_sectors D n s in (bytes @ rest, s))"

definition ata_command :: "device \<Rightarrow> u32 \<Rightarrow> u8 \<Rightarrow> u8 \<Rightarrow> 'a bus_st_scheme \<Rightarrow> 'a bus_st_scheme" where
  "ata_command D lba sector_count drive s =
     (let drive_select = (if drive AND 1 \<noteq> 0 then 0xF0 else 0xE0 :: u8);
          s = outb D 0x1F6 (drive_select OR (ucast (drop_bit 24 lba) AND 0x0F)) s;
          s = outb D 0x1F2 sector_count s;
          s = outb D 0x1F3 (ucast lba) s;
          s = outb D 0x1F4 (ucast (drop_bit 8 lba)) s;
          s = outb D 0x1F5 (ucast (drop_bit 16 lba)) s
      in outb D 0x1F7 0x20 s)"

definition ata_lba_read ::
    "('a fs_st_scheme) env \<Rightarrow> device \<Rightarrow> u32 \<Rightarrow> u8 \<Rightarrow> u8 \<Rightarrow> 'a fs_st_scheme \<Rightarrow> (u8 list \<times> 'a fs_st_scheme) option" where
  "ata_lba_read E D lba sector_count drive s =
     do { s \<leftarrow> disk_lock E s;
          s \<leftarrow> ata_wait_busy_clear D s;
          let (bytes, s) = ata_sectors D (unat sector_count) (ata_command D lba sector_count drive s);
          s \<leftarrow> disk_unlock s;
          Some (bytes, s) }"

section \<open>Reading bytes\<close>

text \<open>The bytes read; \<open>None\<close> inside the result is the return value \<^verbatim>\<open>false\<close>.\<close>

definition read_bytes ::
    "('a fs_st_scheme) env \<Rightarrow> device \<Rightarrow> u32 \<Rightarrow> u32 \<Rightarrow> 'a fs_st_scheme \<Rightarrow> (u8 list option \<times> 'a fs_st_scheme) option" where
  "read_bytes E D part_offset len s =
     (let start_lba = part_offset div 512;
          end_lba = (part_offset + len - 1) div 512;
          n = end_lba - start_lba + 1
      in do { (tmp, s) \<leftarrow> kmalloc (n * 512) s;
              if tmp = 0 then Some (None, s)
              else do { (bytes, s) \<leftarrow> ata_lba_read E D start_lba (ucast n) 0 s;
                        let buf = bytes @ replicate (unat (n * 512) - length bytes) 0;
                        s \<leftarrow> kfree tmp s;
                        Some (Some (take (unat len) (drop (unat (part_offset mod 512)) buf)), s) } })"

definition BPB_FAT_addr :: "BPB_t \<Rightarrow> u32" where
  "BPB_FAT_addr bpb = ucast (RsvdSecCnt bpb) * ucast (BytsPerSec bpb)"

definition BPB_Root_addr :: "BPB_t \<Rightarrow> u32" where
  "BPB_Root_addr bpb = BPB_FAT_addr bpb + ucast (NumFATs bpb) * ucast (FATSz16 bpb) * ucast (BytsPerSec bpb)"

definition BPB_Data_addr :: "BPB_t \<Rightarrow> u32" where
  "BPB_Data_addr bpb = BPB_Root_addr bpb + ucast (RootEntCnt bpb) * 32"

definition get32 :: "u8 list \<Rightarrow> nat \<Rightarrow> u32" where
  "get32 bs i = ucast (get16 bs i) OR push_bit 16 (ucast (get16 bs (i + 2)))"

definition get_next_cluster ::
    "('a fs_st_scheme) env \<Rightarrow> device \<Rightarrow> u32 \<Rightarrow> BPB_t \<Rightarrow> u16 \<Rightarrow> 'a fs_st_scheme \<Rightarrow> (u16 \<times> 'a fs_st_scheme) option" where
  "get_next_cluster E D part_offset bpb cluster s =
     do { (r, s) \<leftarrow> read_bytes E D (part_offset + BPB_FAT_addr bpb + ucast cluster * 2) 2 s;
          val \<leftarrow> r;
          Some (get16 val 0, s) }"

section \<open>Directories\<close>

definition BPB_of :: "u8 list \<Rightarrow> BPB_t" where
  "BPB_of b = \<lparr>jmpBoot = slice b 0 3, OEMName = slice b 3 8, BytsPerSec = get16 b 11, SecPerClus = b ! 13,
     RsvdSecCnt = get16 b 14, NumFATs = b ! 16, RootEntCnt = get16 b 17, TotSec16 = get16 b 19, Media = b ! 21,
     FATSz16 = get16 b 22, SecPerTrk = get16 b 24, NumHeads = get16 b 26, HiddSec = get32 b 28, TotSec32 = get32 b 32\<rparr>"

text \<open>The fields of a 32-byte directory entry that the driver uses, and its reading as a long-name entry.\<close>

definition dir_of :: "u8 list \<Rightarrow> dir_t" where
  "dir_of e = \<lparr>d_Name = slice e 0 11, d_Attr = e ! 11, d_FstClusLO = get16 e 26, d_FileSize = get32 e 28\<rparr>"

definition lfn_of :: "u8 list \<Rightarrow> lfn_entry_t" where
  "lfn_of e = \<lparr>Name1 = map (\<lambda>j. get16 e (1 + 2 * j)) [0..<5], Name2 = map (\<lambda>j. get16 e (14 + 2 * j)) [0..<6],
     Name3 = map (\<lambda>j. get16 e (28 + 2 * j)) [0..<2]\<rparr>"

text \<open>One of the three loops over a field of a long-name entry: whether the name is complete, and the name.\<close>

fun lfn_field :: "nat \<Rightarrow> u16 list \<Rightarrow> u8 list \<Rightarrow> bool \<times> u8 list" where
  "lfn_field outsize [] out = (False, out)"
| "lfn_field outsize (c # cs) out =
     (if c = 0 \<or> c = 0xFFFF \<or> outsize - 1 \<le> length out then (True, out)
      else lfn_field outsize cs (out @ [ucast c]))"

fun lfn_loop :: "nat \<Rightarrow> lfn_entry_t list \<Rightarrow> u8 list \<Rightarrow> u8 list" where
  "lfn_loop outsize [] out = out"
| "lfn_loop outsize (e # es) out =
     (let (finished, out) = lfn_field outsize (Name1 e) out in
      if finished then out
      else let (finished, out) = lfn_field outsize (Name2 e) out in
      if finished then out
      else let (finished, out) = lfn_field outsize (Name3 e) out in
      if finished then out
      else lfn_loop outsize es out)"

definition get_lfn_name :: "lfn_entry_t list \<Rightarrow> nat \<Rightarrow> u8 list" where
  "get_lfn_name lfn_entries outsize = lfn_loop outsize (rev lfn_entries) []"

definition blank_to_nul :: "u8 list \<Rightarrow> u8 list" where
  "blank_to_nul = map (\<lambda>c. if c = 32 then 0 else c)"

definition get_file_name :: "dir_t \<Rightarrow> lfn_entry_t list \<Rightarrow> nat \<Rightarrow> u8 list" where
  "get_file_name dir lfn_entries outsize =
     (if lfn_entries \<noteq> [] then get_lfn_name lfn_entries outsize
      else let name = takeWhile (\<lambda>c. c \<noteq> 0) (blank_to_nul (take 8 (d_Name dir)));
               ext = takeWhile (\<lambda>c. c \<noteq> 0) (blank_to_nul (take 3 (drop 8 (d_Name dir))));
               out = take (outsize - 1) name
           in if ext \<noteq> [] \<and> length out < outsize - 1 then take (outsize - 1) (out @ [46] @ ext) else out)"

text \<open>The entries of a directory buffer in order; \<open>lfns\<close> are the long-name entries collected so far.\<close>

fun scan_entries :: "u8 list list \<Rightarrow> lfn_entry_t list \<Rightarrow> u8 list \<Rightarrow> dir_t option option" where
  "scan_entries [] lfns target_name = Some None"
| "scan_entries (e # es) lfns target_name =
     (let dir = dir_of e in
      if d_Name dir ! 0 = 0 then Some None
      else if d_Name dir ! 0 = 0xE5 then scan_entries es [] target_name
      else if d_Attr dir = 0x0F then scan_entries es (if length lfns < 20 then lfns @ [lfn_of e] else lfns) target_name
      else if d_Attr dir AND 0x10 = 0
      then do { r \<leftarrow> strcasecmp (Some (cstr_of (get_file_name dir lfns 256))) (Some (cstr_of target_name));
                if r = 0 then Some (Some dir) else scan_entries es [] target_name }
      else scan_entries es [] target_name)"

definition dir_entries :: "u8 list \<Rightarrow> u8 list list" where
  "dir_entries buffer = map (\<lambda>i. slice buffer (32 * i) 32) [0..<length buffer div 32]"

definition cluster_size :: "'a fs_st_scheme \<Rightarrow> u32" where
  "cluster_size s = ucast (BytsPerSec (g_bpb s)) * ucast (SecPerClus (g_bpb s))"

definition cluster_offset :: "u16 \<Rightarrow> 'a fs_st_scheme \<Rightarrow> u32" where
  "cluster_offset cluster s = g_part_offset s + BPB_Data_addr (g_bpb s) + (ucast cluster - 2) * cluster_size s"

partial_function (option) find_loop ::
    "('a fs_st_scheme) env \<Rightarrow> device \<Rightarrow> u16 \<Rightarrow> u8 list \<Rightarrow> u16 \<Rightarrow> 'a fs_st_scheme \<Rightarrow> (dir_t option \<times> 'a fs_st_scheme) option" where
  "find_loop E D start_cluster target_name cluster s =
     do { r \<leftarrow> read_bytes E D (if cluster = 0 then g_part_offset s + BPB_Root_addr (g_bpb s) else cluster_offset cluster s)
            (if cluster = 0 then ucast (RootEntCnt (g_bpb s)) * 32 else cluster_size s) s;
          case fst r of
            None \<Rightarrow> Some (None, snd r)
          | Some buffer \<Rightarrow>
              do { found \<leftarrow> scan_entries (dir_entries buffer) [] target_name;
                   if found \<noteq> None then Some (found, snd r)
                   else if start_cluster = 0 then Some (None, snd r)
                   else do { c \<leftarrow> get_next_cluster E D (g_part_offset (snd r)) (g_bpb (snd r)) cluster (snd r);
                             if fst c < 0xFFF8 then find_loop E D start_cluster target_name (fst c) (snd c)
                             else Some (None, snd c) } } }"

definition find_file_in_dir ::
    "('a fs_st_scheme) env \<Rightarrow> device \<Rightarrow> u16 \<Rightarrow> u8 list \<Rightarrow> 'a fs_st_scheme \<Rightarrow> (dir_t option \<times> 'a fs_st_scheme) option" where
  "find_file_in_dir E D start_cluster target_name s =
     do { (buffer, s) \<leftarrow> kmalloc (if start_cluster = 0 then ucast (RootEntCnt (g_bpb s)) * 32 else cluster_size s) s;
          if buffer = 0 then Some (None, s)
          else do { (found, s) \<leftarrow> find_loop E D start_cluster target_name start_cluster s;
                    s \<leftarrow> kfree buffer s;
                    Some (found, s) } }"

section \<open>Files\<close>

text \<open>Leading slashes and \<^verbatim>\<open>./\<close> are skipped.\<close>

function normalize_path :: "u8 list \<Rightarrow> u8 list" where
  "normalize_path [] = []"
| "normalize_path (c # p) =
     (if c = 47 then normalize_path p
      else if c = 46 \<and> p \<noteq> [] \<and> hd p = 47 then normalize_path (tl p)
      else c # p)"
  by pat_completeness auto
termination by (relation "measure length") auto

abbreviation upd_file :: "nat \<Rightarrow> (fat16_file_t \<Rightarrow> fat16_file_t) \<Rightarrow> 'a fs_st_scheme \<Rightarrow> 'a fs_st_scheme" where
  "upd_file i f s \<equiv> s\<lparr>open_files := (open_files s)[i := f (open_files s ! i)]\<rparr>"

definition fat16_open ::
    "('a fs_st_scheme) env \<Rightarrow> device \<Rightarrow> u8 list option \<Rightarrow> 'a fs_st_scheme \<Rightarrow> (int \<times> 'a fs_st_scheme) option" where
  "fat16_open E D path s =
     (case path of
        None \<Rightarrow> Some (- 1, s)
      | Some path \<Rightarrow>
          if path = [] then Some (- 1, s)
          else let fname = normalize_path path in
            do { (found, s) \<leftarrow> find_file_in_dir E D 0 fname s;
                 case found of
                   None \<Rightarrow> Some (- 1, s)
                 | Some dir \<Rightarrow>
                     (case filter (\<lambda>i. \<not> f_used (open_files s ! i)) [0..<8] of
                        [] \<Rightarrow> Some (- 1, s)
                      | i # _ \<Rightarrow> Some (int i, upd_file i (\<lambda>_. \<lparr>f_path = take 255 fname, f_start_cluster = d_FstClusLO dir,
                          f_size = d_FileSize dir, f_offset = 0, f_used = True, f_refs = 1\<rparr>) s)) })"

definition fd_ok :: "int \<Rightarrow> 'a fs_st_scheme \<Rightarrow> bool" where
  "fd_ok fd s \<longleftrightarrow> \<not> (fd < 0 \<or> 8 \<le> fd \<or> \<not> f_used (open_files s ! nat fd))"

definition fat16_dup :: "int \<Rightarrow> 'a fs_st_scheme \<Rightarrow> int \<times> 'a fs_st_scheme" where
  "fat16_dup fd s =
     (if \<not> fd_ok fd s then (- 1, s) else (fd, upd_file (nat fd) (\<lambda>f. f\<lparr>f_refs := f_refs f + 1\<rparr>) s))"

definition fat16_close :: "int \<Rightarrow> 'a fs_st_scheme \<Rightarrow> int \<times> 'a fs_st_scheme" where
  "fat16_close fd s =
     (if \<not> fd_ok fd s then (- 1, s)
      else let s = upd_file (nat fd) (\<lambda>f. f\<lparr>f_refs := f_refs f - 1\<rparr>) s in
        if 0 < f_refs (open_files s ! nat fd) then (0, s)
        else (0, upd_file (nat fd) (\<lambda>f. f\<lparr>f_used := False\<rparr>) s))"

fun skip_clusters ::
    "('a fs_st_scheme) env \<Rightarrow> device \<Rightarrow> nat \<Rightarrow> u16 \<Rightarrow> 'a fs_st_scheme \<Rightarrow> (u16 option \<times> 'a fs_st_scheme) option" where
  "skip_clusters E D 0 cluster s = Some (Some cluster, s)"
| "skip_clusters E D (Suc n) cluster s =
     do { (cluster, s) \<leftarrow> get_next_cluster E D (g_part_offset s) (g_bpb s) cluster s;
          if 0xFFF8 \<le> cluster then Some (None, s) else skip_clusters E D n cluster s }"

text \<open>The copy loop: \<open>acc\<close> are the bytes copied so far.\<close>

partial_function (option) read_loop ::
    "('a fs_st_scheme) env \<Rightarrow> device \<Rightarrow> u16 \<Rightarrow> nat \<Rightarrow> nat \<Rightarrow> u8 list \<Rightarrow> 'a fs_st_scheme \<Rightarrow> (u8 list \<times> 'a fs_st_scheme) option" where
  "read_loop E D cluster offset_in_cluster to_read acc s =
     (if 0 < to_read \<and> cluster < 0xFFF8
      then do { r \<leftarrow> read_bytes E D (cluster_offset cluster s) (cluster_size s) s;
                case fst r of
                  None \<Rightarrow> Some (acc, snd r)
                | Some tmp \<Rightarrow>
                    let n = unat (cluster_size s) - offset_in_cluster;
                        copy = (if to_read < n then to_read else n);
                        acc = acc @ take copy (drop offset_in_cluster tmp);
                        to_read = to_read - copy
                    in if 0 < to_read
                       then do { c \<leftarrow> get_next_cluster E D (g_part_offset (snd r)) (g_bpb (snd r)) cluster (snd r);
                                 read_loop E D (fst c) 0 to_read acc (snd c) }
                       else read_loop E D cluster 0 to_read acc (snd r) }
      else Some (acc, s))"

text \<open>
  The return value and the bytes stored in the buffer. A cluster size of zero is a division by zero.
\<close>

definition fat16_read ::
    "('a fs_st_scheme) env \<Rightarrow> device \<Rightarrow> int \<Rightarrow> nat \<Rightarrow> 'a fs_st_scheme \<Rightarrow> (int \<times> u8 list \<times> 'a fs_st_scheme) option" where
  "fat16_read E D fd sz s =
     (if \<not> fd_ok fd s then Some (- 1, [], s)
      else if sz = 0 then Some (0, [], s)
      else let f = open_files s ! nat fd in
        if f_size f \<le> f_offset f then Some (0, [], s)
        else if cluster_size s = 0 then None
        else let csz = cluster_size s;
                 remaining = unat (f_size f - f_offset f);
                 sz = (if remaining < sz then remaining else sz)
             in do { (c, s) \<leftarrow> skip_clusters E D (unat (f_offset f div csz)) (f_start_cluster f) s;
                     case c of
                       None \<Rightarrow> Some (- 1, [], s)
                     | Some cluster \<Rightarrow>
                         do { (tmp, s) \<leftarrow> kmalloc csz s;
                              if tmp = 0 then Some (- 1, [], s)
                              else do { (bytes, s) \<leftarrow> read_loop E D cluster (unat (f_offset f mod csz)) sz [] s;
                                        s \<leftarrow> kfree tmp s;
                                        Some (int (length bytes), bytes,
                                          upd_file (nat fd) (\<lambda>f. f\<lparr>f_offset := f_offset f + of_nat (length bytes)\<rparr>) s) } } })"

definition fat16_write :: "int \<Rightarrow> u8 list \<Rightarrow> 'a fs_st_scheme \<Rightarrow> int \<times> 'a fs_st_scheme" where
  "fat16_write fd buffer s = (- 1, s)"

text \<open>No check of the number: outside the table the access is undefined.\<close>

definition fat16_get_size :: "int \<Rightarrow> 'a fs_st_scheme \<Rightarrow> u32 option" where
  "fat16_get_size fd s = (if 0 \<le> fd \<and> fd < 8 then Some (f_size (open_files s ! nat fd)) else None)"

definition zero_file :: fat16_file_t where
  "zero_file = \<lparr>f_path = [], f_start_cluster = 0, f_size = 0, f_offset = 0, f_used = False, f_refs = 0\<rparr>"

text \<open>The start of the first FAT16 partition in the master boot record, or 0.\<close>

definition find_partition :: "u8 list \<Rightarrow> u32" where
  "find_partition mbr =
     (case filter (\<lambda>i. let type = mbr ! (446 + i * 16 + 4) in type = 0x04 \<or> type = 0x06 \<or> type = 0x0E) [0..<4] of
        [] \<Rightarrow> 0
      | i # _ \<Rightarrow> get32 mbr (446 + i * 16 + 8))"

definition register_vfs_driver :: "'a fs_st_scheme \<Rightarrow> 'a fs_st_scheme" where
  "register_vfs_driver s = s\<lparr>current_driver := True\<rparr>"

definition fat16_init :: "('a fs_st_scheme) env \<Rightarrow> device \<Rightarrow> 'a fs_st_scheme \<Rightarrow> 'a fs_st_scheme option" where
  "fat16_init E D s =
     do { (mbr, s) \<leftarrow> kmalloc 512 (s\<lparr>open_files := replicate 8 zero_file\<rparr>);
          if mbr = 0 then Some s
          else do { (r, s) \<leftarrow> read_bytes E D 0 512 s;
                    s \<leftarrow> kfree mbr s;
                    case r of
                      None \<Rightarrow> Some s
                    | Some bytes \<Rightarrow>
                        let start_lba = find_partition bytes in
                        if start_lba = 0 then Some s
                        else do { (sector0, s) \<leftarrow> kmalloc 512 (s\<lparr>g_part_offset := start_lba * 512\<rparr>);
                                  if sector0 = 0 then Some s
                                  else do { (r, s) \<leftarrow> read_bytes E D (g_part_offset s) 512 s;
                                            case r of
                                              None \<Rightarrow> kfree sector0 s
                                            | Some bytes \<Rightarrow>
                                                do { s \<leftarrow> kfree sector0 (s\<lparr>g_bpb := BPB_of bytes\<rparr>);
                                                     Some (register_vfs_driver s) } } } } }"

end
