(* ===== verification/Volume.thy ===== *)
theory Volume
  imports Fat16
begin

text \<open>
  What the disk driver and the FAT16 file system return: against a drive that behaves as the ATA
  specification says, the driver transfers the addressed sectors, and against a volume laid out as FAT16
  prescribes, the file system reads the bytes of its files.
\<close>

section \<open>A drive that answers\<close>

text \<open>
  What the driver relies on, the documented behaviour of an ATA drive in programmed input and output, for
  drive 0 of the channel and 28-bit addresses. The status register says busy (\<^verbatim>\<open>BSY\<close>) for \<open>a_wait\<close> more reads
  and, when it does not, whether data is ready (\<^verbatim>\<open>DRQ\<close>). The other registers take what is written to them only
  while neither bit is set. So does the command register; \<^verbatim>\<open>READ SECTORS\<close> in addition needs drive 0 selected, the
  address bits taken as a sector number, and sectors that the drive has; a count of 0 stands for 256. The drive
  may be busy then, and the data register gives the bytes of the sectors, two per read, only while the drive is not busy;
  after each sector it may be busy again. What happens outside of these conditions is left open, and so is
  what a command leaves in the registers. \<open>img\<close> is the contents of the disk by byte, \<open>cap\<close> its number
  of sectors, and \<open>view\<close> reads the drive off the hardware state. That no command fails, and that the drive is never busy
  for as long as the time-out of the driver, is part of the assumption.
\<close>

record ata_t =
  a_sel :: u8
  a_count :: u8
  a_lo :: u8
  a_mid :: u8
  a_hi :: u8
  a_data :: "u8 list"
  a_wait :: nat

definition a_idle :: "ata_t \<Rightarrow> bool" where
  "a_idle a \<longleftrightarrow> a_wait a = 0 \<and> a_data a = []"

definition a_selected :: "ata_t \<Rightarrow> bool" where
  "a_selected a \<longleftrightarrow> \<not> bit (a_sel a) 4 \<and> bit (a_sel a) 6"

definition a_lba :: "ata_t \<Rightarrow> nat" where
  "a_lba a = unat (a_lo a) + 256 * unat (a_mid a) + 65536 * unat (a_hi a) + 16777216 * (unat (a_sel a) mod 16)"

definition a_number :: "ata_t \<Rightarrow> nat" where
  "a_number a = (if a_count a = 0 then 256 else unat (a_count a))"

definition a_sectors :: "(nat \<Rightarrow> u8) \<Rightarrow> ata_t \<Rightarrow> u8 list" where
  "a_sectors img a = map img [512 * a_lba a..<512 * (a_lba a + a_number a)]"

definition ata_drive :: "(nat \<Rightarrow> u8) \<Rightarrow> nat \<Rightarrow> (nat \<Rightarrow> ata_t) \<Rightarrow> device \<Rightarrow> bool" where
  "ata_drive img cap view D \<longleftrightarrow>
     (\<forall>h. a_wait (view h) < 9999999) \<and>
     (\<forall>h v. a_idle (view h) \<longrightarrow>
       view (dev_out D W8 0x1F6 v h) = (view h)\<lparr>a_sel := ucast v\<rparr> \<and>
       view (dev_out D W8 0x1F2 v h) = (view h)\<lparr>a_count := ucast v\<rparr> \<and>
       view (dev_out D W8 0x1F3 v h) = (view h)\<lparr>a_lo := ucast v\<rparr> \<and>
       view (dev_out D W8 0x1F4 v h) = (view h)\<lparr>a_mid := ucast v\<rparr> \<and>
       view (dev_out D W8 0x1F5 v h) = (view h)\<lparr>a_hi := ucast v\<rparr>) \<and>
     (\<forall>h. a_idle (view h) \<and> a_selected (view h) \<and> a_lba (view h) + a_number (view h) \<le> cap \<longrightarrow>
       a_data (view (dev_out D W8 0x1F7 0x20 h)) = a_sectors img (view h)) \<and>
     (\<forall>h. view (snd (dev_in D W8 0x1F7 h)) = (view h)\<lparr>a_wait := a_wait (view h) - 1\<rparr> \<and>
       fst (dev_in D W8 0x1F7 h) AND 0x89 = (if 0 < a_wait (view h) then 0x80 else if a_data (view h) = [] then 0 else 0x08)) \<and>
     (\<forall>h b c bs. a_wait (view h) = 0 \<and> a_data (view h) = b # c # bs \<longrightarrow>
       fst (dev_in D W16 0x1F0 h) = ucast b OR push_bit 8 (ucast c) \<and>
       a_data (view (snd (dev_in D W16 0x1F0 h))) = bs \<and>
       (length bs mod 512 \<noteq> 0 \<longrightarrow> a_wait (view (snd (dev_in D W16 0x1F0 h))) = 0))"

lemma status_bits:
  fixes x :: u32
  assumes "x AND 0x89 = (if p then 0x80 else if q then 0 else 0x08)"
  shows "(ucast x :: u8) AND 0x80 \<noteq> 0 \<longleftrightarrow> p" "(ucast x :: u8) AND 0x01 = 0" "(ucast x :: u8) AND 0x88 = 0x08 \<longleftrightarrow> \<not> p \<and> \<not> q"
proof -
  have e: "(ucast x :: u8) AND ucast m = ucast ((x AND 0x89) AND m)" if "0x89 AND m = m" for m
    using that by (simp add: and.assoc flip: unsigned_and_eq)
  have "(ucast x :: u8) AND 0x80 = ucast ((x AND 0x89) AND 0x80)" "(ucast x :: u8) AND 0x01 = ucast ((x AND 0x89) AND 0x01)"
    "(ucast x :: u8) AND 0x88 = ucast ((x AND 0x89) AND 0x88)"
    using e [of "0x80"] e [of "0x01"] e [of "0x88"] by simp_all
  then show "(ucast x :: u8) AND 0x80 \<noteq> 0 \<longleftrightarrow> p" "(ucast x :: u8) AND 0x01 = 0" "(ucast x :: u8) AND 0x88 = 0x08 \<longleftrightarrow> \<not> p \<and> \<not> q"
    unfolding assms by (simp_all split: if_splits)
qed


lemmas drive_simps = ata_drive_def outb_def inb_def

lemma drive_wait: "ata_drive img cap view D \<Longrightarrow> a_wait (view h) < 9999999"
  by (simp add: ata_drive_def)

lemma drive_status:
  assumes "ata_drive img cap view D"
  shows "\<exists>h'. inb D 0x1F7 s = (ucast (fst (dev_in D W8 0x1F7 (hw s))), s\<lparr>hw := h'\<rparr>) \<and>
    view h' = (view (hw s))\<lparr>a_wait := a_wait (view (hw s)) - 1\<rparr>"
  using assms by (intro exI [of _ "snd (dev_in D W8 0x1F7 (hw s))"]) (simp add: drive_simps)

lemma drive_status_bits:
  assumes "ata_drive img cap view D"
  shows "fst (inb D 0x1F7 s) AND 0x80 \<noteq> 0 \<longleftrightarrow> 0 < a_wait (view (hw s))" "fst (inb D 0x1F7 s) AND 0x01 = 0"
    "fst (inb D 0x1F7 s) AND 0x88 = 0x08 \<longleftrightarrow> a_wait (view (hw s)) = 0 \<and> a_data (view (hw s)) \<noteq> []"
proof -
  have "fst (dev_in D W8 0x1F7 (hw s)) AND 0x89 =
      (if 0 < a_wait (view (hw s)) then 0x80 else if a_data (view (hw s)) = [] then 0 else 0x08)"
    using assms by (simp add: ata_drive_def)
  from status_bits [OF this] show "fst (inb D 0x1F7 s) AND 0x80 \<noteq> 0 \<longleftrightarrow> 0 < a_wait (view (hw s))"
      "fst (inb D 0x1F7 s) AND 0x01 = 0"
      "fst (inb D 0x1F7 s) AND 0x88 = 0x08 \<longleftrightarrow> a_wait (view (hw s)) = 0 \<and> a_data (view (hw s)) \<noteq> []"
    by (simp_all add: inb_def)
qed

lemma busy_clear:
  assumes "ata_drive img cap view D"
  shows "\<exists>h'. ata_wait_busy_clear D s = Some (s\<lparr>hw := h'\<rparr>) \<and> view h' = (view (hw s))\<lparr>a_wait := 0\<rparr>"
proof (induction "a_wait (view (hw s))" arbitrary: s)
  case 0
  then have "\<not> fst (inb D 0x1F7 s) AND 0x80 \<noteq> 0" unfolding drive_status_bits(1) [OF assms] by simp
  then show ?case
    using drive_status [OF assms, of s] 0 by (subst ata_wait_busy_clear.simps) auto
next
  case (Suc n)
  then have b: "fst (inb D 0x1F7 s) AND 0x80 \<noteq> 0" unfolding drive_status_bits(1) [OF assms] by simp
  obtain h' where h': "snd (inb D 0x1F7 s) = s\<lparr>hw := h'\<rparr>" "view h' = (view (hw s))\<lparr>a_wait := a_wait (view (hw s)) - 1\<rparr>"
    using drive_status [OF assms, of s] by auto
  then obtain h'' where "ata_wait_busy_clear D (s\<lparr>hw := h'\<rparr>) = Some (s\<lparr>hw := h'\<rparr>\<lparr>hw := h''\<rparr>)" "view h'' = (view h')\<lparr>a_wait := 0\<rparr>"
    using Suc(1) [of "s\<lparr>hw := h'\<rparr>"] by (auto simp: Suc(2) [symmetric])
  then show ?case using b h' by (subst ata_wait_busy_clear.simps) auto
qed

lemma poll_ready:
  assumes "ata_drive img cap view D"
  shows "a_wait (view (hw s)) + 1 < n \<Longrightarrow> a_data (view (hw s)) \<noteq> [] \<Longrightarrow>
    \<exists>h'. ata_poll D n s = (True, s\<lparr>hw := h'\<rparr>) \<and> a_data (view h') = a_data (view (hw s)) \<and> a_wait (view h') = 0"
proof (induction n arbitrary: s)
  case (Suc n)
  obtain st h' where h': "inb D 0x1F7 s = (st, s\<lparr>hw := h'\<rparr>)" "view h' = (view (hw s))\<lparr>a_wait := a_wait (view (hw s)) - 1\<rparr>"
    using drive_status [OF assms, of s] by auto
  have st: "st AND 0x01 = 0" "st AND 0x88 = 0x08 \<longleftrightarrow> a_wait (view (hw s)) = 0"
    using drive_status_bits(2,3) [OF assms, of s] Suc.prems h' by simp_all
  show ?case
  proof (cases "a_wait (view (hw s))")
    case 0
    then show ?thesis using h' st Suc.prems by auto
  next
    case (Suc w)
    then show ?thesis using h' st Suc.prems Suc.IH [of "s\<lparr>hw := h'\<rparr>"] by auto
  qed
qed simp

text \<open>Within a sector the drive stays ready, so that its words can be read one after the other.\<close>

lemma insw_data:
  assumes "ata_drive img cap view D" "length rest mod 512 = 0"
  shows "a_data (view (hw s)) = bs @ rest \<Longrightarrow> length bs = 2 * n \<Longrightarrow> n \<le> 256 \<Longrightarrow> n = 0 \<or> a_wait (view (hw s)) = 0 \<Longrightarrow>
    \<exists>h'. insw D 0x1F0 n s = (bs, s\<lparr>hw := h'\<rparr>) \<and> a_data (view h') = rest"
proof (induction n arbitrary: s bs)
  case 0
  then have "insw D 0x1F0 0 s = (bs, s\<lparr>hw := hw s\<rparr>)" "a_data (view (hw s)) = rest" by simp_all
  then show ?case by blast
next
  case (Suc n)
  have "length bs = Suc (Suc (2 * n))" using Suc.prems(2) by simp
  then obtain b c bs' where bs: "bs = b # c # bs'" "length bs' = 2 * n" by (auto simp: length_Suc_conv)
  define w where "w = fst (dev_in D W16 0x1F0 (hw s))"
  define h' where "h' = snd (dev_in D W16 0x1F0 (hw s))"
  have "a_wait (view (hw s)) = 0 \<and> a_data (view (hw s)) = b # c # bs' @ rest" using Suc.prems bs(1) by simp
  with assms(1) have h': "w = ucast b OR push_bit 8 (ucast c)" "a_data (view h') = bs' @ rest"
      "length (bs' @ rest) mod 512 \<noteq> 0 \<longrightarrow> a_wait (view h') = 0"
    unfolding ata_drive_def w_def h'_def by blast+
  obtain q where "length rest = 512 * q" using assms(2) by auto
  then have "length (bs' @ rest) mod 512 = 2 * n" using bs(2) Suc.prems(3) by simp
  with h'(3) have wait: "n = 0 \<or> a_wait (view h') = 0" by auto
  have w: "(ucast w :: u8) = b" "(ucast (drop_bit 8 w) :: u8) = c"
    unfolding h'(1) by (rule bit_word_eqI; auto simp: bit_simps dest: bit_imp_le_length)+
  obtain h'' where "insw D 0x1F0 n (s\<lparr>hw := h'\<rparr>) = (bs', s\<lparr>hw := h''\<rparr>)" "a_data (view h'') = rest"
    using Suc.IH [of "s\<lparr>hw := h'\<rparr>" bs'] bs(2) h'(2) wait Suc.prems(3) by auto
  then show ?case using w bs(1) by (auto simp: Let_def w_def [symmetric] h'_def [symmetric])
qed

lemma sectors_data:
  assumes D: "ata_drive img cap view D"
  shows "a_data (view (hw s)) = bs \<Longrightarrow> length bs = 512 * n \<Longrightarrow> \<exists>h'. ata_sectors D n s = (bs, s\<lparr>hw := h'\<rparr>) \<and> a_data (view h') = []"
proof (induction n arbitrary: s bs)
  case 0
  then show ?case by (auto intro!: exI [of _ "hw s"])
next
  case (Suc n)
  have "a_wait (view (hw s)) + 1 < 10000000" using drive_wait [OF D, of "hw s"] by simp
  moreover have "a_data (view (hw s)) \<noteq> []" using Suc.prems by auto
  ultimately obtain h1 where h1: "ata_poll D 10000000 s = (True, s\<lparr>hw := h1\<rparr>)" "a_data (view h1) = bs" "a_wait (view h1) = 0"
    using poll_ready [OF D] Suc.prems by blast
  have "length (drop 512 bs) mod 512 = 0" using Suc.prems by simp
  then obtain h2 where h2: "insw D 0x1F0 256 (s\<lparr>hw := h1\<rparr>) = (take 512 bs, s\<lparr>hw := h2\<rparr>)" "a_data (view h2) = drop 512 bs"
    using insw_data [OF D, of "drop 512 bs" "s\<lparr>hw := h1\<rparr>" "take 512 bs" 256] h1(2,3) Suc.prems by auto
  obtain h3 where "ata_sectors D n (s\<lparr>hw := h2\<rparr>) = (drop 512 bs, s\<lparr>hw := h3\<rparr>)" "a_data (view h3) = []"
    using Suc.IH [of "s\<lparr>hw := h2\<rparr>" "drop 512 bs"] h2(2) Suc.prems by auto
  then show ?case using h1(1) h2(1) by auto
qed

lemma lba_bytes:
  fixes lba :: u32
  assumes "unat lba < 268435456"
  shows "unat (ucast lba :: u8) + 256 * unat (ucast (drop_bit 8 lba) :: u8) + 65536 * unat (ucast (drop_bit 16 lba) :: u8) +
    16777216 * (unat (0xE0 OR (ucast (drop_bit 24 lba) AND 0x0F) :: u8) mod 16) = unat lba"
proof -
  have b: "unat (ucast (drop_bit k lba) :: u8) = unat lba div 2 ^ k mod 256" for k
    by (simp only: unsigned_ucast_eq unsigned_drop_bit_eq) (simp add: take_bit_eq_mod drop_bit_eq_div)
  have "take_bit 4 (0xE0 OR take_bit 4 n) = take_bit 4 n" for n :: nat
    by (simp only: take_bit_or take_bit_take_bit) simp
  moreover have "n AND 15 = take_bit 4 n" for n :: nat by (simp add: take_bit_eq_mask mask_eq_exp_minus_1)
  ultimately have "(0xE0 OR (n AND 15)) mod 16 = n mod 16" for n :: nat by (simp add: take_bit_eq_mod)
  then have "unat (0xE0 OR (x AND 0x0F)) mod 16 = unat x mod 16" for x :: u8
    by (simp only: unsigned_or_eq unsigned_and_eq) simp
  moreover have "n mod 256 + 256 * (n div 256 mod 256) + 65536 * (n div 65536 mod 256) + 16777216 * (n div 16777216) = n" for n :: nat
  proof -
    define p q where "p = n div 256" and "q = p div 256"
    have e: "n div 65536 = q" "n div 16777216 = q div 256" by (simp_all add: p_def q_def flip: div_mult2_eq)
    define a b c r where "a = n mod 256" and "b = p mod 256" and "c = q mod 256" and "r = q div 256"
    have "n = 256 * p + a" "p = 256 * q + b" "q = 256 * r + c" unfolding p_def q_def r_def a_def b_def c_def by simp_all
    then show ?thesis unfolding e p_def [symmetric] a_def [symmetric] b_def [symmetric] c_def [symmetric] r_def [symmetric] by linarith
  qed
  ultimately show ?thesis using b [of 0] b [of 8] b [of 16] b [of 24] assms by simp
qed

lemma drive_select: "a_sel a = 0xE0 OR (x AND 0x0F) \<Longrightarrow> a_selected a"
  by (simp add: a_selected_def bit_simps)

lemma command_data:
  assumes D: "ata_drive img cap view D" and lba: "unat lba < 268435456" and n: "n \<noteq> 0" "unat lba + unat n \<le> cap"
    and s: "a_idle (view (hw s))"
  shows "\<exists>h'. ata_command D lba n 0 s = s\<lparr>hw := h'\<rparr> \<and> a_data (view h') = map img [512 * unat lba..<512 * (unat lba + unat n)]"
proof -
  have uu: "ucast (ucast v :: u32) = v" for v :: u8
    by (rule bit_word_eqI) (auto simp: bit_simps)
  have out: "view (dev_out D W8 0x1F6 (ucast v) h) = (view h)\<lparr>a_sel := v\<rparr>" "view (dev_out D W8 0x1F2 (ucast v) h) = (view h)\<lparr>a_count := v\<rparr>"
    "view (dev_out D W8 0x1F3 (ucast v) h) = (view h)\<lparr>a_lo := v\<rparr>" "view (dev_out D W8 0x1F4 (ucast v) h) = (view h)\<lparr>a_mid := v\<rparr>"
    "view (dev_out D W8 0x1F5 (ucast v) h) = (view h)\<lparr>a_hi := v\<rparr>" if "a_idle (view h)" for h and v :: u8
    using D that by (simp_all add: ata_drive_def uu)
  define h1 where "h1 = dev_out D W8 0x1F6 (ucast (0xE0 OR (ucast (drop_bit 24 lba) AND 0x0F) :: u8)) (hw s)"
  define h2 where "h2 = dev_out D W8 0x1F2 (ucast n) h1"
  define h3 where "h3 = dev_out D W8 0x1F3 (ucast (ucast lba :: u8)) h2"
  define h4 where "h4 = dev_out D W8 0x1F4 (ucast (ucast (drop_bit 8 lba) :: u8)) h3"
  define h5 where "h5 = dev_out D W8 0x1F5 (ucast (ucast (drop_bit 16 lba) :: u8)) h4"
  have 1: "view h1 = (view (hw s))\<lparr>a_sel := 0xE0 OR (ucast (drop_bit 24 lba) AND 0x0F)\<rparr>" unfolding h1_def by (rule out(1) [OF s])
  have i1: "a_idle (view h1)" using s by (simp add: 1 a_idle_def)
  have 2: "view h2 = (view h1)\<lparr>a_count := n\<rparr>" unfolding h2_def by (rule out(2) [OF i1])
  have i2: "a_idle (view h2)" using i1 by (simp add: 2 a_idle_def)
  have 3: "view h3 = (view h2)\<lparr>a_lo := ucast lba\<rparr>" unfolding h3_def by (rule out(3) [OF i2])
  have i3: "a_idle (view h3)" using i2 by (simp add: 3 a_idle_def)
  have 4: "view h4 = (view h3)\<lparr>a_mid := ucast (drop_bit 8 lba)\<rparr>" unfolding h4_def by (rule out(4) [OF i3])
  have i4: "a_idle (view h4)" using i3 by (simp add: 4 a_idle_def)
  have 5: "view h5 = (view h4)\<lparr>a_hi := ucast (drop_bit 16 lba)\<rparr>" unfolding h5_def by (rule out(5) [OF i4])
  have i5: "a_idle (view h5)" using i4 by (simp add: 5 a_idle_def)
  have l: "a_lba (view h5) = unat lba" using lba_bytes [OF lba] by (simp add: a_lba_def 1 2 3 4 5)
  have c: "a_number (view h5) = unat n" using n(1) by (simp add: a_number_def 2 3 4 5)
  have "a_selected (view h5)" by (rule drive_select) (simp add: 1 2 3 4 5)
  then have "a_data (view (dev_out D W8 0x1F7 0x20 h5)) = a_sectors img (view h5)"
    using D i5 n(2) l c by (simp add: ata_drive_def)
  moreover have "ata_command D lba n 0 s = s\<lparr>hw := dev_out D W8 0x1F7 0x20 h5\<rparr>"
    by (simp add: ata_command_def outb_def h1_def h2_def h3_def h4_def h5_def)
  ultimately show ?thesis using l c by (auto simp: a_sectors_def)
qed


section \<open>Transfers\<close>

text \<open>
  What a transfer may change besides the heap: the hardware state and the states of waiting tasks. It
  leaves no sector waiting in the drive. A new transfer needs the lock free and no sector waiting.
\<close>

definition fs_frame :: "(nat \<Rightarrow> ata_t) \<Rightarrow> 'a fs_st_scheme \<Rightarrow> 'a fs_st_scheme \<Rightarrow> bool" where
  "fs_frame view s s' \<longleftrightarrow> (\<exists>h T. heap_st.more s' = heap_st.more (s\<lparr>hw := h, tasks := T\<rparr>) \<and> (\<forall>t. t_next (T t) = t_next (tasks s t) \<and> t_fds (T t) = t_fds (tasks s t)) \<and>
     (a_data (view (hw s)) = [] \<longrightarrow> a_data (view h) = []))"

definition disk_ready :: "(nat \<Rightarrow> ata_t) \<Rightarrow> 'a fs_st_scheme \<Rightarrow> bool" where
  "disk_ready view s \<longleftrightarrow> \<not> disk_mutex s \<and> (\<exists>us. task_ring (tasks s) (idle_task s) us) \<and> a_data (view (hw s)) = []"

lemma wake_ring:
  assumes "task_ring (tasks s) (idle_task s) us"
  shows "\<exists>T. scheduler_wake w s = Some (s\<lparr>tasks := T\<rparr>) \<and> (\<forall>t. t_next (T t) = t_next (tasks s t) \<and> t_fds (T t) = t_fds (tasks s t))"
proof (cases "w = 0")
  case True
  then show ?thesis by (auto simp: scheduler_wake_def intro!: exI [of _ "tasks s"])
next
  case False
  then show ?thesis
    using assms wake_loop_eq [of "tasks s" "idle_task s" us "idle_task s" w]
    by (simp add: scheduler_wake_def task_ring_def) (intro exI conjI, rule refl, simp)
qed

lemma ata_read_data:
  assumes D: "ata_drive img cap view D" and s: "disk_ready view s" and lba: "unat lba < 268435456" "n \<noteq> 0" "unat lba + unat n \<le> cap"
  shows "\<exists>h T. ata_lba_read E D lba n 0 s =
      Some (map img [512 * unat lba..<512 * (unat lba + unat n)], s\<lparr>hw := h, tasks := T\<rparr>) \<and>
      (\<forall>t. t_next (T t) = t_next (tasks s t) \<and> t_fds (T t) = t_fds (tasks s t)) \<and> a_data (view h) = []"
proof -
  obtain us where us: "\<not> disk_mutex s" "task_ring (tasks s) (idle_task s) us" "a_data (view (hw s)) = []"
    using s by (auto simp: disk_ready_def)
  define s1 where "s1 = s\<lparr>disk_mutex := True\<rparr>"
  have 1: "disk_lock E s = Some s1" using us(1) by (subst disk_lock.simps) (simp add: s1_def)
  obtain h2 where 2: "ata_wait_busy_clear D s1 = Some (s1\<lparr>hw := h2\<rparr>)" "a_idle (view h2)"
    using busy_clear [OF D, of s1] us(3) by (auto simp: a_idle_def s1_def)
  obtain h3 where 3: "ata_command D lba n 0 (s1\<lparr>hw := h2\<rparr>) = s1\<lparr>hw := h3\<rparr>"
      "a_data (view h3) = map img [512 * unat lba..<512 * (unat lba + unat n)]"
    using command_data [OF D lba, of "s1\<lparr>hw := h2\<rparr>"] 2(2) by auto
  obtain h4 where 4: "ata_sectors D (unat n) (s1\<lparr>hw := h3\<rparr>) = (map img [512 * unat lba..<512 * (unat lba + unat n)], s1\<lparr>hw := h4\<rparr>)"
      "a_data (view h4) = []"
    using sectors_data [OF D, of "s1\<lparr>hw := h3\<rparr>" _ "unat n"] 3(2) by auto
  have m: "s\<lparr>hw := h4, disk_mutex := False\<rparr> = s\<lparr>hw := h4\<rparr>" using us(1) by (cases s) simp
  obtain T where T: "disk_unlock (s1\<lparr>hw := h4\<rparr>) = Some (s\<lparr>hw := h4, tasks := T\<rparr>)" "\<forall>t. t_next (T t) = t_next (tasks s t) \<and> t_fds (T t) = t_fds (tasks s t)"
    using wake_ring [of "s\<lparr>hw := h4\<rparr>" us "disk_mutex_addr s"] us by (auto simp: disk_unlock_def s1_def m)
  then show ?thesis using 1 2(1) 3(1) 4 by (auto simp: ata_lba_read_def)
qed

lemma fs_frame_refl: "fs_frame view s s"
  by (auto simp: fs_frame_def intro!: exI [of _ "hw s"] exI [of _ "tasks s"])

lemma fs_frame_fields:
  assumes "fs_frame view s s'"
  shows "g_bpb s' = g_bpb s" "g_part_offset s' = g_part_offset s" "open_files s' = open_files s"
    "disk_mutex s' = disk_mutex s" "idle_task s' = idle_task s" "t_next (tasks s' t) = t_next (tasks s t)"
    "current_driver s' = current_driver s" "current_task s' = current_task s" "t_fds (tasks s' t) = t_fds (tasks s t)" "sockets s' = sockets s"
proof -
  obtain h T where e: "heap_st.more s' = heap_st.more (s\<lparr>hw := h, tasks := T\<rparr>)" "t_next (T t) = t_next (tasks s t)" "t_fds (T t) = t_fds (tasks s t)" for t
    using assms by (auto simp: fs_frame_def)
  show "g_bpb s' = g_bpb s" "g_part_offset s' = g_part_offset s" "open_files s' = open_files s"
    "disk_mutex s' = disk_mutex s" "idle_task s' = idle_task s" "t_next (tasks s' t) = t_next (tasks s t)"
    "current_driver s' = current_driver s" "current_task s' = current_task s" "t_fds (tasks s' t) = t_fds (tasks s t)" "sockets s' = sockets s"
    using e by (cases s; cases s'; simp)+
qed

lemma fs_frame_trans: "fs_frame view s s1 \<Longrightarrow> fs_frame view s1 s2 \<Longrightarrow> fs_frame view s s2"
  by (cases s; cases s1; cases s2) (auto simp: fs_frame_def)

lemma fs_frame_idle: "fs_frame view s s' \<Longrightarrow> a_data (view (hw s)) = [] \<Longrightarrow> a_data (view (hw s')) = []"
  by (cases s; cases s') (auto simp: fs_frame_def)

lemma fs_frame_ready: "fs_frame view s s' \<Longrightarrow> disk_ready view s \<Longrightarrow> disk_ready view s'"
  using task_ring_cong [of "tasks s'" "tasks s"] by (simp add: disk_ready_def fs_frame_fields fs_frame_idle)


lemma ucast_count: "n < 256 \<Longrightarrow> unat (ucast (of_nat n :: u32) :: u8) = n"
  by (simp add: unsigned_ucast_eq unsigned_of_nat take_bit_eq_mod)

text \<open>Where data may end: on the disk, and within the 4 GiB that the file system addresses.\<close>

definition on_disk :: "nat \<Rightarrow> nat \<Rightarrow> bool" where
  "on_disk cap e \<longleftrightarrow> e \<le> 512 * cap \<and> e \<le> 4294967296"

definition sector_count :: "nat \<Rightarrow> nat \<Rightarrow> nat" where
  "sector_count off len = (off + len - 1) div 512 - off div 512 + 1"

text \<open>The slice of the sectors that holds a range of bytes.\<close>

lemma sector_slice:
  assumes "0 < len"
  shows "off mod 512 + len \<le> 512 * sector_count off len" "off div 512 \<le> (off + len - 1) div 512"
    "take len (drop (off mod 512) (map img [512 * (off div 512)..<512 * (off div 512 + sector_count off len)])) = map img [off..<off + len]"
proof -
  show le: "off div 512 \<le> (off + len - 1) div 512" using assms by (intro div_le_mono) simp
  have "off + len - 1 < 512 * ((off + len - 1) div 512 + 1)" by (simp add: mult.commute dividend_less_div_times)
  then have b: "off + len \<le> 512 * (off div 512 + sector_count off len)" using le by (simp add: sector_count_def)
  then show l: "off mod 512 + len \<le> 512 * sector_count off len"
    using mult_div_mod_eq [of 512 off] unfolding add_mult_distrib2 by linarith
  have e: "512 * (off div 512) + off mod 512 = off" by simp
  show "take len (drop (off mod 512) (map img [512 * (off div 512)..<512 * (off div 512 + sector_count off len)])) = map img [off..<off + len]"
    using b by (simp add: drop_map take_map e take_upt)
qed

lemma read_words:
  fixes off len :: u32
  assumes "0 < unat len" "unat off + unat len \<le> 4294967296" "sector_count (unat off) (unat len) \<le> 255"
  defines "n \<equiv> (off + len - 1) div 512 - off div 512 + 1"
  shows "unat n = sector_count (unat off) (unat len)" "unat (n * 512) = 512 * sector_count (unat off) (unat len)"
    "unat (off div 512) = unat off div 512" "unat (off mod 512) = unat off mod 512" "unat (ucast n :: u8) = sector_count (unat off) (unat len)"
    "unat (off div 512) < 268435456"
proof -
  have e: "off + len - 1 = off + (len - 1)" by simp
  have l: "unat (len - 1) = unat len - 1" using assms(1) by (simp add: unat_minus_one)
  have o: "unat (off + len - 1) = unat off + unat len - 1"
    unfolding e using assms(1,2) l by (subst unat_add_lem [THEN iffD1]) (auto simp: l)
  have d: "unat (x div 512) = unat x div 512" "unat (x mod 512) = unat x mod 512" for x :: u32
    by (simp_all add: unat_div unat_mod)
  show "unat (off div 512) = unat off div 512" "unat (off mod 512) = unat off mod 512" by (rule d)+
  show "unat (off div 512) < 268435456" unfolding d(1)
    using unat_le_u32 [of off] by (intro less_mult_imp_div_less) linarith
  have "unat ((off + len - 1) div 512 - off div 512) = sector_count (unat off) (unat len) - 1"
    using sector_slice(2) [OF assms(1), of "unat off"]
    by (subst unat_sub) (auto simp: word_le_nat_alt d o sector_count_def)
  then show n: "unat n = sector_count (unat off) (unat len)"
    unfolding n_def using assms(3) by (simp add: unat_word_ariths sector_count_def)
  show "unat (n * 512) = 512 * sector_count (unat off) (unat len)"
    using n assms(3) by (simp add: unat_word_ariths)
  show "unat (ucast n :: u8) = sector_count (unat off) (unat len)"
    using n assms(3) by (simp add: unsigned_ucast_eq take_bit_eq_mod)
qed

lemma owned_hw: "owned (s\<lparr>hw := h, tasks := T\<rparr>) L = owned s L" "heap_room (s\<lparr>hw := h, tasks := T\<rparr>) = heap_room s"
  for s :: "'a fs_st_scheme"
  by (simp_all add: owned_def heap_inv_def heap_room_def)

lemma read_bytes_data:
  assumes D: "ata_drive img cap view D" and s: "disk_ready view s" "owned s L"
    and len: "0 < unat len" "on_disk cap (unat off + unat len)" "sector_count (unat off) (unat len) \<le> 255"
    and room: "512 * sector_count (unat off) (unat len) + 28 \<le> heap_room s"
  shows "\<exists>s'. read_bytes E D off len s = Some (Some (map img [unat off..<unat off + unat len]), s') \<and> owned s' L \<and> fs_frame view s s' \<and>
    heap_room s \<le> heap_room s' + 512 * sector_count (unat off) (unat len) + 28"
proof -
  let ?n = "(off + len - 1) div 512 - off div 512 + 1" and ?k = "sector_count (unat off) (unat len)"
  have "unat off + unat len \<le> 4294967296" using len(2) by (simp add: on_disk_def)
  note w = read_words [OF len(1) this len(3)]
  have "(unat off + unat len - 1) div 512 < cap"
    using len(1,2) by (intro less_mult_imp_div_less) (auto simp: on_disk_def)
  then have c2: "unat (off div 512) + unat (ucast ?n :: u8) \<le> cap"
    using sector_slice(2) [OF len(1), of "unat off"] unfolding w(3,5) sector_count_def by auto
  have "unat (ucast ?n :: u8) \<noteq> 0" unfolding w(5) by (simp add: sector_count_def)
  then have c1: "ucast ?n \<noteq> (0 :: u8)" by (metis unsigned_0)
  define data where "data = map img [512 * (unat off div 512)..<512 * (unat off div 512 + ?k)]"
  have act: "\<exists>r s2. ata_lba_read E D (off div 512) (ucast ?n) 0 s1 = Some (r, s2) \<and> owned s2 (insert p L) \<and>
      (r = data \<and> fs_frame view s s2) \<and> heap_room s1 \<le> heap_room s2 + 0"
    if "owned s1 (insert p L)" "heap_st.more s1 = heap_st.more s" for p and s1 :: "'a fs_st_scheme"
  proof -
    have f: "fs_frame view s s1" using that(2) fs_frame_refl [of view s] by (simp add: fs_frame_def)
    then have "disk_ready view s1" using s(1) fs_frame_ready by blast
    from ata_read_data [OF D this w(6) c1 c2, of E] obtain h T where
      "ata_lba_read E D (off div 512) (ucast ?n) 0 s1 = Some (data, s1\<lparr>hw := h, tasks := T\<rparr>)" "\<forall>t. t_next (T t) = t_next (tasks s1 t) \<and> t_fds (T t) = t_fds (tasks s1 t)"
      "a_data (view h) = []"
      unfolding w(3,5) data_def by blast
    moreover from this(2,3) have "fs_frame view s1 (s1\<lparr>hw := h, tasks := T\<rparr>)" by (auto simp: fs_frame_def)
    ultimately show ?thesis using that(1) fs_frame_trans [OF f] by (auto simp: owned_hw)
  qed
  have n: "?n * 512 \<noteq> 0" "unat (?n * 512) + 28 \<le> heap_room s" using w(2) room by (auto simp: sector_count_def)
  have P: "r = data \<and> fs_frame view s s3" if "r = data \<and> fs_frame view s s2" "heap_st.more s3 = heap_st.more s2" for r and s2 s3 :: "'a fs_st_scheme"
    using that by (simp add: fs_frame_def)
  have "\<exists>p s1 r s2 s3. kmalloc (?n * 512) s = Some (p, s1) \<and> p \<noteq> 0 \<and> ata_lba_read E D (off div 512) (ucast ?n) 0 s1 = Some (r, s2) \<and>
      kfree p s2 = Some s3 \<and> owned s3 L \<and> (r = data \<and> fs_frame view s s3) \<and> heap_room s \<le> heap_room s3 + unat (?n * 512) + 28 + 0"
    by (rule ktemp.temporary [OF s(2) n]) (use act P in blast)+
  then obtain p s1 s2 s3 where 1: "kmalloc (?n * 512) s = Some (p, s1)" "p \<noteq> 0" "ata_lba_read E D (off div 512) (ucast ?n) 0 s1 = Some (data, s2)"
      "kfree p s2 = Some s3" "owned s3 L" "fs_frame view s s3" "heap_room s \<le> heap_room s3 + unat (?n * 512) + 28"
    by auto
  have "length data = 512 * ?k" by (simp add: data_def algebra_simps)
  moreover have "take (unat len) (drop (unat (off mod 512)) data) = map img [unat off..<unat off + unat len]"
    unfolding data_def w(4) by (rule sector_slice(3) [OF len(1)])
  ultimately show ?thesis using 1 w(2) by (simp add: read_bytes_def)
qed


section \<open>The layout of a volume\<close>

text \<open>
  Byte positions on the disk of a FAT entry and of the data of a cluster, after the layout of a FAT16
  volume: reserved sectors, the copies of the FAT, the root directory, and the clusters from number 2 on.
\<close>

definition fat_pos :: "'a fs_st_scheme \<Rightarrow> nat \<Rightarrow> nat" where
  "fat_pos s c = unat (g_part_offset s) + unat (RsvdSecCnt (g_bpb s)) * unat (BytsPerSec (g_bpb s)) + 2 * c"

definition root_pos :: "'a fs_st_scheme \<Rightarrow> nat" where
  "root_pos s = unat (g_part_offset s) +
     (unat (RsvdSecCnt (g_bpb s)) + unat (NumFATs (g_bpb s)) * unat (FATSz16 (g_bpb s))) * unat (BytsPerSec (g_bpb s))"

definition clus_bytes :: "'a fs_st_scheme \<Rightarrow> nat" where
  "clus_bytes s = unat (BytsPerSec (g_bpb s)) * unat (SecPerClus (g_bpb s))"

definition data_pos :: "'a fs_st_scheme \<Rightarrow> nat \<Rightarrow> nat" where
  "data_pos s c = root_pos s + 32 * unat (RootEntCnt (g_bpb s)) + (c - 2) * clus_bytes s"

definition img16 :: "(nat \<Rightarrow> u8) \<Rightarrow> nat \<Rightarrow> u16" where
  "img16 img p = ucast (img p) OR push_bit 8 (ucast (img (p + 1)))"

definition clus :: "(nat \<Rightarrow> u8) \<Rightarrow> 'a fs_st_scheme \<Rightarrow> u16 \<Rightarrow> u8 list" where
  "clus img s c = map img [data_pos s (unat c)..<data_pos s (unat c) + clus_bytes s]"

text \<open>A chain of clusters: each entry of the FAT names the next one, and all lie on the disk.\<close>

fun fat_chain :: "(nat \<Rightarrow> u8) \<Rightarrow> nat \<Rightarrow> 'a fs_st_scheme \<Rightarrow> u16 list \<Rightarrow> bool" where
  "fat_chain img cap s [] \<longleftrightarrow> True"
| "fat_chain img cap s (c # cs) \<longleftrightarrow> 2 \<le> unat c \<and> c < 0xFFF8 \<and> on_disk cap (data_pos s (unat c) + clus_bytes s) \<and>
     on_disk cap (fat_pos s (unat c) + 2) \<and> (cs \<noteq> [] \<longrightarrow> img16 img (fat_pos s (unat c)) = hd cs) \<and> fat_chain img cap s cs"

lemma ucast_of_nat: "ucast (x :: u16) = (of_nat (unat x) :: u32)" "ucast (y :: u8) = (of_nat (unat y) :: u32)"
  by simp_all

lemma word_of_nat_unat: "of_nat (unat (x :: u32)) = x"
  by simp

lemma unat_of_nat32: "n < 4294967296 \<Longrightarrow> unat (of_nat n :: u32) = n"
  by (simp add: unsigned_of_nat take_bit_eq_mod)

lemma cluster_size_nat: "cluster_size s = of_nat (clus_bytes s)"
  unfolding cluster_size_def clus_bytes_def ucast_of_nat of_nat_mult ..

lemma cluster_size_bytes: "unat (cluster_size s) = clus_bytes s"
proof -
  have "unat x < 65536" "unat y < 256" for x :: u16 and y :: u8
    using unsigned_less [where w = x and 'a = nat] unsigned_less [where w = y and 'a = nat] by simp_all
  then have "unat (BytsPerSec (g_bpb s)) * unat (SecPerClus (g_bpb s)) \<le> 65536 * 256"
    by (intro mult_le_mono less_imp_le)
  then show ?thesis unfolding cluster_size_nat clus_bytes_def by (intro unat_of_nat32) simp
qed

lemma fat_addr:
  assumes "fat_pos s (unat c) < 4294967296"
  shows "unat (g_part_offset s + BPB_FAT_addr (g_bpb s) + ucast c * 2) = fat_pos s (unat c)"
proof -
  have "g_part_offset s + BPB_FAT_addr (g_bpb s) + ucast c * 2 = of_nat (fat_pos s (unat c))"
    unfolding fat_pos_def BPB_FAT_addr_def ucast_of_nat of_nat_add of_nat_mult word_of_nat_unat by simp
  then show ?thesis using unat_of_nat32 [OF assms] by simp
qed

lemma root_nat: "g_part_offset s + BPB_Root_addr (g_bpb s) = of_nat (root_pos s)"
  unfolding root_pos_def BPB_Root_addr_def BPB_FAT_addr_def ucast_of_nat of_nat_add of_nat_mult word_of_nat_unat
  by (simp add: algebra_simps)

lemma root_addr: "root_pos s < 4294967296 \<Longrightarrow> unat (g_part_offset s + BPB_Root_addr (g_bpb s)) = root_pos s"
  unfolding root_nat by (rule unat_of_nat32)

lemma data_addr:
  assumes "2 \<le> unat c" "data_pos s (unat c) < 4294967296"
  shows "unat (cluster_offset c s) = data_pos s (unat c)"
proof -
  have "cluster_offset c s = (g_part_offset s + BPB_Root_addr (g_bpb s)) + ucast (RootEntCnt (g_bpb s)) * 32 + (ucast c - 2) * cluster_size s"
    by (simp add: cluster_offset_def BPB_Data_addr_def)
  also have "\<dots> = of_nat (data_pos s (unat c))"
    unfolding root_nat data_pos_def cluster_size_nat ucast_of_nat of_nat_add of_nat_mult of_nat_diff [OF assms(1)] by simp
  finally show ?thesis using unat_of_nat32 [OF assms(2)] by simp
qed

lemma sector_count_le: "0 < len \<Longrightarrow> sector_count off len \<le> (len - 1) div 512 + 2"
proof -
  assume "0 < len"
  have "(off + (len - 1)) div 512 \<le> off div 512 + (len - 1) div 512 + 1"
    unfolding div_add1_eq [of off] by (auto intro: div_le_mono [where n = 1023, simplified] simp: le_less_trans)
  moreover have "off + (len - 1) = off + len - 1" using \<open>0 < len\<close> by simp
  moreover have "x - y + 1 \<le> z + 2" if "x \<le> y + z + 1" for x y z :: nat using that by linarith
  ultimately show ?thesis unfolding sector_count_def by metis
qed

lemma pos_cong:
  assumes e: "g_bpb s' = g_bpb s" "g_part_offset s' = g_part_offset s"
  shows "fat_pos s' = fat_pos s" "data_pos s' = data_pos s" "clus_bytes s' = clus_bytes s" "clus img s' = clus img s"
    "root_pos s' = root_pos s" "fat_chain img cap s' cs = fat_chain img cap s cs" "cluster_size s' = cluster_size s"
proof -
  show p: "fat_pos s' = fat_pos s" "data_pos s' = data_pos s" "clus_bytes s' = clus_bytes s" "root_pos s' = root_pos s"
    "cluster_size s' = cluster_size s"
    using e by (auto simp: fat_pos_def data_pos_def clus_bytes_def root_pos_def cluster_size_def)
  then show "clus img s' = clus img s" by (auto simp: clus_def)
  show "fat_chain img cap s' cs = fat_chain img cap s cs" by (induction cs) (simp_all add: p)
qed

lemma frame_pos:
  assumes "fs_frame view s s'"
  shows "fat_pos s' = fat_pos s" "data_pos s' = data_pos s" "clus_bytes s' = clus_bytes s" "clus img s' = clus img s"
    "root_pos s' = root_pos s" "fat_chain img cap s' cs = fat_chain img cap s cs" "cluster_size s' = cluster_size s"
  by (rule pos_cong [OF fs_frame_fields(1,2) [OF assms]])+

lemma next_cluster:
  assumes D: "ata_drive img cap view D" and s: "disk_ready view s" "owned s L" "1052 \<le> heap_room s"
    and c: "on_disk cap (fat_pos s (unat c) + 2)"
  shows "\<exists>s'. get_next_cluster E D (g_part_offset s) (g_bpb s) c s = Some (img16 img (fat_pos s (unat c)), s') \<and>
    owned s' L \<and> fs_frame view s s' \<and> heap_room s \<le> heap_room s' + 1052"
proof -
  let ?a = "g_part_offset s + BPB_FAT_addr (g_bpb s) + ucast c * 2"
  have a: "unat ?a = fat_pos s (unat c)" using c by (intro fat_addr) (simp add: on_disk_def)
  have k: "sector_count (fat_pos s (unat c)) 2 \<le> 2" using sector_count_le [of 2 "fat_pos s (unat c)"] by simp
  obtain s' where "read_bytes E D ?a 2 s = Some (Some (map img [unat ?a..<unat ?a + 2]), s')" "owned s' L" "fs_frame view s s'"
      "heap_room s \<le> heap_room s' + 512 * sector_count (fat_pos s (unat c)) 2 + 28"
    using read_bytes_data [OF D s(1,2), of 2 ?a E] a c k s(3) by auto
  then show ?thesis using k unfolding a
    by (auto simp: get_next_cluster_def img16_def get16_def upt_rec [of "fat_pos s (unat c)"] nth_Cons')
qed


lemma skip_chain:
  assumes D: "ata_drive img cap view D"
  shows "fat_chain img cap s (c # cs) \<Longrightarrow> k \<le> length cs \<Longrightarrow> disk_ready view s \<Longrightarrow> owned s L \<Longrightarrow> k * 1052 \<le> heap_room s \<Longrightarrow>
    \<exists>s'. skip_clusters E D k c s = Some (Some ((c # cs) ! k), s') \<and> owned s' L \<and> fs_frame view s s' \<and> heap_room s \<le> heap_room s' + k * 1052"
proof (induction k arbitrary: c cs s)
  case 0
  then show ?case by (auto intro: fs_frame_refl)
next
  case (Suc k)
  then obtain d ds where cs: "cs = d # ds" by (cases cs) auto
  obtain s1 where 1: "get_next_cluster E D (g_part_offset s) (g_bpb s) c s = Some (d, s1)" "owned s1 L" "fs_frame view s s1"
      "heap_room s \<le> heap_room s1 + 1052"
    using next_cluster [OF D, of s L c E] Suc.prems cs by auto
  have "fat_chain img cap s1 (d # ds)" unfolding frame_pos(6) [OF 1(3)] using Suc.prems(1) cs by simp
  then obtain s2 where 2: "skip_clusters E D k d s1 = Some (Some ((d # ds) ! k), s2)" "owned s2 L" "fs_frame view s1 s2"
      "heap_room s1 \<le> heap_room s2 + k * 1052"
    using Suc.IH [of s1 d ds] Suc.prems cs 1 fs_frame_ready [OF 1(3)] by auto
  have "d < 0xFFF8" using Suc.prems(1) cs by simp
  then show ?case using 1 2 cs fs_frame_trans [OF 1(3) 2(3)] by auto
qed

lemma clus_length: "length (clus img s c) = clus_bytes s"
  by (simp add: clus_def)

lemma cluster_data:
  assumes D: "ata_drive img cap view D" and s: "disk_ready view s" "owned s L" "clus_bytes s + 1052 \<le> heap_room s"
    and c: "fat_chain img cap s (c # cs)" "0 < clus_bytes s" "clus_bytes s \<le> 65536"
  shows "\<exists>s'. read_bytes E D (cluster_offset c s) (cluster_size s) s = Some (Some (clus img s c), s') \<and> owned s' L \<and> fs_frame view s s' \<and>
    heap_room s \<le> heap_room s' + clus_bytes s + 1052"
proof -
  have a: "unat (cluster_offset c s) = data_pos s (unat c)" using c by (intro data_addr) (auto simp: on_disk_def)
  have k: "sector_count (data_pos s (unat c)) (clus_bytes s) \<le> (clus_bytes s - 1) div 512 + 2" by (rule sector_count_le [OF c(2)])
  moreover have "512 * ((clus_bytes s - 1) div 512) \<le> clus_bytes s" by (rule le_trans [OF times_div_less_eq_dividend]) simp
  moreover have "(clus_bytes s - 1) div 512 \<le> 128" using c(3) div_le_mono [of "clus_bytes s - 1" 65536 512] by simp
  ultimately have "512 * sector_count (data_pos s (unat c)) (clus_bytes s) + 28 \<le> clus_bytes s + 1052"
    "sector_count (data_pos s (unat c)) (clus_bytes s) \<le> 255" by linarith+
  then show ?thesis
    using read_bytes_data [OF D s(1,2), of "cluster_size s" "cluster_offset c s" E] c s(3)
    by (auto simp: a cluster_size_bytes clus_def)
qed


definition chain_data :: "(nat \<Rightarrow> u8) \<Rightarrow> 'a fs_st_scheme \<Rightarrow> u16 list \<Rightarrow> u8 list" where
  "chain_data img s cs = concat (map (clus img s) cs)"

lemma chain_data_length: "length (chain_data img s cs) = length cs * clus_bytes s"
  by (induction cs) (simp_all add: chain_data_def clus_length)

lemma read_loop_step:
  assumes "0 < n" "c < 0xFFF8" "read_bytes E D (cluster_offset c s) (cluster_size s) s = Some (Some tmp, s1)"
    and "length tmp = clus_bytes s" "off < clus_bytes s"
  shows "read_loop E D c off n acc s =
    (if n \<le> clus_bytes s - off then Some (acc @ take n (drop off tmp), s1)
     else do { r \<leftarrow> get_next_cluster E D (g_part_offset s1) (g_bpb s1) c s1;
               read_loop E D (fst r) 0 (n - (clus_bytes s - off)) (acc @ drop off tmp) (snd r) })"
proof (cases "n < clus_bytes s - off")
  case True
  then show ?thesis
    using assms by (subst read_loop.simps) (auto simp: cluster_size_bytes Let_def read_loop.simps [of _ _ _ _ 0])
next
  case False
  then show ?thesis
    using assms by (subst read_loop.simps) (auto simp: cluster_size_bytes Let_def read_loop.simps [of _ _ _ _ 0])
qed

lemma read_chain:
  assumes D: "ata_drive img cap view D"
  shows "fat_chain img cap s (c # cs) \<Longrightarrow> off < clus_bytes s \<Longrightarrow> clus_bytes s \<le> 65536 \<Longrightarrow> off + n \<le> length (chain_data img s (c # cs)) \<Longrightarrow>
    disk_ready view s \<Longrightarrow> owned s L \<Longrightarrow> length (c # cs) * (clus_bytes s + 2104) \<le> heap_room s \<Longrightarrow>
    \<exists>s'. read_loop E D c off n acc s = Some (acc @ take n (drop off (chain_data img s (c # cs))), s') \<and> owned s' L \<and> fs_frame view s s' \<and>
      heap_room s \<le> heap_room s' + length (c # cs) * (clus_bytes s + 2104)"
proof (induction cs arbitrary: c off n acc s)
  case Nil
  show ?case
  proof (cases "n = 0")
    case True
    then show ?thesis using Nil.prems by (subst read_loop.simps) (auto intro: fs_frame_refl)
  next
    case False
    have c: "c < 0xFFF8" "0 < clus_bytes s" "clus_bytes s + 1052 \<le> heap_room s" using Nil.prems by auto
    obtain s1 where 1: "read_bytes E D (cluster_offset c s) (cluster_size s) s = Some (Some (clus img s c), s1)" "owned s1 L" "fs_frame view s s1"
        "heap_room s \<le> heap_room s1 + clus_bytes s + 1052"
      using cluster_data [OF D Nil.prems(5,6) c(3) Nil.prems(1) c(2) Nil.prems(3), of E] by auto
    then show ?thesis
      using read_loop_step [OF _ c(1) 1(1) clus_length Nil.prems(2), of n acc] False Nil.prems(4)
      by (auto simp: chain_data_def clus_length)
  qed
next
  case (Cons d ds)
  show ?case
  proof (cases "n = 0")
    case True
    then show ?thesis using Cons.prems by (subst read_loop.simps) (auto intro: fs_frame_refl)
  next
    case False
    let ?K = "clus_bytes s"
    have c: "c < 0xFFF8" "0 < ?K" "?K + 1052 \<le> heap_room s" using Cons.prems by auto
    obtain s1 where 1: "read_bytes E D (cluster_offset c s) (cluster_size s) s = Some (Some (clus img s c), s1)" "owned s1 L" "fs_frame view s s1"
        "heap_room s \<le> heap_room s1 + ?K + 1052"
      using cluster_data [OF D Cons.prems(5,6) c(3) Cons.prems(1) c(2) Cons.prems(3), of E] by auto
    note f1 = frame_pos [OF 1(3)] and r1 = fs_frame_ready [OF 1(3) Cons.prems(5)]
    note step = read_loop_step [OF _ c(1) 1(1) clus_length Cons.prems(2), of n acc]
    have cd: "chain_data img s (c # d # ds) = clus img s c @ chain_data img s (d # ds)" by (simp add: chain_data_def)
    show ?thesis
    proof (cases "n \<le> ?K - off")
      case True
      then show ?thesis using step False 1 by (auto simp: cd clus_length)
    next
      case False
      have p: "on_disk cap (fat_pos s1 (unat c) + 2)" "img16 img (fat_pos s1 (unat c)) = d" "1052 \<le> heap_room s1"
        using Cons.prems(1,7) 1(4) unfolding f1 by auto
      obtain s2 where 2: "get_next_cluster E D (g_part_offset s1) (g_bpb s1) c s1 = Some (d, s2)" "owned s2 L" "fs_frame view s1 s2"
          "heap_room s1 \<le> heap_room s2 + 1052"
        using next_cluster [OF D r1 1(2) p(3,1), of E] unfolding p(2) by blast
      have f: "fs_frame view s s2" using fs_frame_trans 1(3) 2(3) by blast
      note f2 = frame_pos [OF f]
      have ch: "fat_chain img cap s2 (d # ds)" unfolding f2 using Cons.prems(1) by simp
      have "\<exists>s'. read_loop E D d 0 (n - (?K - off)) (acc @ drop off (clus img s c)) s2 =
          Some ((acc @ drop off (clus img s c)) @ take (n - (?K - off)) (drop 0 (chain_data img s2 (d # ds))), s') \<and> owned s' L \<and> fs_frame view s2 s' \<and>
          heap_room s2 \<le> heap_room s' + length (d # ds) * (clus_bytes s2 + 2104)"
      proof (rule Cons.IH [OF ch])
        show "0 < clus_bytes s2" "clus_bytes s2 \<le> 65536" using c(2) Cons.prems(3) f2(3) by simp_all
        show "0 + (n - (?K - off)) \<le> length (chain_data img s2 (d # ds))"
          using Cons.prems(2,4) by (simp add: chain_data_length f2(3))
        show "length (d # ds) * (clus_bytes s2 + 2104) \<le> heap_room s2" using Cons.prems(7) 1(4) 2(4) f2(3) by simp
      qed (use fs_frame_ready [OF f Cons.prems(5)] 2(2) in auto)
      moreover have "chain_data img s2 = chain_data img s" by (auto simp: chain_data_def f2(4))
      ultimately show ?thesis
        using step \<open>n \<noteq> 0\<close> False 1(4) 2(1,4) fs_frame_trans [OF f] Cons.prems(2) by (auto simp: cd clus_length f2(3))
    qed
  qed
qed


lemma fat_chain_drop: "fat_chain img cap s cs \<Longrightarrow> fat_chain img cap s (drop k cs)"
  by (induction cs arbitrary: k) (auto simp: drop_Cons split: nat.split)

lemma chain_data_drop: "k \<le> length cs \<Longrightarrow> chain_data img s (drop k cs) = drop (k * clus_bytes s) (chain_data img s cs)"
proof (induction cs arbitrary: k)
  case (Cons c cs)
  then show ?case by (cases k) (simp_all add: chain_data_def clus_length)
qed (simp add: chain_data_def)

text \<open>An open file: its clusters on the disk, which hold at least its size.\<close>

definition file_on_disk :: "(nat \<Rightarrow> u8) \<Rightarrow> nat \<Rightarrow> 'a fs_st_scheme \<Rightarrow> int \<Rightarrow> u16 list \<Rightarrow> bool" where
  "file_on_disk img cap s fd cs \<longleftrightarrow> 0 \<le> fd \<and> fd < 8 \<and> length (open_files s) = 8 \<and>
     (let f = open_files s ! nat fd in f_used f \<and> cs \<noteq> [] \<and> hd cs = f_start_cluster f \<and> unat (f_size f) \<le> length cs * clus_bytes s) \<and>
     fat_chain img cap s cs \<and> 0 < clus_bytes s \<and> clus_bytes s \<le> 65536"

definition contents :: "(nat \<Rightarrow> u8) \<Rightarrow> 'a fs_st_scheme \<Rightarrow> int \<Rightarrow> u16 list \<Rightarrow> u8 list" where
  "contents img s fd cs = take (unat (f_size (open_files s ! nat fd))) (chain_data img s cs)"

lemma fat16_read_middle:
  assumes D: "ata_drive img cap view D" and s: "disk_ready view s" "owned s L" "(length cs + 1) * (clus_bytes s + 2132) \<le> heap_room s"
    and f: "file_on_disk img cap s fd cs" "f = open_files s ! nat fd" "f_offset f < f_size f" "0 < n" and bs: "bs = take n (drop (unat (f_offset f)) (contents img s fd cs))"
  shows "\<exists>s'. fat16_read E D fd n s = Some (int (length bs), bs,
      upd_file (nat fd) (\<lambda>f. f\<lparr>f_offset := f_offset f + of_nat (length bs)\<rparr>) s') \<and> owned s' L \<and> fs_frame view s s' \<and>
    heap_room s \<le> heap_room s' + (length cs + 1) * (clus_bytes s + 2132)"
proof -
  let ?K = "clus_bytes s" and ?o = "unat (f_offset f)" and ?z = "unat (f_size f)"
  have F: "fd_ok fd s" "cs \<noteq> []" "hd cs = f_start_cluster f" "?z \<le> length cs * ?K" "fat_chain img cap s cs" "0 < ?K" "?K \<le> 65536"
    using f(1,2) by (auto simp: file_on_disk_def fd_ok_def Let_def)
  have oz: "?o < ?z" using f(3) by (simp add: word_less_nat_alt)
  define k where "k = ?o div ?K"
  have k: "k < length cs" using oz F(4) by (simp add: k_def less_mult_imp_div_less)
  have cs: "cs = f_start_cluster f # tl cs" using F(2,3) by (cases cs) auto
  have K: "cluster_size s \<noteq> 0" "unat (f_offset f div cluster_size s) = k" "unat (f_offset f mod cluster_size s) = ?o mod ?K"
    using F(6) cluster_size_bytes [of s] by (auto simp: k_def unat_div unat_mod)
  obtain j where j: "length cs = k + j" using k le_Suc_ex [of k "length cs"] by auto
  have room: "k * 1052 + (?K + 28) + length (drop k cs) * (?K + 2104) \<le> heap_room s"
    using s(3) unfolding length_drop j by (simp add: algebra_simps)
  have o: "?o = k * ?K + ?o mod ?K" unfolding k_def by simp
  have k': "k \<le> length (tl cs)" using k by simp
  obtain s1 where 1: "skip_clusters E D k (f_start_cluster f) s = Some (Some (cs ! k), s1)" "owned s1 L" "fs_frame view s s1"
      "heap_room s \<le> heap_room s1 + k * 1052"
    using skip_chain [OF D, of s "f_start_cluster f" "tl cs" k L E, folded cs, OF F(5) k' s(1,2)] room by auto
  obtain p s2 where 2: "kmalloc (cluster_size s) s1 = Some (p, s2)" "p \<noteq> 0" "p \<notin> L" "owned s2 (insert p L)" "heap_st.more s2 = heap_st.more s1"
      "heap_room s1 \<le> heap_room s2 + ?K + 28"
    using kheap.alloc_fresh [OF 1(2) K(1)] room 1(4) unfolding cluster_size_bytes by auto
  have f2: "fs_frame view s s2" using 1(3) 2(5) by (simp add: fs_frame_def)
  define m where "m = (if ?z - ?o < n then ?z - ?o else n)"
  have dr: "drop k cs = cs ! k # drop (Suc k) cs" using k by (simp add: Cons_nth_drop_Suc)
  have "\<exists>s'. read_loop E D (cs ! k) (?o mod ?K) m [] s2 = Some ([] @ take m (drop (?o mod ?K) (chain_data img s2 (cs ! k # drop (Suc k) cs))), s') \<and>
      owned s' (insert p L) \<and> fs_frame view s2 s' \<and> heap_room s2 \<le> heap_room s' + length (cs ! k # drop (Suc k) cs) * (clus_bytes s2 + 2104)"
  proof (rule read_chain [OF D])
    show "fat_chain img cap s2 (cs ! k # drop (Suc k) cs)" unfolding frame_pos [OF f2] dr [symmetric] by (rule fat_chain_drop [OF F(5)])
    show "?o mod ?K < clus_bytes s2" "clus_bytes s2 \<le> 65536" using F(6,7) frame_pos(3) [OF f2] by simp_all
    have "m \<le> ?z - ?o" "?z \<le> k * ?K + j * ?K" using F(4) by (simp_all add: m_def j algebra_simps)
    then have "?o mod ?K + m \<le> j * ?K" using o oz by linarith
    then show "?o mod ?K + m \<le> length (chain_data img s2 (cs ! k # drop (Suc k) cs))"
      unfolding dr [symmetric] chain_data_length frame_pos(3) [OF f2] by (simp add: j)
    show "length (cs ! k # drop (Suc k) cs) * (clus_bytes s2 + 2104) \<le> heap_room s2"
      using room 1(4) 2(6) unfolding dr frame_pos(3) [OF f2] by simp
  qed (use fs_frame_ready [OF f2 s(1)] 2(4) in auto)
  then obtain s3 where 3: "read_loop E D (cs ! k) (?o mod ?K) m [] s2 = Some (take m (drop (?o mod ?K) (chain_data img s (drop k cs))), s3)"
      "owned s3 (insert p L)" "fs_frame view s2 s3" "heap_room s2 \<le> heap_room s3 + length (drop k cs) * (?K + 2104)"
    unfolding dr by (auto simp: chain_data_def frame_pos(3,4) [OF f2])
  obtain s4 where 4: "kfree p s3 = Some s4" "owned s4 L" "heap_st.more s4 = heap_st.more s3" "heap_room s4 = heap_room s3"
    using ktemp.release_owned [OF 3(2) 2(3)] by blast
  have f4: "fs_frame view s s4" using fs_frame_trans [OF f2 3(3)] 4(3) by (simp add: fs_frame_def)
  have data: "take m (drop (?o mod ?K) (chain_data img s (drop k cs))) = bs"
    unfolding bs using k o by (simp add: chain_data_drop contents_def f(2) [symmetric] drop_take m_def min_def add.commute)
  have nle: "(f_size f \<le> f_offset f) = False" "(n = 0) = False" using f(3,4) by auto
  have n0: "(p = 0) = False" "(cluster_size s = 0) = False" using 2(2) K(1) by auto
  have r: "unat (f_size f - f_offset f) = ?z - ?o" using oz by (simp add: unat_sub word_le_nat_alt)
  have "fat16_read E D fd n s = Some (int (length bs), bs, upd_file (nat fd) (\<lambda>f. f\<lparr>f_offset := f_offset f + of_nat (length bs)\<rparr>) s4)"
    unfolding fat16_read_def Let_def f(2) [symmetric] r K(2,3)
    by (simp only: F(1) nle K(1) 1(1) 2(1,2) 3(1) [unfolded m_def] data [unfolded m_def] 4(1) not_True_eq_False if_False if_True n0
        Option.bind.simps prod.case option.case)
  moreover have "k * 1052 + (?K + 28) + j * (?K + 2104) \<le> (length cs + 1) * (?K + 2132)" by (simp add: j algebra_simps)
  then have "heap_room s \<le> heap_room s4 + (length cs + 1) * (?K + 2132)"
    using 1(4) 2(6) 3(4) 4(4) unfolding length_drop j by simp
  ultimately show ?thesis using 4(2) f4 by blast
qed


lemma fat16_read_step:
  assumes "ata_drive img cap view D" "disk_ready view s" "owned s L" "(length cs + 1) * (clus_bytes s + 2132) \<le> heap_room s"
    and "file_on_disk img cap s fd cs" "bs = take n (drop (unat (f_offset (open_files s ! nat fd))) (contents img s fd cs))"
  shows "\<exists>s'. fat16_read E D fd n s = Some (int (length bs), bs,
      upd_file (nat fd) (\<lambda>f. f\<lparr>f_offset := f_offset f + of_nat (length bs)\<rparr>) s') \<and> owned s' L \<and> fs_frame view s s' \<and>
    heap_room s \<le> heap_room s' + (length cs + 1) * (clus_bytes s + 2132)"
proof -
  let ?f = "open_files s ! nat fd"
  have F: "fd_ok fd s" using assms(5) by (auto simp: file_on_disk_def fd_ok_def Let_def)
  consider "n = 0" | "0 < n" "f_size ?f \<le> f_offset ?f" | "0 < n" "f_offset ?f < f_size ?f" by fastforce
  then show ?thesis
  proof cases
    case 3
    then show ?thesis using fat16_read_middle [OF assms(1-5) refl 3(2,1) assms(6), of E] by blast
  qed (use F assms fs_frame_refl [of view s] in \<open>auto simp: fat16_read_def Let_def contents_def word_le_nat_alt drop_take intro!: exI [of _ s]\<close>)
qed

text \<open>
  C38. Reading a file. Let the drive behave as an ATA drive does, with \<open>img\<close> on its \<open>cap\<close> sectors and no sector of an
  earlier command waiting, let the disk lock be free, let the chain of clusters of an open file in the FAT be \<open>cs\<close> and lie on the disk,
  with clusters of at most 64 KiB, and let the heap have room for the buffers of one read. Then \<^verbatim>\<open>fat16_read\<close> returns the bytes of the
  file from its offset on, as many as asked for or as there are, advances the offset by their number,
  and leaves the other open files and the allocated blocks as they were, the disk lock free, and no sector waiting in the drive.
\<close>

theorem fat16_read_correct:
  assumes "ata_drive img cap view D" "disk_ready view s" "owned s L" "(length cs + 1) * (clus_bytes s + 2132) \<le> heap_room s"
    and "file_on_disk img cap s fd cs" "bs = take n (drop (unat (f_offset (open_files s ! nat fd))) (contents img s fd cs))"
  shows "\<exists>s'. fat16_read E D fd n s = Some (int (length bs), bs, s') \<and>
    open_files s' = (open_files s)[nat fd := (open_files s ! nat fd)\<lparr>f_offset := f_offset (open_files s ! nat fd) + of_nat (length bs)\<rparr>] \<and>
    disk_ready view s' \<and> owned s' L"
proof -
  obtain s' where s': "fat16_read E D fd n s = Some (int (length bs), bs,
      upd_file (nat fd) (\<lambda>f. f\<lparr>f_offset := f_offset f + of_nat (length bs)\<rparr>) s')" "owned s' L" "fs_frame view s s'"
    using fat16_read_step [OF assms, of E] by blast
  have "disk_ready view (upd_file (nat fd) g s')" "owned (upd_file (nat fd) g s') L" for g
    using fs_frame_ready [OF s'(3) assms(2)] s'(2) by (simp_all add: disk_ready_def owned_def heap_inv_def)
  then show ?thesis using s'(1) fs_frame_fields(3) [OF s'(3)] by auto
qed

text \<open>
  A drive of 64 sectors with the byte 7 everywhere, busy for one read of the status after a command and after
  each sector, and a volume with one open file of three bytes.
\<close>

definition demo_regs :: "nat \<Rightarrow> ata_t" where
  "demo_regs h = (case (if h = 0 then (0, 0, 0, 0, 0, [], False) else from_nat (h - 1)) of (sel, n, lo, mid, hi, d, busy) \<Rightarrow>
     \<lparr>a_sel = sel, a_count = n, a_lo = lo, a_mid = mid, a_hi = hi, a_data = d, a_wait = (if busy then 1 else 0)\<rparr>)"

definition demo_hw :: "ata_t \<Rightarrow> nat" where
  "demo_hw a = Suc (to_nat (a_sel a, a_count a, a_lo a, a_mid a, a_hi a, a_data a, a_wait a \<noteq> 0))"

definition demo_drive :: device where
  "demo_drive = \<lparr>
     dev_in = (\<lambda>w p h. let a = demo_regs h in
       if w = W8 then (if a_wait a \<noteq> 0 then 0x80 else if a_data a = [] then 0 else 8, demo_hw (a\<lparr>a_wait := 0\<rparr>))
       else (case a_data a of
           b # c # bs \<Rightarrow> (ucast b OR push_bit 8 (ucast c), demo_hw (a\<lparr>a_data := bs, a_wait := (if length bs mod 512 = 0 then 1 else 0)\<rparr>))
         | _ \<Rightarrow> (0, h))),
     dev_out = (\<lambda>w p v h. let a = demo_regs h in demo_hw
       (if \<not> a_idle a then a
        else if p = 0x1F6 then a\<lparr>a_sel := ucast v\<rparr> else if p = 0x1F2 then a\<lparr>a_count := ucast v\<rparr>
        else if p = 0x1F3 then a\<lparr>a_lo := ucast v\<rparr> else if p = 0x1F4 then a\<lparr>a_mid := ucast v\<rparr>
        else if p = 0x1F5 then a\<lparr>a_hi := ucast v\<rparr>
        else if a_selected a \<and> a_lba a + a_number a \<le> 64 then a\<lparr>a_data := a_sectors (\<lambda>_. 7) a, a_wait := 1\<rparr> else a)),
     dev_rd = (\<lambda>_ h. (0, h)), dev_wr = (\<lambda>_ _ h. h)\<rparr>"

lemma demo_regs_hw: "demo_regs (demo_hw a) = a\<lparr>a_wait := (if a_wait a = 0 then 0 else 1)\<rparr>"
  by (cases a) (simp add: demo_regs_def demo_hw_def)

lemma demo_drive_ok: "ata_drive (\<lambda>_. 7) 64 demo_regs demo_drive"
proof -
  have w: "a_wait (demo_regs h) \<le> 1" for h by (simp add: demo_regs_def split: prod.split)
  have k: "a\<lparr>a_wait := 0\<rparr> = a" if "a_wait a = 0" for a :: ata_t using that by (cases a) simp
  have "a_wait (demo_regs h) < 9999999" "a_wait (demo_regs h) - 1 = 0" for h using w [of h] by simp_all
  then show ?thesis
    unfolding ata_drive_def by (intro conjI allI impI) (auto simp: demo_drive_def Let_def demo_regs_hw k a_idle_def)
qed

definition demo_fs :: fs_st where
  "demo_fs = net_st.extend (demo_net (demo_nic []))
     \<lparr>disk_mutex = False, disk_mutex_addr = 0x9000,
      g_bpb = \<lparr>jmpBoot = [], OEMName = [], BytsPerSec = 512, SecPerClus = 1, RsvdSecCnt = 1, NumFATs = 2, RootEntCnt = 16,
        TotSec16 = 64, Media = 0xF8, FATSz16 = 1, SecPerTrk = 0, NumHeads = 0, HiddSec = 0, TotSec32 = 0\<rparr>,
      g_part_offset = 512,
      open_files = \<lparr>f_path = [97], f_start_cluster = 2, f_size = 3, f_offset = 1, f_used = True, f_refs = 1\<rparr> # replicate 7 zero_file,
      current_driver = True\<rparr>"

lemma demo_fs_heap:
  "ram demo_fs = ram demo_heap" "free_ram demo_fs = free_ram demo_heap" "free_ram_end demo_fs = free_ram_end demo_heap"
  "bump_next demo_fs = bump_next demo_heap" "free_list_head demo_fs = free_list_head demo_heap"
  "tasks demo_fs = tasks demo_sched" "idle_task demo_fs = 0x1000"
  by (simp_all add: demo_fs_def net_st.defs demo_net_def kbd_st.defs demo_kbd_def tty_st.defs demo_terms_def demo_tty_def sched_st.defs
      demo_sched_def paging_st.defs demo_paging_def heap_st.defs)

lemma demo_fs_ready: "disk_ready demo_regs demo_fs" "owned demo_fs {}" "heap_room demo_fs = 0x100000"
proof -
  have "hw demo_fs = 0" by (simp add: demo_fs_def net_st.defs demo_net_def kbd_st.defs)
  then show "disk_ready demo_regs demo_fs"
    using demo_sched_ring by (auto simp: disk_ready_def demo_fs_heap demo_regs_def) (simp add: demo_fs_def net_st.defs)
  have "heap_inv demo_fs []" using demo_heap_inv by (simp add: heap_inv_def demo_fs_heap)
  then show "owned demo_fs {}" by (auto simp: owned_def live_def)
  show "heap_room demo_fs = 0x100000" by (simp add: heap_room_def demo_fs_heap demo_heap_def)
qed

theorem fat16_read_correct_witness: "\<exists>s'. fat16_read demo_env demo_drive 0 5 demo_fs = Some (2, [7, 7], s')"
proof -
  have f: "g_part_offset demo_fs = 512" "open_files demo_fs ! 0 = \<lparr>f_path = [97], f_start_cluster = 2, f_size = 3, f_offset = 1, f_used = True, f_refs = 1\<rparr>"
    "length (open_files demo_fs) = 8" "clus_bytes demo_fs = 512" "data_pos demo_fs 2 = 2560" "fat_pos demo_fs 2 = 1028"
    by (simp_all add: demo_fs_def net_st.defs clus_bytes_def data_pos_def fat_pos_def root_pos_def)
  have "file_on_disk (\<lambda>_. 7) 64 demo_fs 0 [2]" by (simp add: file_on_disk_def f on_disk_def)
  moreover have "contents (\<lambda>_. 7) demo_fs 0 [2] = [7, 7, 7]" by (simp add: contents_def f chain_data_def clus_def take_map upt_rec)
  ultimately show ?thesis
    using fat16_read_correct [OF demo_drive_ok demo_fs_ready(1,2), of "[2]" 0 "[7, 7]" 5 demo_env] by (auto simp: f demo_fs_ready(3))
qed

end
