(* ===== verification/Cpuid.thy ===== *)
theory Cpuid
  imports Prelude
begin

text \<open>
  Processor identification, \<^verbatim>\<open>stage2/cpu/cpuid.c\<close>: decoding the leaves of the \<^verbatim>\<open>cpuid\<close> instruction and
  building the text behind \<^verbatim>\<open>/dev/cpuinfo\<close>. The instruction is a parameter that maps a leaf and a subleaf to the
  registers \<^verbatim>\<open>eax\<close>, \<^verbatim>\<open>ebx\<close>, \<^verbatim>\<open>ecx\<close> and \<^verbatim>\<open>edx\<close>; whether the processor has it is another one. The text is the list of
  the characters before the terminator in \<^verbatim>\<open>cpuinfo_buf\<close>.
\<close>

section \<open>State\<close>

type_synonym cpuid_fn = "u32 \<Rightarrow> u32 \<Rightarrow> u32 \<times> u32 \<times> u32 \<times> u32"

record cpu_info_t =
  supported :: bool
  max_leaf :: u32
  max_ext_leaf :: u32
  vendor :: "u8 list"
  brand :: "u8 list"
  stepping :: u32
  model :: u32
  family :: u32
  ctype :: u32
  ext_model :: u32
  ext_family :: u32
  clflush_size :: u32
  logical_cpus :: u32
  apic_id :: u32
  features_ecx :: u32
  features_edx :: u32
  ext_features_ecx :: u32
  ext_features_edx :: u32
  phys_addr_bits :: u32
  virt_addr_bits :: u32

record cpuid_t =
  cpu :: cpu_info_t
  cpuinfo_buf :: "u8 list"
  initialized :: bool

definition text_of :: "string \<Rightarrow> u8 list" where
  "text_of = map of_char"

section \<open>The text\<close>

definition append_char :: "u8 \<Rightarrow> u8 list \<Rightarrow> u8 list" where
  "append_char c buf = (if 2048 \<le> length buf + 1 then buf else buf @ [c])"

definition append_str :: "u8 list \<Rightarrow> u8 list \<Rightarrow> u8 list" where
  "append_str s buf = fold append_char s buf"

text \<open>The digits, the least significant first; the loop stops after ten.\<close>

fun uint_digits :: "nat \<Rightarrow> u32 \<Rightarrow> u8 list" where
  "uint_digits 0 v = []"
| "uint_digits (Suc k) v = (if v = 0 then [] else (48 + ucast (v mod 10)) # uint_digits k (v div 10))"

definition append_uint :: "u32 \<Rightarrow> u8 list \<Rightarrow> u8 list" where
  "append_uint v buf = (if v = 0 then append_char 48 buf else fold append_char (rev (uint_digits 10 v)) buf)"

definition append_field_str :: "string \<Rightarrow> u8 list \<Rightarrow> u8 list \<Rightarrow> u8 list" where
  "append_field_str name v buf =
     append_char 10 (append_str v (append_str [9, 58, 32] (append_str (text_of name) buf)))"

definition append_field_uint :: "string \<Rightarrow> u32 \<Rightarrow> u8 list \<Rightarrow> u8 list" where
  "append_field_uint name v buf =
     append_char 10 (append_uint v (append_str [9, 58, 32] (append_str (text_of name) buf)))"

definition append_flag :: "u32 \<Rightarrow> nat \<times> string \<Rightarrow> bool \<times> u8 list \<Rightarrow> bool \<times> u8 list" where
  "append_flag bits f st =
     (if bits AND push_bit (fst f) 1 = 0 then st
      else (False, append_str (text_of (snd f)) (if fst st then snd st else append_char 32 (snd st))))"

definition edx_flags :: "(nat \<times> string) list" where
  "edx_flags = [(0, ''fpu''), (1, ''vme''), (2, ''de''), (3, ''pse''), (4, ''tsc''), (5, ''msr''), (6, ''pae''), (7, ''mce''),
     (8, ''cx8''), (9, ''apic''), (11, ''sep''), (12, ''mtrr''), (13, ''pge''), (14, ''mca''), (15, ''cmov''), (16, ''pat''),
     (17, ''pse36''), (19, ''clflush''), (23, ''mmx''), (24, ''fxsr''), (25, ''sse''), (26, ''sse2'')]"

definition ecx_flags :: "(nat \<times> string) list" where
  "ecx_flags = [(0, ''sse3''), (9, ''ssse3''), (19, ''sse4_1''), (20, ''sse4_2''), (22, ''movbe''), (23, ''popcnt''), (25, ''aes''),
     (26, ''xsave''), (28, ''avx'')]"

definition ext_flags :: "(nat \<times> string) list" where
  "ext_flags = [(20, ''nx''), (29, ''lm'')]"

definition build_cpuinfo_text :: "cpu_info_t \<Rightarrow> u8 list" where
  "build_cpuinfo_text c =
     (let buf = append_field_uint ''processor'' 0 [] in
      if \<not> supported c
      then append_field_str ''model name'' (text_of ''CPUID unsupported'') (append_field_str ''vendor_id'' (text_of ''unknown'') buf)
      else
        let buf = append_field_str ''vendor_id'' (takeWhile (\<lambda>x. x \<noteq> 0) (vendor c)) buf;
            buf = append_field_uint ''cpu family'' (family c) buf;
            buf = append_field_uint ''model'' (model c) buf;
            buf = append_field_str ''model name''
              (if brand c ! 0 \<noteq> 0 then takeWhile (\<lambda>x. x \<noteq> 0) (brand c) else text_of ''unknown'') buf;
            buf = append_field_uint ''stepping'' (stepping c) buf;
            buf = append_field_uint ''cpu type'' (ctype c) buf;
            buf = append_field_uint ''clflush size'' (clflush_size c) buf;
            buf = append_field_uint ''cache_alignment'' (clflush_size c) buf;
            buf = append_str (text_of ''address sizes'' @ [9, 58, 32]) buf;
            buf = append_uint (phys_addr_bits c) buf;
            buf = append_str (text_of '' bits physical, '') buf;
            buf = append_uint (virt_addr_bits c) buf;
            buf = append_str (text_of '' bits virtual'' @ [10]) buf;
            buf = append_str (text_of ''flags'' @ [9, 9, 58, 32]) buf;
            st = fold (append_flag (features_edx c)) edx_flags (True, buf);
            st = fold (append_flag (features_ecx c)) ecx_flags st;
            st = fold (append_flag (ext_features_edx c)) ext_flags st
        in append_char 10 (snd st))"

section \<open>Decoding\<close>

definition bytes32 :: "u32 \<Rightarrow> u8 list" where
  "bytes32 v = [ucast v, ucast (drop_bit 8 v), ucast (drop_bit 16 v), ucast (drop_bit 24 v)]"

definition zero_cpu :: cpu_info_t where
  "zero_cpu = \<lparr>supported = False, max_leaf = 0, max_ext_leaf = 0, vendor = replicate 13 0, brand = replicate 49 0,
     stepping = 0, model = 0, family = 0, ctype = 0, ext_model = 0, ext_family = 0, clflush_size = 0, logical_cpus = 0,
     apic_id = 0, features_ecx = 0, features_edx = 0, ext_features_ecx = 0, ext_features_edx = 0, phys_addr_bits = 0,
     virt_addr_bits = 0\<rparr>"

definition decode_leaf1 :: "u32 \<times> u32 \<times> u32 \<times> u32 \<Rightarrow> cpu_info_t \<Rightarrow> cpu_info_t" where
  "decode_leaf1 r i =
     (case r of (a, b, c, d) \<Rightarrow>
        let base_family = drop_bit 8 a AND 0xF; base_model = drop_bit 4 a AND 0xF;
            em = drop_bit 16 a AND 0xF; ef = drop_bit 20 a AND 0xFF
        in i\<lparr>stepping := a AND 0xF, ctype := drop_bit 12 a AND 0x3, ext_model := em, ext_family := ef,
             family := (if base_family = 0xF then base_family + ef else base_family),
             model := (if base_family = 0x6 \<or> base_family = 0xF then base_model + push_bit 4 em else base_model),
             clflush_size := (drop_bit 8 b AND 0xFF) * 8, logical_cpus := drop_bit 16 b AND 0xFF,
             apic_id := drop_bit 24 b AND 0xFF, features_ecx := c, features_edx := d\<rparr>)"

definition brand_part :: "u32 \<times> u32 \<times> u32 \<times> u32 \<Rightarrow> u8 list" where
  "brand_part r = (case r of (a, b, c, d) \<Rightarrow> bytes32 a @ bytes32 b @ bytes32 c @ bytes32 d)"

definition cpuid_init :: "bool \<Rightarrow> cpuid_fn \<Rightarrow> cpuid_t \<Rightarrow> cpuid_t" where
  "cpuid_init has_cpuid leaf s =
     (if initialized s then s
      else
        let i = zero_cpu\<lparr>phys_addr_bits := 32, virt_addr_bits := 32\<rparr> in
        if \<not> has_cpuid then \<lparr>cpu = i, cpuinfo_buf = build_cpuinfo_text i, initialized = True\<rparr>
        else
          let (a, b, c, d) = leaf 0 0;
              i = i\<lparr>supported := True, max_leaf := a, vendor := bytes32 b @ bytes32 d @ bytes32 c @ [0]\<rparr>;
              i = (if 1 \<le> max_leaf i then decode_leaf1 (leaf 1 0) i else i);
              i = i\<lparr>max_ext_leaf := fst (leaf 0x80000000 0)\<rparr>;
              i = (if 0x80000004 \<le> max_ext_leaf i
                   then i\<lparr>brand := brand_part (leaf 0x80000002 0) @ brand_part (leaf 0x80000003 0) @ brand_part (leaf 0x80000004 0) @ [0]\<rparr>
                   else i);
              i = (if 0x80000001 \<le> max_ext_leaf i
                   then case leaf 0x80000001 0 of (a, b, c, d) \<Rightarrow> i\<lparr>ext_features_ecx := c, ext_features_edx := d\<rparr> else i);
              i = (if 0x80000008 \<le> max_ext_leaf i
                   then case leaf 0x80000008 0 of (a, b, c, d) \<Rightarrow>
                     i\<lparr>phys_addr_bits := a AND 0xFF, virt_addr_bits := drop_bit 8 a AND 0xFF\<rparr> else i)
          in \<lparr>cpu = i, cpuinfo_buf = build_cpuinfo_text i, initialized = True\<rparr>)"

definition cpuid_info :: "bool \<Rightarrow> cpuid_fn \<Rightarrow> cpuid_t \<Rightarrow> cpu_info_t \<times> cpuid_t" where
  "cpuid_info has_cpuid leaf s = (let s = cpuid_init has_cpuid leaf s in (cpu s, s))"

definition cpuid_cpuinfo_text :: "bool \<Rightarrow> cpuid_fn \<Rightarrow> cpuid_t \<Rightarrow> u8 list \<times> cpuid_t" where
  "cpuid_cpuinfo_text has_cpuid leaf s = (let s = cpuid_init has_cpuid leaf s in (cpuinfo_buf s, s))"

definition cpuid_cpuinfo_size :: "bool \<Rightarrow> cpuid_fn \<Rightarrow> cpuid_t \<Rightarrow> nat \<times> cpuid_t" where
  "cpuid_cpuinfo_size has_cpuid leaf s = (let s = cpuid_init has_cpuid leaf s in (length (cpuinfo_buf s), s))"

section \<open>The text fits\<close>

lemma append_str_le: "length buf \<le> 2047 \<Longrightarrow> length (append_str s buf) \<le> 2047"
  unfolding append_str_def by (induction s arbitrary: buf) (auto simp: append_char_def)

lemma append_char_le: "length buf \<le> 2047 \<Longrightarrow> length (append_char c buf) \<le> 2047"
  using append_str_le [of buf "[c]"] by (simp add: append_str_def)

lemma append_uint_le: "length buf \<le> 2047 \<Longrightarrow> length (append_uint v buf) \<le> 2047"
  using append_str_le [of buf] by (auto simp: append_uint_def append_char_le simp flip: append_str_def)

lemma append_flags_le: "length (snd st) \<le> 2047 \<Longrightarrow> length (snd (fold (append_flag bits) fs st)) \<le> 2047"
proof (induction fs arbitrary: st)
  case (Cons f fs)
  have "length (snd (append_flag bits f st)) \<le> 2047"
    using Cons.prems by (auto simp: append_flag_def append_str_le append_char_le)
  then show ?case using Cons.IH by simp
qed simp

lemma snd_le: "length b \<le> n \<Longrightarrow> length (snd (x, b)) \<le> n"
  by simp

lemmas append_le = append_str_le append_char_le append_uint_le append_flags_le

lemma build_cpuinfo_text_le: "length (build_cpuinfo_text c) \<le> 2047"
  unfolding build_cpuinfo_text_def Let_def append_field_str_def append_field_uint_def
  by (split if_split) (intro conjI impI append_le snd_le; simp)

end
