(* ===== verification/Vfs.thy ===== *)
theory Vfs
  imports Volume Cpuid
begin

text \<open>
  The descriptor layer, \<^verbatim>\<open>stage2/vfs.c\<close>: paths of devices and files, handles, and the descriptor table of a task. A
  handle is a number: -1 is empty, non-negative ones are FAT16 files, and ranges of negative ones are the null, zero
  and full devices, the cpuinfo device, terminals, UDP terminals and sockets. What lies outside the kernel is
  gathered in a parameter: the environment of the network stack, the disk, and the \<^verbatim>\<open>cpuid\<close> instruction.
\<close>

section \<open>State\<close>

record cpuinfo_file_t =
  ci_used :: bool
  ci_refs :: int
  ci_offset :: nat

record udp_tty_t =
  ut_port :: u16
  ut_bound :: bool
  ut_has_peer :: bool
  ut_peer_ip :: "u8 list"
  ut_peer_port :: u16
  ut_inbuf :: "u8 list"
  ut_in_len :: nat
  ut_in_pos :: nat
  ut_outbuf :: "u8 list"
  ut_out_len :: nat

record vfs_st = fs_st +
  cpuid :: cpuid_t
  cpuinfo_files :: "cpuinfo_file_t list"
  udp_ttys :: "udp_tty_t list"

record 's machine =
  m_env :: "'s env"
  m_disk :: device
  m_has_cpuid :: bool
  m_cpuid :: cpuid_fn

abbreviation upd_cpuinfo :: "nat \<Rightarrow> (cpuinfo_file_t \<Rightarrow> cpuinfo_file_t) \<Rightarrow> 'a vfs_st_scheme \<Rightarrow> 'a vfs_st_scheme" where
  "upd_cpuinfo i f s \<equiv> s\<lparr>cpuinfo_files := (cpuinfo_files s)[i := f (cpuinfo_files s ! i)]\<rparr>"

abbreviation upd_utty :: "nat \<Rightarrow> (udp_tty_t \<Rightarrow> udp_tty_t) \<Rightarrow> 'a vfs_st_scheme \<Rightarrow> 'a vfs_st_scheme" where
  "upd_utty i f s \<equiv> s\<lparr>udp_ttys := (udp_ttys s)[i := f (udp_ttys s ! i)]\<rparr>"

section \<open>Paths\<close>

fun path_eq :: "u8 list \<Rightarrow> u8 list \<Rightarrow> bool" where
  "path_eq (a # as) (b # bs) \<longleftrightarrow> a = b \<and> path_eq as bs"
| "path_eq [] [] \<longleftrightarrow> True"
| "path_eq _ _ \<longleftrightarrow> False"

fun path_has_prefix :: "u8 list \<Rightarrow> u8 list \<Rightarrow> bool" where
  "path_has_prefix p [] \<longleftrightarrow> True"
| "path_has_prefix [] (b # bs) \<longleftrightarrow> False"
| "path_has_prefix (a # as) (b # bs) \<longleftrightarrow> a = b \<and> path_has_prefix as bs"

definition tty_path_id :: "u8 list \<Rightarrow> 'a vfs_st_scheme \<Rightarrow> int" where
  "tty_path_id name s =
     (if path_eq name (text_of ''dev/tty'') then scheduler_current_tty s
      else if \<not> path_has_prefix name (text_of ''dev/tty'') then - 1
      else let n = sint (cstr_of name 7) in
        if n < 49 \<or> 48 + 4 < n \<or> cstr_of name 8 \<noteq> 0 then - 1 else n - 49)"

fun parse_digits :: "u32 \<Rightarrow> nat \<Rightarrow> u8 list \<Rightarrow> u16 option" where
  "parse_digits v digits [] = (if digits = 0 then None else Some (ucast v))"
| "parse_digits v digits (c # s) =
     (if 48 \<le> sint c \<and> sint c \<le> 57
      then let v = v * 10 + of_int (sint c - 48) in if 65535 < v then None else parse_digits v (digits + 1) s
      else None)"

definition parse_uint16 :: "u8 list \<Rightarrow> u16 option" where
  "parse_uint16 s = parse_digits 0 0 s"

section \<open>UDP terminals\<close>

definition zero_utty :: udp_tty_t where
  "zero_utty = \<lparr>ut_port = 0, ut_bound = False, ut_has_peer = False, ut_peer_ip = replicate 4 0, ut_peer_port = 0,
     ut_inbuf = replicate 1472 0, ut_in_len = 0, ut_in_pos = 0, ut_outbuf = replicate 2048 0, ut_out_len = 0\<rparr>"

definition udp_tty_for_port :: "u16 \<Rightarrow> 'a vfs_st_scheme \<Rightarrow> nat option \<times> 'a vfs_st_scheme" where
  "udp_tty_for_port port s =
     (case filter (\<lambda>i. ut_bound (udp_ttys s ! i) \<and> ut_port (udp_ttys s ! i) = port) [0..<8] of
        i # _ \<Rightarrow> (Some i, s)
      | [] \<Rightarrow>
          (case filter (\<lambda>i. \<not> ut_bound (udp_ttys s ! i)) [0..<8] of
             i # _ \<Rightarrow> (Some i, upd_utty i (\<lambda>_. zero_utty\<lparr>ut_port := port, ut_bound := True\<rparr>) s)
           | [] \<Rightarrow> (None, s)))"

definition udp_tty_handle_port :: "int \<Rightarrow> int" where
  "udp_tty_handle_port handle = (if handle \<le> - 1024 then - 1024 - handle else - 1)"

definition udp_tty_flush_output ::
    "('a vfs_st_scheme) machine \<Rightarrow> nat \<Rightarrow> 'a vfs_st_scheme \<Rightarrow> 'a vfs_st_scheme option" where
  "udp_tty_flush_output M i s =
     (let t = udp_ttys s ! i in
      if \<not> ut_has_peer t \<or> ut_out_len t = 0 then Some s
      else do { (r, s) \<leftarrow> udp_send_local (m_env M) (ut_port t) (ut_peer_ip t) (ut_peer_port t) (take (ut_out_len t) (ut_outbuf t)) s;
                Some (if r = 0 then upd_utty i (\<lambda>t. t\<lparr>ut_out_len := 0\<rparr>) s else s) })"

definition udp_tty_open :: "u8 list \<Rightarrow> 'a vfs_st_scheme \<Rightarrow> (int \<times> 'a vfs_st_scheme) option" where
  "udp_tty_open name s =
     (if \<not> path_has_prefix name (text_of ''dev/udp'') then Some (- 1, s)
      else case parse_uint16 (drop 7 name) of
        None \<Rightarrow> Some (- 1, s)
      | Some port \<Rightarrow>
          let (tty, s) = udp_tty_for_port port s in
          if tty = None then Some (- 1, s)
          else do { (r, s) \<leftarrow> udp_server_bind port s;
                    if r < 0 then Some (- 1, s) else Some (- 1024 - uint port, s) })"

section \<open>Devices\<close>

definition cpuinfo_open :: "u8 list \<Rightarrow> 'a vfs_st_scheme \<Rightarrow> int \<times> 'a vfs_st_scheme" where
  "cpuinfo_open name s =
     (if \<not> path_eq name (text_of ''dev/cpuinfo'') then (- 1, s)
      else case filter (\<lambda>i. \<not> ci_used (cpuinfo_files s ! i)) [0..<4] of
        i # _ \<Rightarrow> (- 8 - int i, upd_cpuinfo i (\<lambda>_. \<lparr>ci_used = True, ci_refs = 1, ci_offset = 0\<rparr>) s)
      | [] \<Rightarrow> (- 1, s))"

definition device_open :: "u8 list option \<Rightarrow> 'a vfs_st_scheme \<Rightarrow> (int \<times> 'a vfs_st_scheme) option" where
  "device_open path s =
     (case path of
        None \<Rightarrow> Some (- 1, s)
      | Some path \<Rightarrow>
          let name = normalize_path path in
          if path_eq name (text_of ''dev/null'') then Some (- 2, s)
          else if path_eq name (text_of ''dev/zero'') then Some (- 3, s)
          else if path_eq name (text_of ''dev/full'') then Some (- 4, s)
          else let (cpuinfo, s) = cpuinfo_open name s in
            if cpuinfo \<noteq> - 1 then Some (cpuinfo, s)
            else let tty = tty_path_id name s in
              if 0 \<le> tty then Some (- 32 - tty, s)
              else udp_tty_open name s)"

definition cpuinfo_handle_id :: "int \<Rightarrow> int" where
  "cpuinfo_handle_id handle = (if handle \<le> - 8 \<and> - 8 - 4 < handle then - 8 - handle else - 1)"

definition tty_handle_id :: "int \<Rightarrow> int" where
  "tty_handle_id handle = (if handle \<le> - 32 \<and> - 32 - 4 < handle then - 32 - handle else - 1)"

text \<open>Reading gives the return value and the bytes stored; \<open>dst\<close> says whether the buffer pointer is non-null.\<close>

definition cpuinfo_read ::
    "('a vfs_st_scheme) machine \<Rightarrow> int \<Rightarrow> nat \<Rightarrow> bool \<Rightarrow> 'a vfs_st_scheme \<Rightarrow> int \<times> u8 list \<times> 'a vfs_st_scheme" where
  "cpuinfo_read M handle sz dst s =
     (let id = cpuinfo_handle_id handle in
      if id < 0 \<or> \<not> ci_used (cpuinfo_files s ! nat id) \<or> \<not> dst then (- 1, [], s)
      else if sz = 0 then (0, [], s)
      else let (t, c) = cpuid_cpuinfo_text (m_has_cpuid M) (m_cpuid M) (cpuid s);
               (len, c) = cpuid_cpuinfo_size (m_has_cpuid M) (m_cpuid M) c;
               s = s\<lparr>cpuid := c\<rparr>;
               offset = ci_offset (cpuinfo_files s ! nat id)
           in if len \<le> offset then (0, [], s)
              else let remaining = len - offset; n = (if sz < remaining then sz else remaining)
                   in (int n, take n (drop offset t), upd_cpuinfo (nat id) (\<lambda>f. f\<lparr>ci_offset := ci_offset f + n\<rparr>) s))"

text \<open>The wait for a datagram: the processor spins, and interrupts may change the state meanwhile.\<close>

partial_function (option) udp_tty_wait ::
    "('a vfs_st_scheme) machine \<Rightarrow> nat \<Rightarrow> 'a vfs_st_scheme \<Rightarrow> 'a vfs_st_scheme option" where
  "udp_tty_wait M i s =
     (if ut_in_pos (udp_ttys s ! i) < ut_in_len (udp_ttys s ! i) then Some s
      else let s1 = upd_utty i (\<lambda>t. t\<lparr>ut_in_len := 0, ut_in_pos := 0\<rparr>) s;
               r = udp_server_recv (ut_port (udp_ttys s1 ! i)) 1472 s1
           in case fst r of
             Some (peer, port, data) \<Rightarrow>
               udp_tty_flush_output M i (upd_utty i (\<lambda>t. t\<lparr>ut_peer_ip := peer, ut_peer_port := port,
                 ut_inbuf := data @ drop (length data) (ut_inbuf t), ut_in_len := length data, ut_has_peer := True\<rparr>) (snd r))
           | None \<Rightarrow> do { s2 \<leftarrow> env_irq (m_env M) (snd r); udp_tty_wait M i s2 })"

definition device_read ::
    "('a vfs_st_scheme) machine \<Rightarrow> int \<Rightarrow> nat \<Rightarrow> bool \<Rightarrow> 'a vfs_st_scheme \<Rightarrow> (int \<times> u8 list \<times> 'a vfs_st_scheme) option" where
  "device_read M handle sz dst s =
     (if handle = - 2 then Some (0, [], s)
      else if handle = - 3 \<or> handle = - 4 then (if dst \<or> sz = 0 then Some (int sz, replicate sz 0, s) else None)
      else if 0 \<le> tty_handle_id handle
      then tty_read (env_others (m_env M)) (env_esp (m_env M)) (tty_handle_id handle) sz dst s
      else if 0 \<le> cpuinfo_handle_id handle then Some (cpuinfo_read M handle sz dst s)
      else if 0 \<le> udp_tty_handle_port handle
      then let (tty, s) = udp_tty_for_port (of_int (udp_tty_handle_port handle)) s in
        (case tty of
           None \<Rightarrow> Some (- 1, [], s)
         | Some i \<Rightarrow>
             if \<not> dst then Some (- 1, [], s)
             else do { s \<leftarrow> udp_tty_wait M i s;
                       let t = udp_ttys s ! i;
                       let available = ut_in_len t - ut_in_pos t;
                       let n = (if sz < available then sz else available);
                       Some (int n, take n (drop (ut_in_pos t) (ut_inbuf t)), upd_utty i (\<lambda>t. t\<lparr>ut_in_pos := ut_in_pos t + n\<rparr>) s) })
      else Some (- 1, [], s))"

definition cpuinfo_close :: "int \<Rightarrow> 'a vfs_st_scheme \<Rightarrow> int \<times> 'a vfs_st_scheme" where
  "cpuinfo_close handle s =
     (let id = cpuinfo_handle_id handle in
      if id < 0 \<or> \<not> ci_used (cpuinfo_files s ! nat id) then (- 1, s)
      else let s = upd_cpuinfo (nat id) (\<lambda>f. f\<lparr>ci_refs := ci_refs f - 1\<rparr>) s in
        (0, if ci_refs (cpuinfo_files s ! nat id) \<le> 0
            then upd_cpuinfo (nat id) (\<lambda>f. f\<lparr>ci_used := False, ci_offset := 0\<rparr>) s else s))"

definition cpuinfo_dup :: "int \<Rightarrow> 'a vfs_st_scheme \<Rightarrow> int \<times> 'a vfs_st_scheme" where
  "cpuinfo_dup handle s =
     (let id = cpuinfo_handle_id handle in
      if id < 0 \<or> \<not> ci_used (cpuinfo_files s ! nat id) then (- 1, s)
      else (0, upd_cpuinfo (nat id) (\<lambda>f. f\<lparr>ci_refs := ci_refs f + 1\<rparr>) s))"

definition device_close :: "int \<Rightarrow> 'a vfs_st_scheme \<Rightarrow> int \<times> 'a vfs_st_scheme" where
  "device_close handle s = (if 0 \<le> cpuinfo_handle_id handle then cpuinfo_close handle s else (0, s))"

definition device_dup :: "int \<Rightarrow> 'a vfs_st_scheme \<Rightarrow> int \<times> 'a vfs_st_scheme" where
  "device_dup handle s = (if 0 \<le> cpuinfo_handle_id handle then cpuinfo_dup handle s else (0, s))"

text \<open>The source of a write is \<open>None\<close> for a null pointer, with the size as its own argument.\<close>

definition device_write ::
    "('a vfs_st_scheme) machine \<Rightarrow> int \<Rightarrow> u8 list option \<Rightarrow> nat \<Rightarrow> 'a vfs_st_scheme \<Rightarrow> (int \<times> 'a vfs_st_scheme) option" where
  "device_write M handle src sz s =
     (if handle = - 2 \<or> handle = - 3 then Some (int sz, s)
      else if handle = - 4 then Some (- 1, s)
      else if 0 \<le> tty_handle_id handle then Some (tty_write_buf (tty_handle_id handle) src s)
      else if 0 \<le> udp_tty_handle_port handle
      then let (tty, s) = udp_tty_for_port (of_int (udp_tty_handle_port handle)) s in
        (case (tty, src) of
           (Some i, Some data) \<Rightarrow>
             let t = udp_ttys s ! i in
             if ut_has_peer t
             then do { (r, s) \<leftarrow> udp_send_local (m_env M) (ut_port t) (ut_peer_ip t) (ut_peer_port t) (take (sz mod 65536) data) s;
                       Some (if r = 0 then int sz else - 1, s) }
             else let room = 2048 - ut_out_len t; n = (if sz < room then sz else room)
                  in Some (int sz, upd_utty i (\<lambda>t. t\<lparr>
                       ut_outbuf := take (ut_out_len t) (ut_outbuf t) @ take n data @ drop (ut_out_len t + n) (ut_outbuf t),
                       ut_out_len := ut_out_len t + n\<rparr>) s)
         | _ \<Rightarrow> Some (- 1, s))
      else Some (- 1, s))"

section \<open>Handles\<close>

definition file_open ::
    "('a vfs_st_scheme) machine \<Rightarrow> u8 list option \<Rightarrow> 'a vfs_st_scheme \<Rightarrow> (int \<times> 'a vfs_st_scheme) option" where
  "file_open M path s =
     do { (device, s) \<leftarrow> device_open path s;
          if device \<noteq> - 1 then Some (device, s)
          else if \<not> current_driver s then Some (- 1, s)
          else fat16_open (m_env M) (m_disk M) path s }"

definition file_close :: "int \<Rightarrow> 'a vfs_st_scheme \<Rightarrow> int \<times> 'a vfs_st_scheme" where
  "file_close handle s =
     (if socket_handle_valid handle s then socket_close handle s
      else if handle < - 1 then device_close handle s
      else if \<not> current_driver s then (- 1, s)
      else fat16_close handle s)"

definition file_read ::
    "('a vfs_st_scheme) machine \<Rightarrow> int \<Rightarrow> nat \<Rightarrow> bool \<Rightarrow> 'a vfs_st_scheme \<Rightarrow> (int \<times> u8 list \<times> 'a vfs_st_scheme) option" where
  "file_read M handle sz dst s =
     (if socket_handle_valid handle s then socket_read (m_env M) handle dst sz s
      else if handle < - 1 then device_read M handle sz dst s
      else if \<not> current_driver s then Some (- 1, [], s)
      else fat16_read (m_env M) (m_disk M) handle sz s)"

definition file_write ::
    "('a vfs_st_scheme) machine \<Rightarrow> int \<Rightarrow> u8 list option \<Rightarrow> nat \<Rightarrow> 'a vfs_st_scheme \<Rightarrow> (int \<times> 'a vfs_st_scheme) option" where
  "file_write M handle src sz s =
     (if socket_handle_valid handle s then socket_write (m_env M) handle src s
      else if handle < - 1 then device_write M handle src sz s
      else if \<not> current_driver s then Some (- 1, s)
      else Some (fat16_write handle (case src of None \<Rightarrow> [] | Some d \<Rightarrow> d) s))"

section \<open>Descriptors\<close>

abbreviation set_fds :: "u32 \<Rightarrow> (int list \<Rightarrow> int list) \<Rightarrow> 'a vfs_st_scheme \<Rightarrow> 'a vfs_st_scheme" where
  "set_fds t f s \<equiv> upd_task t (\<lambda>c. c\<lparr>t_fds := f (t_fds c)\<rparr>) s"

definition vfs_attach_handle :: "int \<Rightarrow> 'a vfs_st_scheme \<Rightarrow> int \<times> 'a vfs_st_scheme" where
  "vfs_attach_handle handle s =
     (case scheduler_current_fds s of
        None \<Rightarrow> (- 1, s)
      | Some table \<Rightarrow>
          (case filter (\<lambda>i. table ! i = - 1) [0..<16] of
             i # _ \<Rightarrow> (int i, set_fds (current_task s) (\<lambda>t. t[i := handle]) s)
           | [] \<Rightarrow> (- 1, s)))"

definition vfs_open ::
    "('a vfs_st_scheme) machine \<Rightarrow> u8 list option \<Rightarrow> 'a vfs_st_scheme \<Rightarrow> (int \<times> 'a vfs_st_scheme) option" where
  "vfs_open M path s =
     do { (handle, s) \<leftarrow> file_open M path s;
          if handle = - 1 then Some (- 1, s)
          else let (fd, s) = vfs_attach_handle handle s in
            Some (fd, if fd < 0 then snd (file_close handle s) else s) }"

definition vfs_fd_handle :: "int \<Rightarrow> 'a vfs_st_scheme \<Rightarrow> int" where
  "vfs_fd_handle fd s =
     (case scheduler_current_fds s of
        None \<Rightarrow> - 1
      | Some table \<Rightarrow> if fd < 0 \<or> 16 \<le> fd \<or> table ! nat fd = - 1 then - 1 else table ! nat fd)"

definition vfs_read ::
    "('a vfs_st_scheme) machine \<Rightarrow> int \<Rightarrow> nat \<Rightarrow> bool \<Rightarrow> 'a vfs_st_scheme \<Rightarrow> (int \<times> u8 list \<times> 'a vfs_st_scheme) option" where
  "vfs_read M fd sz dst s =
     (if fd < 0 then Some (- 1, [], s)
      else case scheduler_current_fds s of
        None \<Rightarrow> Some (- 1, [], s)
      | Some table \<Rightarrow>
          if 16 \<le> fd \<or> table ! nat fd = - 1 then Some (- 1, [], s) else file_read M (table ! nat fd) sz dst s)"

definition vfs_write ::
    "('a vfs_st_scheme) machine \<Rightarrow> int \<Rightarrow> u8 list option \<Rightarrow> nat \<Rightarrow> 'a vfs_st_scheme \<Rightarrow> (int \<times> 'a vfs_st_scheme) option" where
  "vfs_write M fd src sz s =
     (if fd < 0 then Some (- 1, s)
      else case scheduler_current_fds s of
        None \<Rightarrow> Some (- 1, s)
      | Some table \<Rightarrow>
          if 16 \<le> fd \<or> table ! nat fd = - 1 then Some (- 1, s) else file_write M (table ! nat fd) src sz s)"

definition vfs_close :: "int \<Rightarrow> 'a vfs_st_scheme \<Rightarrow> int \<times> 'a vfs_st_scheme" where
  "vfs_close fd s =
     (if fd < 0 then (- 1, s)
      else case scheduler_current_fds s of
        None \<Rightarrow> (- 1, s)
      | Some table \<Rightarrow>
          if 16 \<le> fd \<or> table ! nat fd = - 1 then (- 1, s)
          else let (result, s) = file_close (table ! nat fd) s in
            (result, if result = 0 then set_fds (current_task s) (\<lambda>t. t[nat fd := - 1]) s else s))"

text \<open>Another reference for a handle, as \<^verbatim>\<open>vfs_dup2\<close> and \<^verbatim>\<open>vfs_fork_fds\<close> take it.\<close>

definition handle_dup :: "int \<Rightarrow> 'a vfs_st_scheme \<Rightarrow> 'a vfs_st_scheme" where
  "handle_dup handle s =
     (if socket_handle_valid handle s then snd (socket_dup handle s)
      else if handle < - 1 then snd (device_dup handle s)
      else if 0 \<le> handle \<and> current_driver s then snd (fat16_dup handle s)
      else s)"

definition vfs_dup2 :: "int \<Rightarrow> int \<Rightarrow> 'a vfs_st_scheme \<Rightarrow> int \<times> 'a vfs_st_scheme" where
  "vfs_dup2 oldfd newfd s =
     (case scheduler_current_fds s of
        None \<Rightarrow> (- 1, s)
      | Some table \<Rightarrow>
          if oldfd < 0 \<or> newfd < 0 \<or> 16 \<le> oldfd \<or> 16 \<le> newfd \<or> table ! nat oldfd = - 1 then (- 1, s)
          else if oldfd = newfd then (newfd, s)
          else if newfd \<le> 2 \<and> 0 \<le> tty_handle_id (table ! nat oldfd) \<and> tty_handle_id (table ! nat oldfd) \<noteq> scheduler_current_tty s
          then (- 1, s)
          else let s = (if table ! nat newfd \<noteq> - 1 then snd (vfs_close newfd s) else s);
                   h = t_fds (tasks s (current_task s)) ! nat oldfd
               in (newfd, handle_dup h (set_fds (current_task s) (\<lambda>t. t[nat newfd := h]) s)))"

text \<open>A table is the one of the task at an address; 0 is the null pointer.\<close>

definition vfs_bind_tty :: "u32 \<Rightarrow> int \<Rightarrow> 'a vfs_st_scheme \<Rightarrow> 'a vfs_st_scheme" where
  "vfs_bind_tty table tty s =
     (if table = 0 then s
      else let handle = - 32 - (if tty_valid tty then tty else 0)
           in set_fds table (\<lambda>t. t[0 := handle, 1 := handle, 2 := handle]) s)"

definition vfs_init_fds :: "u32 \<Rightarrow> int \<Rightarrow> 'a vfs_st_scheme \<Rightarrow> 'a vfs_st_scheme" where
  "vfs_init_fds table tty s =
     (if table = 0 then s
      else vfs_bind_tty table (if tty_valid tty then tty else 0) (set_fds table (\<lambda>_. replicate 16 (- 1)) s))"

definition fork_fd :: "u32 \<Rightarrow> nat \<Rightarrow> 'a vfs_st_scheme \<Rightarrow> 'a vfs_st_scheme" where
  "fork_fd child i s =
     (let h = t_fds (tasks s (current_task s)) ! i in handle_dup h (set_fds child (\<lambda>t. t[i := h]) s))"

definition vfs_fork_fds :: "u32 \<Rightarrow> 'a vfs_st_scheme \<Rightarrow> 'a vfs_st_scheme" where
  "vfs_fork_fds child s = (if current_task s = 0 \<or> child = 0 then s else fold (fork_fd child) [0..<16] s)"

definition exit_fd :: "u32 \<Rightarrow> nat \<Rightarrow> 'a vfs_st_scheme \<Rightarrow> 'a vfs_st_scheme" where
  "exit_fd table i s =
     (let h = t_fds (tasks s table) ! i in
      if socket_handle_valid h s then set_fds table (\<lambda>t. t[i := - 1]) (snd (socket_close h s))
      else if 0 \<le> h then set_fds table (\<lambda>t. t[i := - 1]) (snd (fat16_close h s))
      else if h < - 1 then set_fds table (\<lambda>t. t[i := - 1]) (snd (device_close h s))
      else s)"

definition vfs_exit_fds :: "u32 \<Rightarrow> 'a vfs_st_scheme \<Rightarrow> 'a vfs_st_scheme" where
  "vfs_exit_fds table s = (if table = 0 \<or> \<not> current_driver s then s else fold (exit_fd table) [0..<16] s)"

section \<open>Reference counts\<close>

definition file_refs :: "'a fs_st_scheme \<Rightarrow> int \<Rightarrow> nat" where
  "file_refs s h = (if fd_ok h s then unat (f_refs (open_files s ! nat h)) else 0)"

definition files_ok :: "'a fs_st_scheme \<Rightarrow> bool" where
  "files_ok s \<longleftrightarrow> length (open_files s) = 8 \<and> (\<forall>f \<in> set (open_files s). f_used f \<longrightarrow> f_refs f \<noteq> 0)"

definition cpuinfo_live :: "int \<Rightarrow> 'a vfs_st_scheme \<Rightarrow> bool" where
  "cpuinfo_live h s \<longleftrightarrow> 0 \<le> cpuinfo_handle_id h \<and> ci_used (cpuinfo_files s ! nat (cpuinfo_handle_id h))"

definition cpuinfo_refs :: "'a vfs_st_scheme \<Rightarrow> int \<Rightarrow> nat" where
  "cpuinfo_refs s h = (if cpuinfo_live h s then nat (ci_refs (cpuinfo_files s ! nat (cpuinfo_handle_id h))) else 0)"

definition cpuinfos_ok :: "'a vfs_st_scheme \<Rightarrow> bool" where
  "cpuinfos_ok s \<longleftrightarrow> length (cpuinfo_files s) = 4 \<and> (\<forall>f \<in> set (cpuinfo_files s). ci_used f \<longrightarrow> 0 < ci_refs f)"

lemma file_upd:
  assumes "files_ok s" "fd_ok h s" "f_used k \<longrightarrow> f_refs k \<noteq> 0" "n = (if f_used k then unat (f_refs k) else 0)"
  shows "files_ok (upd_file (nat h) (\<lambda>_. k) s)" "file_refs (upd_file (nat h) (\<lambda>_. k) s) = (file_refs s)(h := n)"
proof -
  show "files_ok (upd_file (nat h) (\<lambda>_. k) s)"
    using assms by (auto simp: files_ok_def dest!: set_update_subset_insert [THEN subsetD])
  have h: "0 \<le> h" "h < 8" "nat h < length (open_files s)" using assms(1,2) by (auto simp: fd_ok_def files_ok_def)
  show "file_refs (upd_file (nat h) (\<lambda>_. k) s) = (file_refs s)(h := n)"
  proof
    fix g
    show "file_refs (upd_file (nat h) (\<lambda>_. k) s) g = ((file_refs s)(h := n)) g"
    proof (cases "g = h")
      case True
      then show ?thesis using h assms(4) by (simp add: file_refs_def fd_ok_def)
    next
      case False
      then have "(open_files s)[nat h := k] ! nat g = open_files s ! nat g" if "0 \<le> g" using h that by simp
      then show ?thesis using False by (auto simp: file_refs_def fd_ok_def)
    qed
  qed
qed

lemma fat16_dup_step:
  assumes "files_ok s" "file_refs s h < 2147483647"
  shows "files_ok (snd (fat16_dup h s)) \<and>
    file_refs (snd (fat16_dup h s)) = (if 0 < file_refs s h then (file_refs s)(h := file_refs s h + 1) else file_refs s)"
proof (cases "fd_ok h s")
  case True
  let ?f = "open_files s ! nat h"
  have h: "f_used ?f" "?f \<in> set (open_files s)" using assms(1) True by (auto simp: fd_ok_def files_ok_def)
  then have p: "0 < unat (f_refs ?f)" using assms(1) by (auto simp: files_ok_def unat_gt_0)
  have r: "file_refs s h = unat (f_refs ?f)" using True by (simp add: file_refs_def)
  then have u: "unat (f_refs ?f + 1) = unat (f_refs ?f) + 1" using assms(2) by (simp add: unat_word_ariths)
  then have "f_refs ?f + 1 \<noteq> 0" by (metis Suc_eq_plus1 nat.distinct(1) unat_0)
  then show ?thesis
    using file_upd [OF assms(1) True, of "?f\<lparr>f_refs := f_refs ?f + 1\<rparr>" "unat (f_refs ?f) + 1"] h(1) p r u True
    by (simp add: fat16_dup_def)
qed (use assms in \<open>auto simp: fat16_dup_def file_refs_def\<close>)

lemma fat16_close_step:
  assumes "files_ok s"
  shows "files_ok (snd (fat16_close h s)) \<and> file_refs (snd (fat16_close h s)) = (file_refs s)(h := file_refs s h - 1)"
proof (cases "fd_ok h s")
  case True
  let ?f = "open_files s ! nat h" and ?k = "(open_files s ! nat h)\<lparr>f_refs := f_refs (open_files s ! nat h) - 1\<rparr>"
  have h: "f_used ?f" "?f \<in> set (open_files s)" "nat h < length (open_files s)" using assms True by (auto simp: fd_ok_def files_ok_def)
  then have p: "f_refs ?f \<noteq> 0" using assms by (auto simp: files_ok_def)
  then have u: "unat (f_refs ?f - 1) = unat (f_refs ?f) - 1" by (simp add: unat_minus_one)
  have r: "file_refs s h = unat (f_refs ?f)" using True by (simp add: file_refs_def)
  show ?thesis
  proof (cases "0 < f_refs ?f - 1")
    case c: True
    then have "snd (fat16_close h s) = upd_file (nat h) (\<lambda>_. ?k) s" using True h by (simp add: fat16_close_def Let_def)
    moreover have "f_refs ?f \<noteq> 1" using c by auto
    ultimately show ?thesis using file_upd [OF assms True, of ?k "unat (f_refs ?f) - 1"] u r h(1) by simp
  next
    case c: False
    then have "snd (fat16_close h s) = upd_file (nat h) (\<lambda>_. ?k\<lparr>f_used := False\<rparr>) s" using True h by (simp add: fat16_close_def Let_def)
    moreover have "unat (f_refs ?f) - 1 = 0" using c u by (simp add: word_greater_zero_iff)
    ultimately show ?thesis using file_upd [OF assms True, of "?k\<lparr>f_used := False\<rparr>" 0] r by simp
  qed
qed (use assms in \<open>auto simp: fat16_close_def file_refs_def\<close>)

lemma cpuinfo_id_range: "0 \<le> cpuinfo_handle_id h \<Longrightarrow> cpuinfo_handle_id h < 4 \<and> h = - 8 - cpuinfo_handle_id h"
  by (auto simp: cpuinfo_handle_id_def split: if_splits)

lemma cpuinfo_id_inj: "0 \<le> cpuinfo_handle_id g \<Longrightarrow> 0 \<le> cpuinfo_handle_id h \<Longrightarrow>
    nat (cpuinfo_handle_id g) = nat (cpuinfo_handle_id h) \<longleftrightarrow> g = h"
  using cpuinfo_id_range [of g] cpuinfo_id_range [of h] by auto

lemma cpuinfo_upd:
  assumes "cpuinfos_ok s" "cpuinfo_live h s" "ci_used k \<longrightarrow> 0 < ci_refs k" "n = (if ci_used k then nat (ci_refs k) else 0)"
  shows "cpuinfos_ok (upd_cpuinfo (nat (cpuinfo_handle_id h)) (\<lambda>_. k) s)"
    "cpuinfo_refs (upd_cpuinfo (nat (cpuinfo_handle_id h)) (\<lambda>_. k) s) = (cpuinfo_refs s)(h := n)"
proof -
  show "cpuinfos_ok (upd_cpuinfo (nat (cpuinfo_handle_id h)) (\<lambda>_. k) s)"
    using assms by (auto simp: cpuinfos_ok_def dest!: set_update_subset_insert [THEN subsetD])
  have h: "0 \<le> cpuinfo_handle_id h" "nat (cpuinfo_handle_id h) < length (cpuinfo_files s)"
    using assms(1,2) cpuinfo_id_range [of h] by (auto simp: cpuinfo_live_def cpuinfos_ok_def)
  show "cpuinfo_refs (upd_cpuinfo (nat (cpuinfo_handle_id h)) (\<lambda>_. k) s) = (cpuinfo_refs s)(h := n)"
  proof
    fix g
    show "cpuinfo_refs (upd_cpuinfo (nat (cpuinfo_handle_id h)) (\<lambda>_. k) s) g = ((cpuinfo_refs s)(h := n)) g"
      using h assms(4) cpuinfo_id_inj [of h g] by (cases "0 \<le> cpuinfo_handle_id g") (auto simp: cpuinfo_refs_def cpuinfo_live_def)
  qed
qed

lemma device_dup_step:
  assumes "cpuinfos_ok s"
  shows "cpuinfos_ok (snd (device_dup h s)) \<and>
    cpuinfo_refs (snd (device_dup h s)) = (if 0 < cpuinfo_refs s h then (cpuinfo_refs s)(h := cpuinfo_refs s h + 1) else cpuinfo_refs s)"
proof (cases "cpuinfo_live h s")
  case True
  let ?f = "cpuinfo_files s ! nat (cpuinfo_handle_id h)"
  have "?f \<in> set (cpuinfo_files s)" using assms True cpuinfo_id_range [of h] by (intro nth_mem) (auto simp: cpuinfos_ok_def cpuinfo_live_def)
  then have r: "0 < ci_refs ?f" "ci_used ?f" using assms True by (auto simp: cpuinfos_ok_def cpuinfo_live_def)
  then have "cpuinfo_refs s h = nat (ci_refs ?f)" using True by (simp add: cpuinfo_refs_def)
  then show ?thesis
    using True r cpuinfo_upd [OF assms True, of "?f\<lparr>ci_refs := ci_refs ?f + 1\<rparr>" "nat (ci_refs ?f + 1)"]
    by (auto simp: device_dup_def cpuinfo_dup_def cpuinfo_live_def Let_def nat_add_distrib)
qed (use assms in \<open>auto simp: device_dup_def cpuinfo_dup_def cpuinfo_live_def cpuinfo_refs_def Let_def\<close>)

lemma device_close_step:
  assumes "cpuinfos_ok s"
  shows "cpuinfos_ok (snd (device_close h s)) \<and> cpuinfo_refs (snd (device_close h s)) = (cpuinfo_refs s)(h := cpuinfo_refs s h - 1)"
proof (cases "cpuinfo_live h s")
  case True
  let ?f = "cpuinfo_files s ! nat (cpuinfo_handle_id h)"
  have l: "nat (cpuinfo_handle_id h) < length (cpuinfo_files s)" "0 \<le> cpuinfo_handle_id h"
    using assms True cpuinfo_id_range [of h] by (auto simp: cpuinfos_ok_def cpuinfo_live_def)
  then have "?f \<in> set (cpuinfo_files s)" by simp
  then have r: "0 < ci_refs ?f" "ci_used ?f" using assms True by (auto simp: cpuinfos_ok_def cpuinfo_live_def)
  let ?k = "if ci_refs ?f = 1 then \<lparr>ci_used = False, ci_refs = 0, ci_offset = 0\<rparr> else ?f\<lparr>ci_refs := ci_refs ?f - 1\<rparr>"
  have "snd (device_close h s) = upd_cpuinfo (nat (cpuinfo_handle_id h)) (\<lambda>_. ?k) s"
    using l r by (cases ?f) (auto simp: device_close_def cpuinfo_close_def Let_def)
  moreover have "cpuinfo_refs s h - 1 = (if ci_used ?k then nat (ci_refs ?k) else 0)" using True r by (auto simp: cpuinfo_refs_def nat_diff_distrib)
  moreover have "ci_used ?k \<longrightarrow> 0 < ci_refs ?k" using r by auto
  ultimately show ?thesis using cpuinfo_upd [OF assms True] by metis
qed (use assms in \<open>auto simp: device_close_def cpuinfo_close_def cpuinfo_live_def cpuinfo_refs_def Let_def\<close>)


section \<open>The descriptor layer as one table of references\<close>

definition vfs_refs :: "'a vfs_st_scheme \<Rightarrow> int \<Rightarrow> nat" where
  "vfs_refs s h = socket_refs s h + cpuinfo_refs s h + file_refs s h"

definition vfs_inv :: "'a vfs_st_scheme \<Rightarrow> bool" where
  "vfs_inv s \<longleftrightarrow> sockets_ok s \<and> cpuinfos_ok s \<and> files_ok s \<and> current_driver s"

text \<open>Giving a reference back, as \<^verbatim>\<open>vfs_exit_fds\<close> does it.\<close>

definition handle_close :: "int \<Rightarrow> 'a vfs_st_scheme \<Rightarrow> 'a vfs_st_scheme" where
  "handle_close h s =
     (if socket_handle_valid h s then snd (socket_close h s)
      else if 0 \<le> h then snd (fat16_close h s)
      else if h < - 1 then snd (device_close h s)
      else s)"

lemma refs_zero:
  "\<not> socket_handle_valid h s \<Longrightarrow> socket_refs s h = 0" "- 12 < h \<Longrightarrow> socket_refs s h = 0"
  "h < - 11 \<or> - 8 < h \<Longrightarrow> cpuinfo_refs s h = 0" "h < 0 \<Longrightarrow> file_refs s h = 0"
  by (auto simp: socket_handle_valid_def socket_refs_def socket_from_handle_def socket_index_from_handle_def Let_def cpuinfo_refs_def
      cpuinfo_live_def cpuinfo_handle_id_def file_refs_def fd_ok_def split: option.split)

lemma socket_valid_range: "socket_handle_valid h s \<Longrightarrow> h \<le> - 4096"
  by (auto simp: socket_handle_valid_def socket_from_handle_def socket_index_from_handle_def Let_def split: if_splits)

lemma other_tables:
  "cpuinfo_files (snd (socket_dup h s)) = cpuinfo_files s" "open_files (snd (socket_dup h s)) = open_files s"
  "current_driver (snd (socket_dup h s)) = current_driver s"
  "cpuinfo_files (snd (socket_close h s)) = cpuinfo_files s" "open_files (snd (socket_close h s)) = open_files s"
  "current_driver (snd (socket_close h s)) = current_driver s"
  "cpuinfo_files (snd (fat16_dup h s)) = cpuinfo_files s" "sockets (snd (fat16_dup h s)) = sockets s"
  "current_driver (snd (fat16_dup h s)) = current_driver s"
  "cpuinfo_files (snd (fat16_close h s)) = cpuinfo_files s" "sockets (snd (fat16_close h s)) = sockets s"
  "current_driver (snd (fat16_close h s)) = current_driver s"
  "open_files (snd (device_dup h s)) = open_files s" "sockets (snd (device_dup h s)) = sockets s"
  "current_driver (snd (device_dup h s)) = current_driver s"
  "open_files (snd (device_close h s)) = open_files s" "sockets (snd (device_close h s)) = sockets s"
  "current_driver (snd (device_close h s)) = current_driver s"
  by (auto simp: socket_dup_def socket_close_def fat16_dup_def fat16_close_def device_dup_def device_close_def cpuinfo_dup_def
      cpuinfo_close_def Let_def split: option.split)

lemma tables_cong:
  "sockets s' = sockets s \<Longrightarrow> socket_refs s' = socket_refs s" "sockets s' = sockets s \<Longrightarrow> sockets_ok s' = sockets_ok s"
  "cpuinfo_files s' = cpuinfo_files s \<Longrightarrow> cpuinfo_refs s' = cpuinfo_refs s" "cpuinfo_files s' = cpuinfo_files s \<Longrightarrow> cpuinfos_ok s' = cpuinfos_ok s"
  "open_files s' = open_files s \<Longrightarrow> file_refs s' = file_refs s" "open_files s' = open_files s \<Longrightarrow> files_ok s' = files_ok s"
  for s s' :: "'a vfs_st_scheme"
  by (auto simp: socket_refs_def socket_from_handle_def sockets_ok_def cpuinfo_refs_def cpuinfo_live_def cpuinfos_ok_def file_refs_def
      fd_ok_def files_ok_def fun_eq_iff Let_def split: option.split)


lemma handle_dup_step:
  assumes "vfs_inv s" "vfs_refs s h < 2147483647"
  shows "vfs_inv (handle_dup h s) \<and>
    vfs_refs (handle_dup h s) = (if 0 < vfs_refs s h then (vfs_refs s)(h := vfs_refs s h + 1) else vfs_refs s)"
proof -
  have inv: "sockets_ok s" "cpuinfos_ok s" "files_ok s" "current_driver s" and fr: "file_refs s h < 2147483647"
    using assms by (auto simp: vfs_inv_def vfs_refs_def)
  consider "socket_handle_valid h s" | "\<not> socket_handle_valid h s" "h < - 1" | "\<not> socket_handle_valid h s" "0 \<le> h" | "h = - 1" "\<not> socket_handle_valid h s"
    by linarith
  then show ?thesis
  proof cases
    case 1
    let ?s = "snd (socket_dup h s)"
    have z: "cpuinfo_refs s h = 0" "file_refs s h = 0" using socket_valid_range [OF 1] by (simp_all add: refs_zero)
    have e: "cpuinfo_refs ?s = cpuinfo_refs s" "file_refs ?s = file_refs s" "cpuinfos_ok ?s = cpuinfos_ok s" "files_ok ?s = files_ok s"
      by (rule tables_cong; simp only: other_tables)+
    have d: "sockets_ok ?s" "socket_refs ?s = (if 0 < socket_refs s h then (socket_refs s)(h := socket_refs s h + 1) else socket_refs s)"
      using sock.dup_step [OF inv(1), of h] by blast+
    show ?thesis
      using 1 inv z d(1) by (simp add: handle_dup_def vfs_inv_def vfs_refs_def e other_tables d(2) fun_eq_iff)
  next
    case 2
    let ?s = "snd (device_dup h s)"
    have z: "socket_refs s h = 0" "file_refs s h = 0" using 2 by (simp_all add: refs_zero)
    have e: "socket_refs ?s = socket_refs s" "file_refs ?s = file_refs s" "sockets_ok ?s = sockets_ok s" "files_ok ?s = files_ok s"
      by (rule tables_cong; simp only: other_tables)+
    show ?thesis
      using 2 device_dup_step [OF inv(2), of h] inv z by (auto simp: handle_dup_def vfs_inv_def vfs_refs_def e other_tables fun_eq_iff)
  next
    case 3
    let ?s = "snd (fat16_dup h s)"
    have z: "socket_refs s h = 0" "cpuinfo_refs s h = 0" using 3 by (simp_all add: refs_zero)
    have e: "socket_refs ?s = socket_refs s" "cpuinfo_refs ?s = cpuinfo_refs s" "sockets_ok ?s = sockets_ok s" "cpuinfos_ok ?s = cpuinfos_ok s"
      by (rule tables_cong; simp only: other_tables)+
    show ?thesis
      using 3 fat16_dup_step [OF inv(3) fr] inv z by (auto simp: handle_dup_def vfs_inv_def vfs_refs_def e other_tables fun_eq_iff)
  next
    case 4
    then show ?thesis using assms(1) by (simp add: handle_dup_def vfs_refs_def refs_zero)
  qed
qed

lemma handle_close_step:
  assumes "vfs_inv s"
  shows "vfs_inv (handle_close h s) \<and> vfs_refs (handle_close h s) = (vfs_refs s)(h := vfs_refs s h - 1)"
proof -
  have inv: "sockets_ok s" "cpuinfos_ok s" "files_ok s" "current_driver s"
    using assms by (auto simp: vfs_inv_def)
  consider "socket_handle_valid h s" | "\<not> socket_handle_valid h s" "h < - 1" | "\<not> socket_handle_valid h s" "0 \<le> h" | "h = - 1" "\<not> socket_handle_valid h s"
    by linarith
  then show ?thesis
  proof cases
    case 1
    let ?s = "snd (socket_close h s)"
    have z: "cpuinfo_refs s h = 0" "file_refs s h = 0" using socket_valid_range [OF 1] by (simp_all add: refs_zero)
    have e: "cpuinfo_refs ?s = cpuinfo_refs s" "file_refs ?s = file_refs s" "cpuinfos_ok ?s = cpuinfos_ok s" "files_ok ?s = files_ok s"
      by (rule tables_cong; simp only: other_tables)+
    have d: "sockets_ok ?s" "socket_refs ?s = ((socket_refs s)(h := socket_refs s h - 1))"
      using sock.close_step [OF inv(1), of h] by blast+
    show ?thesis
      using 1 inv z d(1) by (simp add: handle_close_def vfs_inv_def vfs_refs_def e other_tables d(2) fun_eq_iff)
  next
    case 2
    let ?s = "snd (device_close h s)"
    have z: "socket_refs s h = 0" "file_refs s h = 0" using 2 by (simp_all add: refs_zero)
    have e: "socket_refs ?s = socket_refs s" "file_refs ?s = file_refs s" "sockets_ok ?s = sockets_ok s" "files_ok ?s = files_ok s"
      by (rule tables_cong; simp only: other_tables)+
    show ?thesis
      using 2 device_close_step [OF inv(2), of h] inv z by (auto simp: handle_close_def vfs_inv_def vfs_refs_def e other_tables fun_eq_iff)
  next
    case 3
    let ?s = "snd (fat16_close h s)"
    have z: "socket_refs s h = 0" "cpuinfo_refs s h = 0" using 3 by (simp_all add: refs_zero)
    have e: "socket_refs ?s = socket_refs s" "cpuinfo_refs ?s = cpuinfo_refs s" "sockets_ok ?s = sockets_ok s" "cpuinfos_ok ?s = cpuinfos_ok s"
      by (rule tables_cong; simp only: other_tables)+
    show ?thesis
      using 3 fat16_close_step [OF inv(3), of h] inv z by (auto simp: handle_close_def vfs_inv_def vfs_refs_def e other_tables fun_eq_iff)
  next
    case 4
    then show ?thesis using assms(1) by (simp add: handle_close_def vfs_refs_def refs_zero fun_upd_idem)
  qed
qed

interpretation fds: shared_handles vfs_inv vfs_refs handle_dup handle_close 2147483647
  by unfold_locales (fact handle_dup_step handle_close_step)+

section \<open>Fork and exit\<close>

text \<open>The references live outside the task table, so that taking and giving back commutes with changes of tables.\<close>

lemma sockets_tasks:
  fixes s :: "'a vfs_st_scheme"
  shows "socket_from_handle h (s\<lparr>tasks := T\<rparr>) = socket_from_handle h s"
    "socket_handle_valid h (s\<lparr>tasks := T\<rparr>) = socket_handle_valid h s"
    "snd (socket_dup h (s\<lparr>tasks := T\<rparr>)) = (snd (socket_dup h s))\<lparr>tasks := T\<rparr>"
    "snd (socket_close h (s\<lparr>tasks := T\<rparr>)) = (snd (socket_close h s))\<lparr>tasks := T\<rparr>"
proof -
  show e: "socket_from_handle h (s\<lparr>tasks := T\<rparr>) = socket_from_handle h s" by (simp add: socket_from_handle_def)
  show "socket_handle_valid h (s\<lparr>tasks := T\<rparr>) = socket_handle_valid h s" by (simp add: socket_handle_valid_def e)
  show "snd (socket_dup h (s\<lparr>tasks := T\<rparr>)) = (snd (socket_dup h s))\<lparr>tasks := T\<rparr>"
    by (cases "socket_from_handle h s") (simp_all add: socket_dup_def e)
  show "snd (socket_close h (s\<lparr>tasks := T\<rparr>)) = (snd (socket_close h s))\<lparr>tasks := T\<rparr>"
  proof (cases "socket_from_handle h s")
    case (Some i)
    then show ?thesis unfolding socket_close_def e Let_def
      by (cases "0 < sk_refs (sockets s ! i)";
          cases "sk_refs ((sockets s)[i := (sockets s ! i)\<lparr>sk_refs := sk_refs (sockets s ! i) - 1\<rparr>] ! i) = 0";
          cases "sk_refs (sockets s ! i) = 0") simp_all
  qed (simp add: socket_close_def e)
qed

lemma fat16_tasks:
  fixes s :: "'a vfs_st_scheme"
  shows "fd_ok h (s\<lparr>tasks := T\<rparr>) = fd_ok h s"
    "snd (fat16_dup h (s\<lparr>tasks := T\<rparr>)) = (snd (fat16_dup h s))\<lparr>tasks := T\<rparr>"
    "snd (fat16_close h (s\<lparr>tasks := T\<rparr>)) = (snd (fat16_close h s))\<lparr>tasks := T\<rparr>"
proof -
  show e: "fd_ok h (s\<lparr>tasks := T\<rparr>) = fd_ok h s" by (simp add: fd_ok_def)
  show "snd (fat16_dup h (s\<lparr>tasks := T\<rparr>)) = (snd (fat16_dup h s))\<lparr>tasks := T\<rparr>" by (simp add: fat16_dup_def e)
  show "snd (fat16_close h (s\<lparr>tasks := T\<rparr>)) = (snd (fat16_close h s))\<lparr>tasks := T\<rparr>" 
    unfolding fat16_close_def e Let_def
    by (cases "fd_ok h s"; cases "0 < f_refs ((open_files s)[nat h := (open_files s ! nat h)\<lparr>f_refs := f_refs (open_files s ! nat h) - 1\<rparr>] ! nat h)")
      simp_all
qed

lemma device_tasks:
  "snd (device_dup h (s\<lparr>tasks := T\<rparr>)) = (snd (device_dup h s))\<lparr>tasks := T\<rparr>"
  "snd (device_close h (s\<lparr>tasks := T\<rparr>)) = (snd (device_close h s))\<lparr>tasks := T\<rparr>"
proof -
  let ?i = "nat (cpuinfo_handle_id h)" and ?f = "cpuinfo_files s ! nat (cpuinfo_handle_id h)"
  show "snd (device_dup h (s\<lparr>tasks := T\<rparr>)) = (snd (device_dup h s))\<lparr>tasks := T\<rparr>"
    by (cases "cpuinfo_handle_id h < 0"; cases "ci_used ?f") (simp_all add: device_dup_def cpuinfo_dup_def Let_def)
  show "snd (device_close h (s\<lparr>tasks := T\<rparr>)) = (snd (device_close h s))\<lparr>tasks := T\<rparr>"
    unfolding device_close_def cpuinfo_close_def Let_def
    by (cases "cpuinfo_handle_id h < 0"; cases "ci_used ?f";
        cases "ci_refs ((cpuinfo_files s)[?i := ?f\<lparr>ci_refs := ci_refs ?f - 1\<rparr>] ! ?i) \<le> 0") simp_all
qed

lemma handle_tasks:
  "handle_dup h (s\<lparr>tasks := T\<rparr>) = (handle_dup h s)\<lparr>tasks := T\<rparr>"
  "handle_close h (s\<lparr>tasks := T\<rparr>) = (handle_close h s)\<lparr>tasks := T\<rparr>"
  by (simp_all add: handle_dup_def handle_close_def sockets_tasks fat16_tasks device_tasks)


lemma handle_tasks_same:
  "tasks (handle_dup h s) = tasks s" "current_task (handle_dup h s) = current_task s"
  "tasks (handle_close h s) = tasks s" "current_task (handle_close h s) = current_task s"
proof -
  have "tasks (snd (socket_dup h s)) = tasks s" "current_task (snd (socket_dup h s)) = current_task s"
    "tasks (snd (socket_close h s)) = tasks s" "current_task (snd (socket_close h s)) = current_task s"
    by (cases "socket_from_handle h s"; simp add: socket_dup_def socket_close_def Let_def)+
  moreover have "tasks (snd (fat16_dup h s)) = tasks s" "current_task (snd (fat16_dup h s)) = current_task s"
    "tasks (snd (fat16_close h s)) = tasks s" "current_task (snd (fat16_close h s)) = current_task s"
    by (simp_all add: fat16_dup_def fat16_close_def Let_def)
  moreover have "tasks (snd (device_dup h s)) = tasks s" "current_task (snd (device_dup h s)) = current_task s"
    "tasks (snd (device_close h s)) = tasks s" "current_task (snd (device_close h s)) = current_task s"
    by (simp_all add: device_dup_def device_close_def cpuinfo_dup_def cpuinfo_close_def Let_def)
  ultimately show "tasks (handle_dup h s) = tasks s" "current_task (handle_dup h s) = current_task s"
    "tasks (handle_close h s) = tasks s" "current_task (handle_close h s) = current_task s"
    by (simp_all add: handle_dup_def handle_close_def)
qed

lemma fold_tasks_same:
  "tasks (fold handle_dup hs s) = tasks s" "current_task (fold handle_dup hs s) = current_task s"
  "tasks (fold handle_close hs s) = tasks s" "current_task (fold handle_close hs s) = current_task s"
  by (induction hs arbitrary: s) (simp_all add: handle_tasks_same)

lemma fold_tasks:
  "fold handle_close hs (s\<lparr>tasks := T\<rparr>) = (fold handle_close hs s)\<lparr>tasks := T\<rparr>"
  by (induction hs arbitrary: s) (simp_all add: handle_tasks)

lemma fork_fold:
  assumes "child \<noteq> current_task s" "length (t_fds (tasks s child)) = 16" "P = t_fds (tasks s (current_task s))" "length P = 16"
  shows "n \<le> 16 \<Longrightarrow> fold (fork_fd child) [0..<n] s =
    (fold handle_dup (take n P) s)\<lparr>tasks := (tasks s)(child := (tasks s child)\<lparr>t_fds := take n P @ drop n (t_fds (tasks s child))\<rparr>)\<rparr>"
proof (induction n)
  case 0
  have "(tasks s)(child := (tasks s child)\<lparr>t_fds := t_fds (tasks s child)\<rparr>) = tasks s" by simp
  then show ?case by simp
next
  case (Suc n)
  have n: "take (Suc n) P = take n P @ [P ! n]" using Suc.prems assms(4) by (simp add: take_Suc_conv_app_nth)
  have d: "drop n (t_fds (tasks s child)) = t_fds (tasks s child) ! n # drop (Suc n) (t_fds (tasks s child))"
    using Suc.prems assms(2) by (simp add: Cons_nth_drop_Suc)
  let ?X = "(fold handle_dup (take n P) s)\<lparr>tasks := (tasks s)(child := (tasks s child)\<lparr>t_fds := take n P @ drop n (t_fds (tasks s child))\<rparr>)\<rparr>"
  have x: "current_task ?X = current_task s" "tasks ?X (current_task s) = tasks s (current_task s)"
    "tasks ?X child = (tasks s child)\<lparr>t_fds := take n P @ drop n (t_fds (tasks s child))\<rparr>"
    using assms(1) by (simp_all add: fold_tasks_same)
  have u: "(take n P @ drop n (t_fds (tasks s child)))[n := P ! n] = take (Suc n) P @ drop (Suc n) (t_fds (tasks s child))"
    using Suc.prems assms(4) by (simp add: list_update_append d n min_def)
  have f: "fork_fd child n ?X = handle_dup (P ! n) (set_fds child (\<lambda>t. t[n := P ! n]) ?X)"
    unfolding fork_fd_def Let_def x(1,2) assms(3) [symmetric] ..
  have "fold (fork_fd child) [0..<Suc n] s = fork_fd child n (fold (fork_fd child) [0..<n] s)" by simp
  also have "\<dots> = handle_dup (P ! n) (set_fds child (\<lambda>t. t[n := P ! n]) ?X)"
    unfolding Suc.IH [OF Suc_leD [OF Suc.prems]] by (rule f)
  also have "set_fds child (\<lambda>t. t[n := P ! n]) ?X = (fold handle_dup (take n P) s)\<lparr>tasks := (tasks s)(child := (tasks s child)\<lparr>
      t_fds := take (Suc n) P @ drop (Suc n) (t_fds (tasks s child))\<rparr>)\<rparr>"
    by (simp add: u)
  finally show ?case by (simp only: handle_tasks n fold_append fold_simps comp_apply)
qed


lemma exit_fd_eq:
  assumes "h = t_fds (tasks s t) ! i"
  shows "exit_fd t i s = (handle_close h s)\<lparr>tasks := (tasks s)(t := (tasks s t)\<lparr>t_fds := (t_fds (tasks s t))[i := - 1]\<rparr>)\<rparr>"
proof (cases "socket_handle_valid h s \<or> 0 \<le> h \<or> h < - 1")
  case True
  then have "exit_fd t i s = set_fds t (\<lambda>t. t[i := - 1]) (handle_close h s)"
    unfolding exit_fd_def assms [symmetric] Let_def handle_close_def by (elim disjE) simp_all
  then show ?thesis by (simp only: handle_tasks_same)
next
  case False
  then have h: "h = - 1" by linarith
  then have "(t_fds (tasks s t))[i := - 1] = t_fds (tasks s t)" using assms by (metis list_update_id)
  moreover have "(tasks s)(t := (tasks s t)\<lparr>t_fds := t_fds (tasks s t)\<rparr>) = tasks s" by simp
  ultimately show ?thesis
    using False unfolding exit_fd_def assms [symmetric] Let_def handle_close_def by simp
qed

lemma exit_fold:
  assumes "P = t_fds (tasks s t)" "length P = 16"
  shows "n \<le> 16 \<Longrightarrow> fold (exit_fd t) [0..<n] s =
    (fold handle_close (take n P) s)\<lparr>tasks := (tasks s)(t := (tasks s t)\<lparr>t_fds := replicate n (- 1) @ drop n P\<rparr>)\<rparr>"
proof (induction n)
  case 0
  have "(tasks s)(t := (tasks s t)\<lparr>t_fds := t_fds (tasks s t)\<rparr>) = tasks s" by simp
  then show ?case using assms(1) by simp
next
  case (Suc n)
  have n: "take (Suc n) P = take n P @ [P ! n]" and d: "drop n P = P ! n # drop (Suc n) P"
    using Suc.prems assms(2) by (simp_all add: take_Suc_conv_app_nth Cons_nth_drop_Suc)
  let ?X = "(fold handle_close (take n P) s)\<lparr>tasks := (tasks s)(t := (tasks s t)\<lparr>t_fds := replicate n (- 1) @ drop n P\<rparr>)\<rparr>"
  have x: "tasks ?X t = (tasks s t)\<lparr>t_fds := replicate n (- 1) @ drop n P\<rparr>" by simp
  have h: "P ! n = t_fds (tasks ?X t) ! n" unfolding x using d by (simp add: nth_append)
  have u: "(replicate n (- 1) @ drop n P)[n := - 1] = replicate (Suc n) (- 1) @ drop (Suc n) P"
    unfolding d by (simp add: list_update_append replicate_append_same)
  have "fold (exit_fd t) [0..<Suc n] s = exit_fd t n (fold (exit_fd t) [0..<n] s)" by simp
  also have "\<dots> = (handle_close (P ! n) ?X)\<lparr>tasks := (tasks ?X)(t := (tasks ?X t)\<lparr>t_fds := (t_fds (tasks ?X t))[n := - 1]\<rparr>)\<rparr>"
    unfolding Suc.IH [OF Suc_leD [OF Suc.prems]] by (rule exit_fd_eq [OF h])
  also have "\<dots> = (handle_close (P ! n) (fold handle_close (take n P) s))\<lparr>tasks :=
      (tasks s)(t := (tasks s t)\<lparr>t_fds := replicate (Suc n) (- 1) @ drop (Suc n) P\<rparr>)\<rparr>"
    unfolding handle_tasks x by (simp add: u)
  finally show ?case by (simp only: n fold_append fold_simps comp_apply)
qed


lemma vfs_tasks: "vfs_refs (s\<lparr>tasks := T\<rparr>) = vfs_refs s" "vfs_inv (s\<lparr>tasks := T\<rparr>) = vfs_inv s"
proof -
  have "socket_refs (s\<lparr>tasks := T\<rparr>) = socket_refs s" "sockets_ok (s\<lparr>tasks := T\<rparr>) = sockets_ok s"
    "cpuinfo_refs (s\<lparr>tasks := T\<rparr>) = cpuinfo_refs s" "cpuinfos_ok (s\<lparr>tasks := T\<rparr>) = cpuinfos_ok s"
    "file_refs (s\<lparr>tasks := T\<rparr>) = file_refs s" "files_ok (s\<lparr>tasks := T\<rparr>) = files_ok s"
    by (rule tables_cong; simp)+
  then show "vfs_refs (s\<lparr>tasks := T\<rparr>) = vfs_refs s" "vfs_inv (s\<lparr>tasks := T\<rparr>) = vfs_inv s"
    by (simp_all add: vfs_refs_def vfs_inv_def fun_eq_iff)
qed

text \<open>
  C39. Descriptors across \<^verbatim>\<open>fork\<close> and \<^verbatim>\<open>exit\<close>. \<^verbatim>\<open>vfs_fork_fds\<close> gives the child the parent's table and takes one more reference
  to each object for every descriptor that names it. When the child exits, \<^verbatim>\<open>vfs_exit_fds\<close> empties its table, and every
  count of every file, socket and cpuinfo object is again what it was; the parent's table never changes. A file system driver must be
  registered (part of \<open>vfs_inv\<close>): without one \<^verbatim>\<open>vfs_exit_fds\<close> returns at once, and the references the fork took to
  sockets and devices stay.
\<close>

theorem fork_exit_balance:
  assumes "vfs_inv s" "\<forall>h. vfs_refs s h + 16 \<le> 2147483647" "current_task s \<noteq> 0" "child \<noteq> 0" "child \<noteq> current_task s"
    and "P = t_fds (tasks s (current_task s))" "length P = 16" "length (t_fds (tasks s child)) = 16"
    and "f = vfs_fork_fds child s" "e = vfs_exit_fds child f"
  shows "t_fds (tasks f child) = P \<and> vfs_inv f \<and> (\<forall>h. vfs_refs f h = vfs_refs s h + (if 0 < vfs_refs s h then count_list P h else 0)) \<and>
    t_fds (tasks e child) = replicate 16 (- 1) \<and> vfs_inv e \<and> vfs_refs e = vfs_refs s \<and> t_fds (tasks e (current_task s)) = P"
proof -
  let ?F = "fold handle_dup P s"
  have f: "f = ?F\<lparr>tasks := (tasks s)(child := (tasks s child)\<lparr>t_fds := P\<rparr>)\<rparr>"
    using fork_fold [OF assms(5,8,6,7), of 16] assms(3,4,7-9) by (simp add: vfs_fork_fds_def)
  have l: "\<forall>h. vfs_refs s h + length P \<le> 2147483647" using assms(2,7) by simp
  have F: "vfs_inv ?F" "vfs_refs ?F h = vfs_refs s h + (if 0 < vfs_refs s h then count_list P h else 0)" for h
    using fds.acquire_all [OF assms(1) l, of h] by blast+
  have t: "t_fds (tasks f child) = P" unfolding f by simp
  have inv: "vfs_inv f" unfolding f vfs_tasks by (rule F)
  then have drv: "current_driver f" by (simp add: vfs_inv_def)
  let ?E = "fold handle_close P f"
  have e: "e = ?E\<lparr>tasks := (tasks f)(child := (tasks f child)\<lparr>t_fds := replicate 16 (- 1)\<rparr>)\<rparr>"
    using exit_fold [OF t [symmetric] assms(7), of 16] assms(4,7,10) drv by (simp add: vfs_exit_fds_def)
  have E: "?E = (fold handle_close P ?F)\<lparr>tasks := tasks f\<rparr>" unfolding f fold_tasks by simp
  have "vfs_inv e" "vfs_refs e = vfs_refs s"
    unfolding e E vfs_tasks using fds.acquire_and_release [OF assms(1) l] by blast+
  moreover have "t_fds (tasks e child) = replicate 16 (- 1)" unfolding e by simp
  moreover have "t_fds (tasks e (current_task s)) = P" unfolding e using assms(5,6) by (simp add: f)
  moreover have "\<forall>h. vfs_refs f h = vfs_refs s h + (if 0 < vfs_refs s h then count_list P h else 0)"
    unfolding f vfs_tasks using F(2) by blast
  ultimately show ?thesis using t inv by blast
qed

text \<open>A task with a file open twice and with an open cpuinfo device.\<close>

definition demo_vfs :: vfs_st where
  "demo_vfs = (fs_st.extend demo_fs
     \<lparr>cpuid = \<lparr>cpu = zero_cpu, cpuinfo_buf = [], initialized = False\<rparr>,
      cpuinfo_files = \<lparr>ci_used = True, ci_refs = 1, ci_offset = 0\<rparr> # replicate 3 \<lparr>ci_used = False, ci_refs = 0, ci_offset = 0\<rparr>,
      udp_ttys = replicate 8 zero_utty\<rparr>)
     \<lparr>current_task := 0x1000, tasks := (\<lambda>_. demo_tcb 0 TASK_READY 0x1000)(0x1000 := (demo_tcb 0 TASK_RUNNING 0x1000)\<lparr>
        t_fds := [- 32, - 32, - 32, 0, 0, - 8] @ replicate 10 (- 1)\<rparr>)\<rparr>"

lemma demo_vfs_fields:
  "sockets demo_vfs = replicate 16 zero_socket"
  "open_files demo_vfs = \<lparr>f_path = [97], f_start_cluster = 2, f_size = 3, f_offset = 1, f_used = True, f_refs = 1\<rparr> # replicate 7 zero_file"
  "cpuinfo_files demo_vfs = \<lparr>ci_used = True, ci_refs = 1, ci_offset = 0\<rparr> # replicate 3 \<lparr>ci_used = False, ci_refs = 0, ci_offset = 0\<rparr>"
  "current_driver demo_vfs" "current_task demo_vfs = 0x1000" "t_fds (tasks demo_vfs 0x1000) = [- 32, - 32, - 32, 0, 0, - 8] @ replicate 10 (- 1)"
  "t_fds (tasks demo_vfs 0x2000) = replicate 16 (- 1)"
  by (simp_all add: demo_vfs_def fs_st.defs demo_fs_def net_st.defs demo_net_fields demo_tcb_def)

lemma demo_vfs_refs: "vfs_inv demo_vfs" "vfs_refs demo_vfs h \<le> 2" "vfs_refs demo_vfs 0 = 1" "vfs_refs demo_vfs (- 8) = 1"
proof -
  show "vfs_inv demo_vfs"
    by (simp add: vfs_inv_def sockets_ok_def cpuinfos_ok_def files_ok_def demo_vfs_fields zero_file_def list_all_iff socket_ok_def zero_socket_def)
  have s: "socket_refs demo_vfs h = 0" for h
    by (auto simp: socket_refs_def socket_from_handle_def socket_index_from_handle_def Let_def demo_vfs_fields zero_socket_def)
  have f: "file_refs demo_vfs h = (if h = 0 then 1 else 0)" for h
    by (auto simp: file_refs_def fd_ok_def demo_vfs_fields zero_file_def nth_Cons' nth_replicate)
  have c: "cpuinfo_refs demo_vfs h = (if h = - 8 then 1 else 0)" for h
    by (auto simp: cpuinfo_refs_def cpuinfo_live_def cpuinfo_handle_id_def demo_vfs_fields nth_Cons' nth_replicate)
  show "vfs_refs demo_vfs h \<le> 2" "vfs_refs demo_vfs 0 = 1" "vfs_refs demo_vfs (- 8) = 1"
    by (simp_all add: vfs_refs_def s f c)
qed

theorem fork_exit_balance_witness:
  "vfs_refs (vfs_fork_fds 0x2000 demo_vfs) 0 = 3 \<and>
   vfs_refs (vfs_exit_fds 0x2000 (vfs_fork_fds 0x2000 demo_vfs)) = vfs_refs demo_vfs"
proof -
  have "\<forall>h. vfs_refs demo_vfs h + 16 \<le> 2147483647" by (intro allI, rule order_trans, rule add_right_mono, rule demo_vfs_refs(2), simp)
  from fork_exit_balance [OF demo_vfs_refs(1) this, of "0x2000", OF _ _ _ refl _ _ refl refl] show ?thesis
    by (simp add: demo_vfs_fields demo_vfs_refs)
qed

lemma udp_tty_open_sockets:
  assumes "udp_tty_open name s = Some (h, s')"
  shows "sockets s' = sockets s"
proof -
  have "sockets (snd (udp_tty_for_port port s)) = sockets s" for port
    by (simp add: udp_tty_for_port_def split: list.split)
  then show ?thesis using assms
    by (auto simp: udp_tty_open_def case_prod_unfold Let_def split: if_splits option.splits Option.bind_splits dest!: udp_server_bind_sockets)
qed

text \<open>
  The handles of UDP terminals and of sockets overlap: opening \<^verbatim>\<open>/dev/udp3072\<close> up to \<^verbatim>\<open>/dev/udp3087\<close> gives the handle of
  a socket, and while that socket is in use, closing, reading and writing go to it instead of the terminal.
\<close>

lemma udp_socket_clash:
  assumes "parse_uint16 p = Some (3072 + of_nat i)" "i < 16" "sk_used (sockets s ! i)"
    and "udp_tty_open (text_of ''dev/udp'' @ p) s = Some (h, s')" "h \<noteq> - 1"
  shows "h = socket_handle_from_index i \<and> file_close h s' = socket_close h s' \<and>
    file_read M h n d s' = socket_read (m_env M) h d n s' \<and> file_write M h src n s' = socket_write (m_env M) h src s'"
proof -
  have u: "uint (3072 + of_nat i :: u16) = 3072 + int i"
    using assms(2) by (simp add: uint_word_ariths unsigned_of_nat take_bit_eq_mod)
  have h: "h = - 1024 - (3072 + int i)"
    using assms(1,4,5) by (auto simp: udp_tty_open_def case_prod_unfold Let_def text_of_def u split: if_splits Option.bind_splits)
  have "sk_used (sockets s' ! i)" using assms(3,4) udp_tty_open_sockets by metis
  then have "socket_handle_valid h s'"
    using assms(2) h by (simp add: socket_handle_valid_def socket_from_handle_def socket_index_from_handle_def Let_def)
  then show ?thesis using h by (simp add: socket_handle_from_index_def file_close_def file_read_def file_write_def)
qed

end
