(* ===== verification/Spec2Isabelle.thy ===== *)
theory Spec2Isabelle
  imports Paging Cdiv Csort Cnum Sockets Vfs
begin

text \<open>
  A verification of mboot, a hobby operating system for i386 machines, and of its user-space C library. The
  theories translate the C sources under \<^verbatim>\<open>src/\<close> into HOL and prove the properties that make them correct.

  \<^bold>\<open>The program.\<close> A boot sector loads the kernel (\<^verbatim>\<open>stage2\<close>). The kernel takes its heap from the E820 memory map, builds
  identity page tables, and schedules tasks in a ring. Tasks call it through descriptors: virtual terminals fed
  by the keyboard, UDP terminals and sockets on top of a network card, and files of a FAT16 volume on an ATA drive. User
  programs, among them Lua, are linked with the library in \<^verbatim>\<open>user/src/libc.c\<close>.

  \<^bold>\<open>Conventions.\<close> The state of the kernel is one chain of records, each theory adding the globals of its component to those
  it builds on: \<open>heap_st\<close>, \<open>paging_st\<close>, \<open>sched_st\<close>, \<open>vga_st\<close>, \<open>tty_st\<close>, \<open>kbd_st\<close>, \<open>bus_st\<close>, \<open>nic_st\<close>,
  \<open>net_st\<close>, \<open>fs_st\<close>, \<open>vfs_st\<close>. An operation is a function on the state with the name it has in the source. A result \<open>None\<close> means that
  the call does not return: the processor is halted, a loop does not end, or the code leaves the object it works
  on. Loops that need not end are partial functions; there is no fuel, and theorems about them say that they return.
  Integers keep their width as words where they can wrap; indices, lengths, reference counts of sockets and
  \<^verbatim>\<open>int\<close> results are unbounded where the code keeps them in range. Signed overflow wraps round, as on
  the processor. Hardware is a parameter: \<open>device\<close> for ports and registers, \<open>card\<close> for the network card with its DMA, the
  \<^verbatim>\<open>cpuid\<close> instruction, \<open>env\<close> for interrupts and other tasks while a call waits. What a theorem needs of it is a named
  hypothesis after its documentation (\<open>quiet\<close>, \<open>pci_mechanism_1\<close>, \<open>ata_drive\<close>, \<open>env_keeps\<close>), and its witness
  has an instance. Log output is not part of the state.

  \<^bold>\<open>Kernel memory and tasks.\<close>
  \<^item> \<open>Prelude\<close>: words, byte memory, frame lemmas, slot tables.
  \<^item> \<open>Mem\<close> models \<^verbatim>\<open>stage2/mem.c\<close>; \<open>Heap\<close> proves it: the blocks tile the heap, \<^verbatim>\<open>kmalloc\<close> returns fresh cleared blocks,
    \<^verbatim>\<open>kfree\<close> gives back exactly the bytes of the block and merges neighbours, and no history of calls that
    does not wrap the address space makes blocks overlap. The locales \<open>object_allocator\<close> and \<open>temp_allocator\<close> are what the clients of the heap rely on.
  \<^item> \<open>Paging\<close> (\<^verbatim>\<open>stage2/paging.c\<close>): against the walk of the processor, \<^verbatim>\<open>paging_init\<close> is the identity and
    \<^verbatim>\<open>paging_map_page\<close> changes one page.
  \<^item> \<open>Sched\<close> (\<^verbatim>\<open>stage2/scheduler.c\<close>, without the creation and end of tasks): no ready task starves, and waking is exact.
  \<^item> \<open>Utils\<close> (\<^verbatim>\<open>stage2/utils.c\<close>, \<^verbatim>\<open>inc/utils.h\<close>): string comparison, BCD, byte order.

  \<^bold>\<open>Terminals.\<close> \<open>Ring\<close> holds circular buffers and the locale \<open>bounded_fifo\<close>. \<open>Tty\<close> (\<^verbatim>\<open>dev/vga.c\<close>, \<^verbatim>\<open>dev/tty.c\<close>) relates
  terminals to a pure screen function and shows the screen equal to the active terminal; \<open>Keyboard\<close> (\<^verbatim>\<open>dev/keyboard.c\<close>) takes keys through the interrupt handler to a read.

  \<^bold>\<open>Buses and network.\<close>
  \<^item> \<open>Bus\<close> (\<^verbatim>\<open>io.c\<close>, \<^verbatim>\<open>cpu/pic\<close>, \<^verbatim>\<open>cpu/pit\<close>, \<^verbatim>\<open>dev/rtc.c\<close>, \<^verbatim>\<open>dev/pci.c\<close>): what a write of half a configuration register does to
    writable, read-only and write-one-to-clear bits.
  \<^item> \<open>E1k\<close> (\<^verbatim>\<open>dev/e1k.c\<close>) and \<open>Inet\<close> (headers and checksums of \<^verbatim>\<open>net\<close>): the checksum detects a changed field.
  \<^item> \<open>Net\<close> (\<^verbatim>\<open>net/eth.c\<close>, \<^verbatim>\<open>arp.c\<close>, \<^verbatim>\<open>ipv4.c\<close>, \<^verbatim>\<open>icmp.c\<close>, \<^verbatim>\<open>udp.c\<close>, \<^verbatim>\<open>socket.c\<close>): frames in the ring become datagrams in a queue,
    ARP resolves, sockets live as long as they are referenced, and bad calls fail without effect. \<open>Sockets\<close> shows the type
    invariant of the socket table over all calls. \<open>Handles\<close> holds the locales of reference counting, \<open>refcounted\<close> and \<open>shared_handles\<close>.

  \<^bold>\<open>Files.\<close> \<open>Fat16\<close> models \<^verbatim>\<open>dev/disk.c\<close> and \<^verbatim>\<open>fat16.c\<close>; \<open>Volume\<close> shows what a read returns on an ATA drive with a FAT16
  volume. \<open>Cpuid\<close> (\<^verbatim>\<open>cpu/cpuid.c\<close>) makes the text of \<^verbatim>\<open>/dev/cpuinfo\<close>. \<open>Vfs\<close> (\<^verbatim>\<open>vfs.c\<close>) is the descriptor layer: \<^verbatim>\<open>fork\<close> and \<^verbatim>\<open>exit\<close> balance. This
  theory adds reading a file by a sequence of reads, through all these layers.

  \<^bold>\<open>The user library.\<close> \<open>Cdiv\<close> (64-bit division), \<open>Csort\<close> (\<^verbatim>\<open>qsort\<close> sorts), \<open>Cstring\<close> (strings and \<^verbatim>\<open>memmove\<close>), \<open>Cnum\<close> (numbers, \<^verbatim>\<open>printf\<close>
  against its text, \<^verbatim>\<open>malloc\<close>), all after \<^verbatim>\<open>user/src/libc.c\<close>.

  \<^bold>\<open>Bounds.\<close> The polling loop of the disk runs 10000000 times at most, as in the source. A read of a file asks for heap room for every
  buffer it allocates, as if nothing were reused: \<open>(length cs + 1) * (clus_bytes s + 2132)\<close> bytes cover
  the cluster buffer and the sector buffers with their headers, for each cluster of the file.

  \<^bold>\<open>Not modelled.\<close> Assembly (boot sector, interrupt entry, context switch), processor tables (\<^verbatim>\<open>gdt.c\<close>, \<^verbatim>\<open>idt.c\<close>) with the dispatch of system calls,
  the start-up sequence \<^verbatim>\<open>loader.c\<close>, task creation, \<^verbatim>\<open>exec\<close> and exit in \<^verbatim>\<open>scheduler.c\<close> with the ELF loader, whose work is to lay out stacks and pages for that
  assembly, the serial log, the directory listing of \<^verbatim>\<open>fat16.c\<close>, and of the user library the wrappers of system calls, \<^verbatim>\<open>stdio\<close> streams, \<^verbatim>\<open>strtod\<close> and mathematics,
  time formatting and \<^verbatim>\<open>setjmp\<close>; the user programs and the vendored Lua sources.
\<close>

section \<open>Reading files through descriptors\<close>


fun vfs_reads :: "('a vfs_st_scheme) machine \<Rightarrow> (int \<times> nat) list \<Rightarrow> 'a vfs_st_scheme \<Rightarrow> (u8 list \<times> 'a vfs_st_scheme) option" where
  "vfs_reads M [] s = Some ([], s)"
| "vfs_reads M ((fd, n) # rs) s = do {
     (r, bs, s) \<leftarrow> vfs_read M fd n True s;
     (ds, s) \<leftarrow> vfs_reads M rs s;
     Some (bs @ ds, s) }"

lemma take_pieces:
  assumes "b = take n (drop k xs)" "k' = k + length b"
  shows "b @ take m (drop k' xs) = take (n + m) (drop k xs)"
proof (cases "n \<le> length xs - k")
  case True
  then show ?thesis using assms take_add [of n m "drop k xs"] by (simp add: add.commute)
qed (use assms in simp)

text \<open>One read through a descriptor: what it returns, and that the next read finds everything in place.\<close>

lemma vfs_read_step:
  fixes s :: "'a vfs_st_scheme"
  assumes "ata_drive img cap view (m_disk M)" "disk_ready view s" "owned s L" "(length cs + 1) * (clus_bytes s + 2132) \<le> heap_room s"
    and "file_on_disk img cap s h cs" "bs = take n (drop (unat (f_offset (open_files s ! nat h))) (contents img s h cs))"
    and "current_driver s" "current_task s \<noteq> 0" "0 \<le> fd" "fd < 16" "t_fds (tasks s (current_task s)) ! nat fd = h"
  shows "\<exists>s'. vfs_read M fd n True s = Some (int (length bs), bs, s') \<and> disk_ready view s' \<and> owned s' L \<and>
    heap_room s \<le> heap_room s' + (length cs + 1) * (clus_bytes s + 2132) \<and> file_on_disk img cap s' h cs \<and> clus_bytes s' = clus_bytes s \<and>
    contents img s' h cs = contents img s h cs \<and> current_driver s' \<and> current_task s' = current_task s \<and>
    t_fds (tasks s' (current_task s)) = t_fds (tasks s (current_task s)) \<and>
    unat (f_offset (open_files s' ! nat h)) = unat (f_offset (open_files s ! nat h)) + length bs"
proof -
  obtain s0 where s0: "fat16_read (m_env M) (m_disk M) h n s = Some (int (length bs), bs,
      upd_file (nat h) (\<lambda>f. f\<lparr>f_offset := f_offset f + of_nat (length bs)\<rparr>) s0)" "owned s0 L" "fs_frame view s s0"
      "heap_room s \<le> heap_room s0 + (length cs + 1) * (clus_bytes s + 2132)"
    using fat16_read_step [OF assms(1-6), of "m_env M"] by blast
  define s' where "s' = upd_file (nat h) (\<lambda>f. f\<lparr>f_offset := f_offset f + of_nat (length bs)\<rparr>) s0"
  have h: "0 \<le> h" "nat h < 8" "length (open_files s) = 8" using assms(5) by (auto simp: file_on_disk_def)
  have "\<not> socket_handle_valid h s"
    using h(1) by (simp add: socket_handle_valid_def socket_from_handle_def socket_index_from_handle_def Let_def)
  then have "vfs_read M fd n True s = Some (int (length bs), bs, s')"
    using assms(7-11) h(1) s0(1) by (simp add: vfs_read_def file_read_def scheduler_current_fds_def s'_def)
  moreover have d: "disk_ready view s'" "owned s' L" "heap_room s' = heap_room s0"
    using fs_frame_ready [OF s0(3) assms(2)] s0(2) by (simp_all add: s'_def disk_ready_def owned_def heap_inv_def heap_room_def)
  note f = fs_frame_fields [OF s0(3)]
  then have e: "g_bpb s' = g_bpb s" "g_part_offset s' = g_part_offset s" by (simp_all add: s'_def)
  have q: "clus_bytes s' = clus_bytes s" "clus img s' = clus img s" "fat_chain img cap s' cs = fat_chain img cap s cs"
    by (rule pos_cong [OF e])+
  have o: "open_files s' ! nat h = (open_files s ! nat h)\<lparr>f_offset := f_offset (open_files s ! nat h) + of_nat (length bs)\<rparr>"
    "length (open_files s') = 8"
    using h f(3) by (simp_all add: s'_def)
  moreover have "file_on_disk img cap s' h cs" "contents img s' h cs = contents img s h cs"
    using assms(5) o by (simp_all add: file_on_disk_def contents_def chain_data_def q Let_def)
  moreover have "unat (f_offset (open_files s' ! nat h)) = unat (f_offset (open_files s ! nat h)) + length bs"
  proof -
    have "length bs \<le> unat (f_size (open_files s ! nat h)) - unat (f_offset (open_files s ! nat h))"
      unfolding assms(6) contents_def by (simp add: min.coboundedI1 diff_le_mono)
    then have "unat (f_offset (open_files s ! nat h)) + length bs < 4294967296"
      using unat_le_u32 [of "f_size (open_files s ! nat h)"] unat_le_u32 [of "f_offset (open_files s ! nat h)"] by linarith
    then show ?thesis unfolding o by (simp add: unat_word_ariths unsigned_of_nat take_bit_eq_mod)
  qed
  moreover have "current_driver s'" "current_task s' = current_task s" "t_fds (tasks s' (current_task s)) = t_fds (tasks s (current_task s))"
    using f assms(7) by (simp_all add: s'_def)
  ultimately show ?thesis using s0(4) q(1) d by auto
qed


text \<open>
  C40. Sequential reads. A task reads a file of the FAT16 volume by any sequence of reads, of any sizes and through any of the
  descriptors that name it, on the drive and under the conditions of the single read: the drive is an ATA drive with no
  sector waiting, the disk lock is free, and the clusters of the file lie on the disk. The heap must have room for the
  buffers of all the reads together, although each read frees its own. Together the reads return the bytes of the file
  from its offset on, each byte once and in order, as many as were asked for or as there are: the descriptors share one offset.
\<close>

theorem vfs_reads_file:
  fixes s :: "'a vfs_st_scheme"
  assumes "ata_drive img cap view (m_disk M)" "disk_ready view s" "owned s L" "length rs * ((length cs + 1) * (clus_bytes s + 2132)) \<le> heap_room s"
    and "file_on_disk img cap s h cs" "current_driver s" "current_task s \<noteq> 0"
    and "\<forall>(fd, n) \<in> set rs. 0 \<le> fd \<and> fd < 16 \<and> t_fds (tasks s (current_task s)) ! nat fd = h"
  shows "\<exists>s'. vfs_reads M rs s =
    Some (take (sum_list (map snd rs)) (drop (unat (f_offset (open_files s ! nat h))) (contents img s h cs)), s')"
  using assms
proof (induction rs arbitrary: s)
  case (Cons r rs)
  obtain fd n where r: "r = (fd, n)" by (cases r)
  define bs where "bs = take n (drop (unat (f_offset (open_files s ! nat h))) (contents img s h cs))"
  have room: "(length cs + 1) * (clus_bytes s + 2132) \<le> heap_room s" using Cons.prems(4) by simp
  have fd: "0 \<le> fd" "fd < 16" "t_fds (tasks s (current_task s)) ! nat fd = h" using Cons.prems(8) r by auto
  obtain s1 where 1: "vfs_read M fd n True s = Some (int (length bs), bs, s1)" "disk_ready view s1" "owned s1 L"
      "heap_room s \<le> heap_room s1 + (length cs + 1) * (clus_bytes s + 2132)" "file_on_disk img cap s1 h cs" "clus_bytes s1 = clus_bytes s"
      "contents img s1 h cs = contents img s h cs" "current_driver s1" "current_task s1 = current_task s"
      "t_fds (tasks s1 (current_task s)) = t_fds (tasks s (current_task s))"
      "unat (f_offset (open_files s1 ! nat h)) = unat (f_offset (open_files s ! nat h)) + length bs"
    using vfs_read_step [OF Cons.prems(1-3) room Cons.prems(5) bs_def Cons.prems(6,7) fd] by blast
  have "length rs * ((length cs + 1) * (clus_bytes s1 + 2132)) \<le> heap_room s1" using Cons.prems(4) 1(4) unfolding 1(6) by simp
  then have "\<exists>s'. vfs_reads M rs s1 = Some (take (sum_list (map snd rs)) (drop (unat (f_offset (open_files s1 ! nat h))) (contents img s h cs)), s')"
    using Cons.IH [of s1] Cons.prems(1,7,8) 1 by auto
  then show ?case using 1(1) take_pieces [OF bs_def 1(11)] by (auto simp: r)
qed simp

definition demo_machine :: "'s machine" where
  "demo_machine = \<lparr>m_env = demo_env, m_disk = demo_drive, m_has_cpuid = False, m_cpuid = (\<lambda>_ _. (0, 0, 0, 0))\<rparr>"

theorem vfs_reads_file_witness: "\<exists>s'. vfs_reads demo_machine [(3, 1), (4, 5)] demo_vfs = Some ([7, 7], s')"
proof -
  have e: "g_bpb demo_vfs = g_bpb demo_fs" "g_part_offset demo_vfs = g_part_offset demo_fs" "disk_mutex demo_vfs = disk_mutex demo_fs"
    "idle_task demo_vfs = 0x1000" "heap_room demo_vfs = heap_room demo_fs" "owned demo_vfs {}"
    "hw demo_vfs = hw demo_fs"
    using demo_fs_ready(2) by (simp_all add: demo_vfs_def fs_st.defs demo_fs_heap heap_room_def owned_def heap_inv_def)
  have f: "open_files demo_vfs ! 0 = \<lparr>f_path = [97], f_start_cluster = 2, f_size = 3, f_offset = 1, f_used = True, f_refs = 1\<rparr>"
    "length (open_files demo_vfs) = 8" "g_part_offset demo_vfs = 512" "clus_bytes demo_vfs = 512" "data_pos demo_vfs 2 = 2560" "fat_pos demo_vfs 2 = 1028"
    unfolding pos_cong [OF e(1,2)] e(2)
    by (simp_all add: demo_vfs_fields demo_fs_def net_st.defs clus_bytes_def data_pos_def fat_pos_def root_pos_def)
  have r: "task_ring (tasks demo_vfs) (idle_task demo_vfs) []"
    unfolding e(4) by (simp add: task_ring_def demo_vfs_def demo_tcb_def)
  have "disk_ready demo_regs demo_vfs" using demo_fs_ready(1) r by (auto simp: disk_ready_def e(3,7))
  moreover have "file_on_disk (\<lambda>_. 7) 64 demo_vfs 0 [2]" by (simp add: file_on_disk_def f on_disk_def)
  moreover have "contents (\<lambda>_. 7) demo_vfs 0 [2] = [7, 7, 7]" by (simp add: contents_def f chain_data_def clus_def take_map upt_rec)
  ultimately show ?thesis
    using vfs_reads_file [OF _ _ e(6), of "\<lambda>_. 7" 64 demo_regs demo_machine "[(3, 1), (4, 5)]" "[2]" 0] demo_drive_ok
    by (simp add: f demo_fs_ready(3) e(5) demo_vfs_fields demo_machine_def)
qed

end
